(* ===== verification/Yarm_Prelude.thy ===== *)
theory Yarm_Prelude
  imports Main "HOL-Library.Word" "HOL-Library.Monad_Syntax"
begin

text \<open>
  Shared vocabulary of the development: the machine types of the C++ sources (x86-64, signed
  \<^verbatim>\<open>char\<close>, 64-bit \<^verbatim>\<open>size_t\<close>, 32-bit \<^verbatim>\<open>int\<close>), memory as a list of bytes, and the functions of
  the C and C++ standard libraries that the sources call.

  Convention. Where a model of a C++ function has a type \<open>_ option\<close>, the value \<open>None\<close> says that the
  call does not return normally: it has undefined behaviour (a read outside of the allocation, a
  null dereference), it fails an \<^verbatim>\<open>assert\<close> (the build keeps asserts enabled, because
  \<^verbatim>\<open>CMAKE_CXX_FLAGS_RELEASE\<close> is set without \<^verbatim>\<open>-DNDEBUG\<close>), or an exception leaves it.  A C++
  exception that the function itself catches is an ordinary branch.
\<close>

section \<open>Machine types\<close>

type_synonym size_t = "64 word"
type_synonym bytes = "char list"

abbreviation CR :: char where "CR \<equiv> CHR 0x0D"
abbreviation LF :: char where "LF \<equiv> CHR 0x0A"
abbreviation NUL :: char where "NUL \<equiv> CHR 0x00"
abbreviation CRLF :: bytes where "CRLF \<equiv> [CR, LF]"

named_theorems c_lib \<open>definitions of the C and C++ library functions\<close>

text \<open>A \<^verbatim>\<open>char\<close> promoted to \<^verbatim>\<open>int\<close>: \<^verbatim>\<open>char\<close> is signed.\<close>

definition schar :: "char \<Rightarrow> int" where
  "schar c = (let n = of_char c in if n < 128 then n else n - 256)"

text \<open>Conversion to \<^verbatim>\<open>int\<close>, modulo \<open>2 ^ 32\<close> into the signed range.\<close>

definition int32 :: "int \<Rightarrow> int" where
  "int32 x = signed_take_bit 31 x"

text \<open>\<^verbatim>\<open>size_t(*p - '0')\<close>: no check that \<^verbatim>\<open>*p\<close> is a digit.\<close>

definition digit_sz :: "char \<Rightarrow> size_t" where
  "digit_sz c = word_of_int (schar c - 48)"

section \<open>Memory\<close>

text \<open>
  A pointer into an allocation is a position in the list of its bytes.  Reading at or beyond the
  end of the list is undefined behaviour.
\<close>

definition rd :: "bytes \<Rightarrow> nat \<Rightarrow> char option" where
  "rd m i = (if i < length m then Some (m ! i) else None)"

lemma rd_Nil [simp]: "rd [] i = None"
  by (simp add: rd_def)

lemma rd_0 [simp]: "rd (c # m) 0 = Some c"
  by (simp add: rd_def)

lemma rd_Suc [simp]: "rd (c # m) (Suc i) = rd m i"
  by (simp add: rd_def)

lemma rd_numeral [simp]: "rd (c # m) (numeral k) = rd m (pred_numeral k)"
  by (simp add: rd_def numeral_eq_Suc)

lemma rd_drop [simp]: "rd (drop k m) i = rd m (k + i)"
  by (auto simp: rd_def)

lemma rd_append: "rd (xs @ ys) i = (if i < length xs then rd xs i else rd ys (i - length xs))"
  by (auto simp: rd_def nth_append)

lemma rd_eq_None [simp]: "rd m i = None \<longleftrightarrow> length m \<le> i"
  by (auto simp: rd_def)

lemma rd_Some_iff: "rd m i = Some c \<longleftrightarrow> i < length m \<and> m ! i = c"
  by (auto simp: rd_def)

text \<open>
  The bytes of a block of memory from position \<open>off\<close>: \<open>n\<close> of them, or undefined.
\<close>

definition rd_block :: "bytes \<Rightarrow> nat \<Rightarrow> nat \<Rightarrow> bytes option" where
  "rd_block m off n = (if off + n \<le> length m then Some (take n (drop off m)) else None)"

text \<open>\<^verbatim>\<open>memchr(p, c, n)\<close>: the distance from \<^verbatim>\<open>p\<close> of the first \<^verbatim>\<open>c\<close> among the first \<^verbatim>\<open>n\<close> bytes.\<close>

fun memchr :: "bytes \<Rightarrow> char \<Rightarrow> nat \<Rightarrow> nat option" where
  "memchr [] c n = None"
| "memchr (x # xs) c n =
     (if n = 0 then None else if x = c then Some 0 else map_option Suc (memchr xs c (n - 1)))"

text \<open>A C string: the bytes up to the terminating NUL, which has to be inside the allocation.\<close>

definition c_str :: "bytes \<Rightarrow> bytes option" where
  "c_str m = (if NUL \<in> set m then Some (takeWhile (\<lambda>c. c \<noteq> NUL) m) else None)"

section \<open>Characters and numbers\<close>

definition isspace :: "char \<Rightarrow> bool" where
  "isspace c \<longleftrightarrow> c \<in> {CHR 0x20, CHR 0x09, LF, CHR 0x0B, CHR 0x0C, CR}"

definition isdigit :: "char \<Rightarrow> bool" where
  "isdigit c \<longleftrightarrow> (of_char c :: nat) \<in> {48..57}"

definition tolower :: "char \<Rightarrow> char" where
  "tolower c = (if (of_char c :: nat) \<in> {65..90} then char_of ((of_char c :: nat) + 32) else c)"

definition dec_val :: "bytes \<Rightarrow> int" where
  "dec_val ds = foldl (\<lambda>a c. a * 10 + (schar c - 48)) 0 ds"

text \<open>The sign and the digits that \<^verbatim>\<open>strtol\<close> reads, base 10: white space, a sign, digits.\<close>

definition strtol_parts :: "bytes \<Rightarrow> int \<times> bytes" where
  "strtol_parts s =
     (case dropWhile isspace s of
        [] \<Rightarrow> (1, [])
      | c # r \<Rightarrow>
          if c = CHR ''-'' then (- 1, takeWhile isdigit r)
          else if c = CHR ''+'' then (1, takeWhile isdigit r)
          else (1, takeWhile isdigit (c # r)))"

text \<open>
  \<^verbatim>\<open>std::stoi\<close>: \<open>None\<close> is an exception (\<^verbatim>\<open>invalid_argument\<close> without digits, \<^verbatim>\<open>out_of_range\<close>
  outside of \<^verbatim>\<open>int\<close>).
\<close>

definition stoi :: "bytes \<Rightarrow> int option" where
  "stoi s =
     (let (sg, ds) = strtol_parts s; v = sg * dec_val ds
      in if ds = [] then None
         else if - (2 ^ 31) \<le> v \<and> v < 2 ^ 31 then Some v else None)"

text \<open>\<^verbatim>\<open>std::atoi\<close> is \<^verbatim>\<open>(int) strtol\<close>: saturated at 64 bits, then truncated; 0 without digits.\<close>

definition atoi :: "bytes \<Rightarrow> int" where
  "atoi s =
     (let (sg, ds) = strtol_parts s; v = sg * dec_val ds
      in int32 (max (- (2 ^ 63)) (min (2 ^ 63 - 1) v)))"

text \<open>\<^verbatim>\<open>std::stoi\<close> on a pointer builds a \<^verbatim>\<open>std::string\<close> first, which searches for the NUL.\<close>

definition stoi_ptr :: "bytes \<Rightarrow> nat \<Rightarrow> int option option" where
  "stoi_ptr m off = map_option stoi (c_str (drop off m))"

text \<open>Output of a number to a stream, and \<^verbatim>\<open>std::to_string\<close>.\<close>

definition digit_char :: "nat \<Rightarrow> char" where
  "digit_char d = char_of (48 + d)"

fun nat_dec :: "nat \<Rightarrow> string" where
  "nat_dec n =
     (if n < 10 then [digit_char n] else nat_dec (n div 10) @ [digit_char (n mod 10)])"

declare nat_dec.simps [simp del]

definition int_dec :: "int \<Rightarrow> string" where
  "int_dec i = (if i < 0 then CHR ''-'' # nat_dec (nat (- i)) else nat_dec (nat i))"

section \<open>Facts about numbers and their decimal text\<close>

lemma stoi_bounds: "stoi s = Some i \<Longrightarrow> - (2 ^ 31) \<le> i \<and> i < 2 ^ 31"
  by (auto simp: stoi_def Let_def split: if_splits prod.splits)

lemma of_char_digit_char: "d < 10 \<Longrightarrow> (of_char (digit_char d) :: nat) = 48 + d"
  by (simp add: digit_char_def)

lemma isdigit_digit_char [simp]: "d < 10 \<Longrightarrow> isdigit (digit_char d)"
  by (simp add: isdigit_def of_char_digit_char)

lemma schar_nat: "(of_char c :: nat) < 128 \<Longrightarrow> schar c = int (of_char c)"
  unfolding schar_def Let_def by (metis of_nat_less_iff of_nat_numeral of_nat_of_char)

lemma schar_digit_char: "d < 10 \<Longrightarrow> schar (digit_char d) = 48 + int d"
  by (simp add: schar_nat of_char_digit_char)

lemma digit_sz_digit_char: "d < 10 \<Longrightarrow> digit_sz (digit_char d) = of_nat d"
  by (simp add: digit_sz_def schar_digit_char)

lemma not_isdigit [simp]:
  "\<not> isdigit CR" "\<not> isdigit LF" "\<not> isdigit NUL" "\<not> isdigit (CHR ''-'')" "\<not> isdigit (CHR ''+'')"
  "\<not> isdigit (CHR ''*'')" "\<not> isdigit (CHR ''$'')"
  by (simp_all add: isdigit_def)

lemma isspace_not_isdigit: "isspace c \<Longrightarrow> \<not> isdigit c"
  by (auto simp: isspace_def isdigit_def)

lemma nat_dec_nonempty [simp]: "nat_dec n \<noteq> []"
  by (subst nat_dec.simps) simp

lemma length_nat_dec_pos [simp]: "0 < length (nat_dec n)"
  by simp

lemma set_nat_dec: "c \<in> set (nat_dec n) \<Longrightarrow> isdigit c"
proof (induction n rule: nat_dec.induct)
  case (1 n)
  show ?case
  proof (cases "n < 10")
    case True
    with "1.prems" show ?thesis by (simp add: nat_dec.simps [of n])
  next
    case False
    with "1.prems" have "c \<in> set (nat_dec (n div 10)) \<or> c = digit_char (n mod 10)"
      by (auto simp: nat_dec.simps [of n])
    with False "1.IH" show ?thesis by auto
  qed
qed

lemma nat_dec_avoids: "\<not> isdigit c \<Longrightarrow> c \<notin> set (nat_dec n)"
  using set_nat_dec by blast

lemma dec_val_append [simp]: "dec_val (ds @ [c]) = dec_val ds * 10 + (schar c - 48)"
  by (simp add: dec_val_def)

lemma dec_val_nat_dec: "dec_val (nat_dec n) = int n"
proof (induction n rule: nat_dec.induct)
  case (1 n)
  show ?case
  proof (cases "n < 10")
    case True
    then show ?thesis by (simp add: nat_dec.simps [of n] dec_val_def schar_digit_char)
  next
    case False
    with "1.IH" have "dec_val (nat_dec n) = int (n div 10) * 10 + int (n mod 10)"
      by (simp add: nat_dec.simps [of n] schar_digit_char)
    then show ?thesis by presburger
  qed
qed

lemma length_nat_dec_le: "length (nat_dec n) \<le> Suc n"
proof (induction n rule: nat_dec.induct)
  case (1 n)
  show ?case
  proof (cases "n < 10")
    case False
    with 1 have "length (nat_dec (n div 10)) \<le> Suc (n div 10)" by blast
    moreover from False have "Suc (n div 10) \<le> n" by linarith
    ultimately show ?thesis using False by (simp add: nat_dec.simps [of n])
  qed (simp add: nat_dec.simps [of n])
qed

lemma takeWhile_nat_dec:
  "\<not> isdigit c \<Longrightarrow> takeWhile isdigit (nat_dec n @ c # r) = nat_dec n"
  by (subst takeWhile_append2) (auto dest: set_nat_dec)

lemma strtol_parts_nat_dec:
  assumes "\<not> isdigit c"
  shows "strtol_parts (nat_dec n @ c # r) = (1, nat_dec n)"
proof -
  obtain d ds where n: "nat_dec n = d # ds"
    by (cases "nat_dec n") auto
  then have "isdigit d"
    using set_nat_dec [of d n] by simp
  then have d: "\<not> isspace d" "d \<noteq> CHR ''-''" "d \<noteq> CHR ''+''"
    using isspace_not_isdigit by auto
  have "takeWhile isdigit ((d # ds) @ c # r) = d # ds"
    using takeWhile_nat_dec [OF assms, of n r] by (simp only: n)
  with d show ?thesis
    by (simp add: strtol_parts_def n)
qed

lemma stoi_nat_dec:
  assumes "\<not> isdigit c" "n < 2 ^ 31"
  shows "stoi (nat_dec n @ c # r) = Some (int n)"
  using assms by (simp add: stoi_def strtol_parts_nat_dec dec_val_nat_dec)

lemma stoi_int32: "stoi s = Some v \<Longrightarrow> - (2 ^ 31) \<le> v \<and> v < 2 ^ 31"
  by (auto simp: stoi_def Let_def split: prod.splits if_splits)

lemma int32_id: "- (2 ^ 31) \<le> x \<Longrightarrow> x < 2 ^ 31 \<Longrightarrow> int32 x = x"
  unfolding int32_def by (rule signed_take_bit_int_eq_self) simp_all

lemma int32_range: "- (2 ^ 31) \<le> int32 x" "int32 x < 2 ^ 31"
  unfolding int32_def
  using signed_take_bit_int_greater_eq_minus_exp [of 31 x] signed_take_bit_int_less_exp [of 31 x]
  by auto

lemma c_str_prefix:
  assumes "NUL \<notin> set xs" "NUL \<in> set ys"
  shows "c_str (xs @ ys) = Some (xs @ takeWhile (\<lambda>c. c \<noteq> NUL) ys)"
  using assms by (auto simp: c_str_def takeWhile_append)

section \<open>Facts about memory\<close>

lemma memchr_Some:
  "memchr m c n = Some i \<Longrightarrow> i < n \<and> i < length m \<and> m ! i = c \<and> c \<notin> set (take i m)"
proof (induction m arbitrary: n i)
  case (Cons x xs)
  then show ?case
    by (cases i) (fastforce split: if_splits)+
qed simp

lemma memchr_None: "memchr m c n = None \<longleftrightarrow> c \<notin> set (take n m)"
proof (induction m arbitrary: n)
  case (Cons x xs)
  then show ?case by (cases n) auto
qed simp

lemma memchr_append_first:
  "c \<notin> set xs \<Longrightarrow> length xs < n \<Longrightarrow> memchr (xs @ c # ys) c n = Some (length xs)"
proof (induction xs arbitrary: n)
  case (Cons x xs)
  then show ?case by (cases n) auto
qed simp

lemma take_drop_append [simp]: "take k xs @ drop k xs @ ys = xs @ ys"
  by (metis append_assoc append_take_drop_id)

lemma rd_block_length: "rd_block m off n = Some bs \<Longrightarrow> length bs = n"
  by (auto simp: rd_block_def split: if_splits)

section \<open>Facts about 64-bit sizes\<close>

lemma unat_size_t: "unat (x :: size_t) < 2 ^ 64"
  by (rule order_less_le_trans [OF unsigned_less]) simp

lemma unat_add_size_t: "unat x + unat y < 2 ^ 64 \<Longrightarrow> unat (x + y :: size_t) = unat x + unat y"
  by (simp add: unat_word_ariths take_bit_eq_mod)

lemma unat_of_nat_size_t: "n < 2 ^ 64 \<Longrightarrow> unat (of_nat n :: size_t) = n"
  by (simp add: unat_of_nat take_bit_eq_mod)

lemma unat_mult_size_t: "unat x * unat y < 2 ^ 64 \<Longrightarrow> unat (x * y :: size_t) = unat x * unat y"
  by (simp add: unat_word_ariths take_bit_eq_mod)

lemma unat_min: "unat (min x y :: size_t) = min (unat x) (unat y)"
  by (simp add: min_def word_le_nat_alt)

lemma of_nat_size_t_inj:
  assumes "a < 2 ^ 31" "b < 2 ^ 31"
  shows "(of_nat a :: size_t) = of_nat b \<longleftrightarrow> a = b"
proof
  assume "(of_nat a :: size_t) = of_nat b"
  then have "unat (of_nat a :: size_t) = unat (of_nat b :: size_t)" by simp
  with assms show "a = b" by (simp add: unat_of_nat_size_t)
qed simp

lemma of_nat_size_t_le:
  assumes "a < 2 ^ 31" "b < 2 ^ 31"
  shows "(of_nat a :: size_t) \<le> of_nat b \<longleftrightarrow> a \<le> b" "(of_nat a :: size_t) < of_nat b \<longleftrightarrow> a < b"
  using assms by (simp_all add: word_le_nat_alt word_less_nat_alt unat_of_nat_size_t)

text \<open>Matches in the option monad.\<close>

lemma case_list_Some:
  "((case xs of [] \<Rightarrow> a | x # l \<Rightarrow> f x l) = Some y)
     = (xs = [] \<and> a = Some y \<or> (\<exists>x l. xs = x # l \<and> f x l = Some y))"
  by (cases xs) simp_all

lemma case_option_Some:
  "((case z of None \<Rightarrow> a | Some x \<Rightarrow> f x) = Some y) = (z = None \<and> a = Some y \<or> (\<exists>x. z = Some x \<and> f x = Some y))"
  by (cases z) simp_all

end
