(* ===== verification/Redis_Protocol.thy ===== *)
theory Redis_Protocol
  imports Yarm_Prelude
begin

text \<open>
  The parser of the redis protocol, \<^verbatim>\<open>src/proxy/redis_protocol.h\<close>: \<^verbatim>\<open>Bulk\<close> (one bulk string) and
  \<^verbatim>\<open>BulkArray\<close> (a command or a multi-bulk reply), both light-weight views that point into the
  receive buffer.  A parser may see only a part of its input; \<open>present_size\<close> says how much of the
  bulk has arrived.

  The functions take the memory \<open>m\<close> of the buffer.  A pointer is a position in \<open>m\<close>; adding a size to
  a pointer is addition of natural numbers, that is, addresses do not wrap around.  Sizes that the
  source computes in \<^verbatim>\<open>size_t\<close> are 64-bit words and wrap.
\<close>

section \<open>Bulk\<close>

record bulk =
  raw_data :: nat
  present_size :: int

definition SIZE_PARSE_ERROR :: int where
  "SIZE_PARSE_ERROR = - 10001"

text \<open>
  The loop of the constructor, \<^verbatim>\<open>while(*p != '\r' && size_t(p - data) < bytes)\<close>: it reads \<^verbatim>\<open>*p\<close>
  before it compares the distance.  Returned are the character it stopped at, the distance and
  the number.
\<close>

fun bulk_scan :: "bytes \<Rightarrow> nat \<Rightarrow> nat \<Rightarrow> size_t \<Rightarrow> (char \<times> nat \<times> size_t) option" where
  "bulk_scan [] i n tot = None"
| "bulk_scan (c # cs) i n tot =
     (if c \<noteq> CR \<and> i < n then bulk_scan cs (Suc i) n (tot * 10 + digit_sz c)
      else Some (c, i, tot))"

definition Bulk :: "bytes \<Rightarrow> nat \<Rightarrow> nat \<Rightarrow> bulk option" where
  "Bulk m off n =
     (let sized = (\<lambda>s. \<lparr>raw_data = off, present_size = s\<rparr>) in
      if n < 4 then Some (sized 0)
      else do {
        c0 \<leftarrow> rd m off;
        if c0 \<noteq> CHR ''$'' then Some (sized SIZE_PARSE_ERROR)
        else do {
          c1 \<leftarrow> rd m (off + 1);
          if c1 = CHR ''-'' then do {
            c2 \<leftarrow> rd m (off + 2);
            if c2 \<noteq> CHR ''1'' then Some (sized SIZE_PARSE_ERROR)
            else if n < 5 then Some (sized 0)
            else do {
              c3 \<leftarrow> rd m (off + 3);
              if c3 \<noteq> CR then Some (sized SIZE_PARSE_ERROR)
              else do {
                c4 \<leftarrow> rd m (off + 4);
                Some (sized (if c4 \<noteq> LF then SIZE_PARSE_ERROR else 5))
              }
            }
          }
          else do {
            (c, i, tot) \<leftarrow> bulk_scan (drop (off + 1) m) 1 n 0;
            if c = CR \<and> i + 1 < n then do {
              c' \<leftarrow> rd m (off + i + 1);
              Some (sized (if c' = LF then int32 (int (min n (unat (of_nat i + tot + 4)))) else 0))
            }
            else Some (sized 0)
          }
        }
      })"

text \<open>The loops of \<^verbatim>\<open>total_size\<close> and \<^verbatim>\<open>payload_data\<close> have no bound.\<close>

fun size_scan :: "bytes \<Rightarrow> nat \<Rightarrow> size_t \<Rightarrow> (nat \<times> size_t) option" where
  "size_scan [] i tot = None"
| "size_scan (c # cs) i tot =
     (if c \<noteq> CR then size_scan cs (Suc i) (tot * 10 + digit_sz c) else Some (i, tot))"

definition total_size :: "bytes \<Rightarrow> bulk \<Rightarrow> size_t option" where
  "total_size m b = do {
     c \<leftarrow> rd m (raw_data b + 1);
     if c = CHR ''-'' then Some 5
     else do {
       (i, tot) \<leftarrow> size_scan (drop (raw_data b + 1) m) 1 0;
       Some (tot + of_nat i + 4)
     }
   }"

fun lf_scan :: "bytes \<Rightarrow> nat \<Rightarrow> nat option" where
  "lf_scan [] p = None"
| "lf_scan (c # cs) p = (if c \<noteq> LF then lf_scan cs (Suc p) else Some (Suc p))"

definition payload_data :: "bytes \<Rightarrow> bulk \<Rightarrow> nat option" where
  "payload_data m b = lf_scan (drop (raw_data b + 2) m) (raw_data b + 2)"

definition payload_size :: "bytes \<Rightarrow> bulk \<Rightarrow> size_t option" where
  "payload_size m b = do {
     r \<leftarrow> stoi_ptr m (raw_data b + 1);
     Some (case r of None \<Rightarrow> 0 | Some sz \<Rightarrow> if sz > 0 then word_of_int sz else 0)
   }"

definition absent_size :: "bytes \<Rightarrow> bulk \<Rightarrow> size_t option" where
  "absent_size m b = do {
     tot \<leftarrow> total_size m b;
     Some (if word_of_int (present_size b) \<ge> tot then 0
           else tot - word_of_int (present_size b))
   }"

definition bulk_completed :: "bytes \<Rightarrow> bulk \<Rightarrow> bool option" where
  "bulk_completed m b =
     (if present_size b > 0 then do { a \<leftarrow> absent_size m b; Some (a = 0) } else Some False)"

text \<open>The comparison loops of \<^verbatim>\<open>equals\<close> and \<^verbatim>\<open>iequals\<close>, over the \<open>size\<close> bytes of \<^verbatim>\<open>str\<close>.\<close>

definition equals :: "bytes \<Rightarrow> bulk \<Rightarrow> bytes \<Rightarrow> bool option" where
  "equals m b str = do {
     a \<leftarrow> absent_size m b;
     if a \<noteq> 0 then None
     else do {
       sz \<leftarrow> payload_size m b;
       if of_nat (length str) \<noteq> sz then Some False
       else do {
         q \<leftarrow> payload_data m b;
         bs \<leftarrow> rd_block m q (length str);
         Some (str = bs)
       }
     }
   }"

definition iequals :: "bytes \<Rightarrow> bulk \<Rightarrow> bytes \<Rightarrow> bool option" where
  "iequals m b str = do {
     a \<leftarrow> absent_size m b;
     if a \<noteq> 0 then None
     else do {
       sz \<leftarrow> payload_size m b;
       if of_nat (length str) \<noteq> sz then Some False
       else do {
         q \<leftarrow> payload_data m b;
         bs \<leftarrow> rd_block m q (length str);
         Some (map tolower str = map tolower bs)
       }
     }
   }"

text \<open>The payload as the callers read it: \<^verbatim>\<open>(payload_data(), payload_size())\<close>.\<close>

definition payload :: "bytes \<Rightarrow> bulk \<Rightarrow> bytes option" where
  "payload m b = do {
     q \<leftarrow> payload_data m b;
     sz \<leftarrow> payload_size m b;
     rd_block m q (unat sz)
   }"

definition to_string :: "bytes \<Rightarrow> bulk \<Rightarrow> bytes option" where
  "to_string m b = do {
     c \<leftarrow> rd m (raw_data b + 1);
     if c = CHR ''-'' then Some ''nil''
     else do {
       q \<leftarrow> payload_data m b;
       t \<leftarrow> total_size m b;
       a \<leftarrow> absent_size m b;
       rd_block m q (unat (t - of_nat (q - raw_data b) - a - 2))
     }
   }"

section \<open>BulkArray\<close>

record bulk_array =
  array_data :: nat
  parsed_size_field :: size_t
  items :: "bulk list"

definition SerializePrefix :: "int \<Rightarrow> bytes" where
  "SerializePrefix i = CHR ''*'' # int_dec i @ CRLF"

definition SerializeInt :: "int \<Rightarrow> bytes" where
  "SerializeInt i = CHR '':'' # int_dec i @ CRLF"

text \<open>
  The loop of \<^verbatim>\<open>ParseBulkItems\<close>.  \<open>k\<close> is \<^verbatim>\<open>max_bulks - items->size()\<close>, so the recursion is
  structural whatever the data says.
\<close>

fun parse_bulk_loop ::
  "bytes \<Rightarrow> nat \<Rightarrow> nat \<Rightarrow> nat \<Rightarrow> int \<Rightarrow> bulk list \<Rightarrow> (int \<times> bulk list) option" where
  "parse_bulk_loop m e 0 p parsed acc = Some (parsed, acc)"
| "parse_bulk_loop m e (Suc k) p parsed acc =
     (if p < e then do {
        b \<leftarrow> Bulk m p (e - p);
        if present_size b < 0 then Some (- 1, acc @ [b])
        else if present_size b = 0 then Some (parsed, acc)
        else do {
          t \<leftarrow> total_size m b;
          parse_bulk_loop m e k (p + unat t) (int32 (parsed + uint t)) (acc @ [b])
        }
      }
      else Some (parsed, acc))"

definition ParseBulkItems :: "bytes \<Rightarrow> nat \<Rightarrow> nat \<Rightarrow> size_t \<Rightarrow> (int \<times> bulk list) option" where
  "ParseBulkItems m off n max_bulks = parse_bulk_loop m (off + n) (unat max_bulks) off 0 []"

text \<open>The loop over the digits of the header: distance from the start, and the number.\<close>

fun count_scan :: "bytes \<Rightarrow> nat \<Rightarrow> nat \<Rightarrow> size_t \<Rightarrow> (nat \<times> size_t) option" where
  "count_scan [] i n bulks = (if i < n then None else Some (i, bulks))"
| "count_scan (c # cs) i n bulks =
     (if i < n \<and> isdigit c then count_scan cs (Suc i) n (bulks * 10 + digit_sz c)
      else Some (i, bulks))"

definition BulkArray :: "bytes \<Rightarrow> nat \<Rightarrow> nat \<Rightarrow> bulk_array option" where
  "BulkArray m off n =
     (let sized = (\<lambda>s. \<lparr>array_data = off, parsed_size_field = s, items = []\<rparr>) in
      if n < 4 then Some (sized 0)
      else do {
        c0 \<leftarrow> rd m off;
        if c0 \<noteq> CHR ''*'' then Some (sized (word_of_int SIZE_PARSE_ERROR))
        else do {
          (i, bulks) \<leftarrow> count_scan (drop (off + 1) m) 1 n 0;
          if i + 2 > n then Some (sized 0)
          else if i = 1 then Some (sized (word_of_int SIZE_PARSE_ERROR))
          else do {
            c1 \<leftarrow> rd m (off + i);
            c2 \<leftarrow> (if c1 = CR then rd m (off + i + 1) else Some NUL);
            if c1 \<noteq> CR \<or> c2 \<noteq> LF then Some (sized (word_of_int SIZE_PARSE_ERROR))
            else do {
              (ret, its) \<leftarrow> ParseBulkItems m (off + i + 2) (n - (i + 2)) bulks;
              Some \<lparr>array_data = off,
                    parsed_size_field =
                      (if ret < 0 then word_of_int SIZE_PARSE_ERROR
                       else of_nat (i + 2) + word_of_int ret),
                    items = its\<rparr>
            }
          }
        }
      })"

text \<open>\<^verbatim>\<open>parsed_size_\<close> is a \<^verbatim>\<open>size_t\<close>, the accessor returns it as an \<^verbatim>\<open>int\<close>.\<close>

definition parsed_size :: "bulk_array \<Rightarrow> int" where
  "parsed_size ba = int32 (uint (parsed_size_field ba))"

definition total_bulks :: "bytes \<Rightarrow> bulk_array \<Rightarrow> size_t option" where
  "total_bulks m ba = do {
     r \<leftarrow> stoi_ptr m (array_data ba + 1);
     Some (case r of None \<Rightarrow> 0 | Some v \<Rightarrow> word_of_int v)
   }"

definition present_bulks :: "bulk_array \<Rightarrow> size_t" where
  "present_bulks ba = of_nat (length (items ba))"

definition absent_bulks :: "bytes \<Rightarrow> bulk_array \<Rightarrow> size_t option" where
  "absent_bulks m ba = do { t \<leftarrow> total_bulks m ba; Some (t - present_bulks ba) }"

definition array_back :: "bulk_array \<Rightarrow> bulk option" where
  "array_back ba = (if items ba = [] then None else Some (last (items ba)))"

definition array_at :: "bulk_array \<Rightarrow> nat \<Rightarrow> bulk option" where
  "array_at ba i = (if i < length (items ba) then Some (items ba ! i) else None)"

definition array_completed :: "bytes \<Rightarrow> bulk_array \<Rightarrow> bool option" where
  "array_completed m ba = do {
     t \<leftarrow> total_bulks m ba;
     if present_bulks ba \<noteq> t then Some False
     else if items ba = [] then Some True
     else do {
       a \<leftarrow> absent_size m (last (items ba));
       Some (\<not> a > 0)
     }
   }"

fun sum_sizes :: "bytes \<Rightarrow> bulk list \<Rightarrow> size_t \<Rightarrow> size_t option" where
  "sum_sizes m [] tot = Some tot"
| "sum_sizes m (b # bs) tot = do { t \<leftarrow> total_size m b; sum_sizes m bs (tot + t) }"

definition array_total_size :: "bytes \<Rightarrow> bulk_array \<Rightarrow> size_t option" where
  "array_total_size m ba = do {
     t \<leftarrow> total_bulks m ba;
     if present_bulks ba < t then Some 0
     else if t = 0 then Some 4
     else do {
       front \<leftarrow> array_at ba 0;
       sum_sizes m (items ba) (of_nat (raw_data front - array_data ba))
     }
   }"

section \<open>The wire format\<close>

text \<open>What a client or a server sends for a string and for an array of strings.\<close>

definition bulk_wire :: "bytes \<Rightarrow> bytes" where
  "bulk_wire s = CHR ''$'' # nat_dec (length s) @ CRLF @ s @ CRLF"

definition array_wire :: "bytes list \<Rightarrow> bytes" where
  "array_wire ss = CHR ''*'' # nat_dec (length ss) @ CRLF @ concat (map bulk_wire ss)"

definition head_len :: "bytes \<Rightarrow> nat" where
  "head_len s = length (nat_dec (length s)) + 3"

definition wire_len :: "bytes \<Rightarrow> nat" where
  "wire_len s = head_len s + length s + 2"

lemma length_bulk_wire: "length (bulk_wire s) = wire_len s"
  by (simp add: bulk_wire_def wire_len_def head_len_def)

lemma head_len_ge: "4 \<le> head_len s"
  using length_nat_dec_pos [of "length s"] by (simp add: head_len_def Suc_le_eq del: length_nat_dec_pos)

lemma head_len_le_wire_len: "head_len s \<le> wire_len s"
  by (simp add: wire_len_def)

section \<open>The scanning loops on digits\<close>

lemma bulk_scan_append:
  assumes "CR \<notin> set ds" "i + length ds \<le> n"
  shows "bulk_scan (ds @ cs) i n tot
           = bulk_scan cs (i + length ds) n (foldl (\<lambda>a c. a * 10 + digit_sz c) tot ds)"
  using assms by (induction ds arbitrary: i tot) auto

lemma size_scan_append:
  assumes "CR \<notin> set ds"
  shows "size_scan (ds @ cs) i tot
           = size_scan cs (i + length ds) (foldl (\<lambda>a c. a * 10 + digit_sz c) tot ds)"
  using assms by (induction ds arbitrary: i tot) auto

lemma count_scan_append:
  assumes "\<forall>d \<in> set ds. isdigit d" "i + length ds \<le> n"
  shows "count_scan (ds @ cs) i n tot
           = count_scan cs (i + length ds) n (foldl (\<lambda>a c. a * 10 + digit_sz c) tot ds)"
  using assms by (induction ds arbitrary: i tot) auto

lemma lf_scan_append: "LF \<notin> set ds \<Longrightarrow> lf_scan (ds @ LF # cs) p = Some (Suc (p + length ds))"
  by (induction ds arbitrary: p) auto

lemma digits_word: "foldl (\<lambda>a c. a * 10 + digit_sz c) 0 (nat_dec n) = of_nat n"
proof (induction n rule: nat_dec.induct)
  case (1 n)
  show ?case
  proof (cases "n < 10")
    case True
    then show ?thesis by (simp add: nat_dec.simps [of n] digit_sz_digit_char)
  next
    case False
    with 1 have "foldl (\<lambda>a c. a * 10 + digit_sz c) 0 (nat_dec n)
        = of_nat (n div 10) * 10 + of_nat (n mod 10)"
      by (simp add: nat_dec.simps [of n] digit_sz_digit_char)
    also have "\<dots> = of_nat (n div 10 * 10 + n mod 10)"
      by (simp only: of_nat_add of_nat_mult of_nat_numeral)
    finally show ?thesis by (simp only: div_mult_mod_eq)
  qed
qed

section \<open>One bulk, completely or partly received\<close>

text \<open>
  \<open>on_wire m p a bs\<close>: the \<open>a\<close> bytes received at \<open>p\<close> are the beginning of \<open>bs\<close>, and the buffer has at
  least one more readable byte, with any contents.
\<close>

definition on_wire :: "bytes \<Rightarrow> nat \<Rightarrow> nat \<Rightarrow> bytes \<Rightarrow> bool" where
  "on_wire m p a bs \<longleftrightarrow> a \<le> length bs \<and> p + a < length m \<and> take a (drop p m) = take a bs"

lemma on_wire_rd: "on_wire m p a bs \<Longrightarrow> i < a \<Longrightarrow> rd m (p + i) = Some (bs ! i)"
proof -
  assume w: "on_wire m p a bs" and i: "i < a"
  have "p + a < length m"
    using w by (simp add: on_wire_def)
  with i have "m ! (p + i) = take a (drop p m) ! i"
    by simp
  also have "\<dots> = take a bs ! i"
    using w by (simp only: on_wire_def)
  finally show ?thesis
    using w i by (simp add: on_wire_def rd_def)
qed

lemma on_wire_split:
  assumes "on_wire m p a (xs @ ys)" "length xs \<le> a"
  shows "drop p m = xs @ drop (p + length xs) m" "on_wire m (p + length xs) (a - length xs) ys"
proof -
  from assms have t: "take (length xs) (take a (drop p m)) = take (length xs) (take a (xs @ ys))"
    by (simp add: on_wire_def)
  with assms(2) have "take (length xs) (drop p m) = xs" by (simp add: min_def)
  then show "drop p m = xs @ drop (p + length xs) m"
    by (metis append_take_drop_id drop_drop add.commute)
  then have "take a (xs @ drop (p + length xs) m) = take a (xs @ ys)"
    using assms(1) by (simp add: on_wire_def)
  then show "on_wire m (p + length xs) (a - length xs) ys"
    using assms by (auto simp: on_wire_def)
qed

lemma bulk_wire_head:
  "bulk_wire s = (CHR ''$'' # nat_dec (length s) @ CRLF) @ s @ CRLF"
  "length (CHR ''$'' # nat_dec (length s) @ CRLF) = head_len s"
  by (simp_all add: bulk_wire_def head_len_def)

lemma bulk_head_mem:
  assumes "on_wire m p a (bulk_wire s @ tl0)" "head_len s \<le> a"
  shows "drop p m = CHR ''$'' # nat_dec (length s) @ CR # LF # drop (p + head_len s) m"
  using on_wire_split(1) [of m p a "CHR ''$'' # nat_dec (length s) @ CRLF" "s @ CRLF @ tl0"] assms
  by (simp add: bulk_wire_head(1) bulk_wire_head(2) [simplified])

lemma nat_dec_hd: "nat_dec n ! 0 \<noteq> CHR ''-''"
proof -
  have "isdigit (nat_dec n ! 0)" by (rule set_nat_dec [of _ n]) (rule nth_mem, simp)
  then show ?thesis by auto
qed

lemma rd_Suc_drop: "drop p m = c # cs \<Longrightarrow> drop (Suc p) m = cs \<and> rd m p = Some c"
  by (metis drop_Suc drop_tl list.sel(3) rd_0 rd_drop add.right_neutral)

text \<open>The methods on a bulk whose header has arrived.\<close>

lemma bulk_methods:
  assumes mem: "drop p m = CHR ''$'' # nat_dec (length s) @ CR # LF # r"
    and p: "raw_data b = p" and len: "length s < 2 ^ 31"
  shows "total_size m b = Some (of_nat (wire_len s))"
    and "payload_data m b = Some (p + head_len s)"
    and "NUL \<in> set r \<Longrightarrow> payload_size m b = Some (of_nat (length s))"
proof -
  let ?ds = "nat_dec (length s)"
  have d1: "drop (Suc p) m = ?ds @ CR # LF # r" and d0: "rd m p = Some (CHR ''$'')"
    using rd_Suc_drop [OF mem] by auto
  have avoid: "CR \<notin> set ?ds" "LF \<notin> set ?ds" "NUL \<notin> set ?ds"
    by (simp_all add: nat_dec_avoids)
  obtain d ds where ds: "?ds = d # ds" by (cases ?ds) auto
  then have d: "d \<noteq> CHR ''-''" using nat_dec_hd [of "length s"] by simp
  have rd1: "rd m (Suc p) = Some d" and d2: "drop (Suc (Suc p)) m = ds @ CR # LF # r"
    using rd_Suc_drop [of "Suc p" m] d1 ds by auto
  have "size_scan (drop (Suc p) m) 1 0 = Some (1 + length ?ds, of_nat (length s))"
    using avoid by (simp add: d1 size_scan_append digits_word)
  then show "total_size m b = Some (of_nat (wire_len s))"
    using rd1 d by (simp add: total_size_def p wire_len_def head_len_def)
  have "lf_scan ((ds @ [CR]) @ LF # r) (p + 2) = Some (Suc (p + 2 + length (ds @ [CR])))"
    using avoid ds by (intro lf_scan_append) auto
  then show "payload_data m b = Some (p + head_len s)"
    using d2 ds by (simp add: payload_data_def p head_len_def)
  assume "NUL \<in> set r"
  then have "c_str (drop (Suc p) m) = Some (?ds @ CR # LF # takeWhile (\<lambda>c. c \<noteq> NUL) r)"
    using c_str_prefix [of "?ds @ CRLF" r] avoid by (simp add: d1)
  then have "stoi_ptr m (p + 1) = Some (Some (int (length s)))"
    using len by (simp add: stoi_ptr_def stoi_nat_dec)
  then show "payload_size m b = Some (of_nat (length s))"
    by (auto simp: payload_size_def p)
qed

lemma Bulk_on_wire:
  assumes w: "on_wire m p a (bulk_wire s @ tl0)" and len: "wire_len s < 2 ^ 31"
  shows "Bulk m p a =
    Some \<lparr>raw_data = p, present_size = (if a < head_len s then 0 else int (min a (wire_len s)))\<rparr>"
proof (cases "a < 4")
  case True
  with head_len_ge [of s] show ?thesis by (simp add: Bulk_def)
next
  case False
  let ?ds = "nat_dec (length s)"
  have avoid: "CR \<notin> set ?ds" by (simp add: nat_dec_avoids)
  have ds: "0 < length ?ds" by simp
  have c0: "rd m p = Some (CHR ''$'')"
    using on_wire_rd [OF w, of 0] False by (simp add: bulk_wire_def)
  have "rd m (p + 1) = Some (?ds ! 0)"
    using on_wire_rd [OF w, of 1] False ds by (simp add: bulk_wire_def nth_append)
  moreover have "?ds ! 0 \<noteq> CHR ''-''" by (rule nat_dec_hd)
  ultimately have start: "Bulk m p a = do {
      (c, i, tot) \<leftarrow> bulk_scan (drop (Suc p) m) 1 a 0;
      if c = CR \<and> i + 1 < a then do {
        c' \<leftarrow> rd m (p + i + 1);
        Some \<lparr>raw_data = p, present_size =
          (if c' = LF then int32 (int (min a (unat (of_nat i + tot + 4)))) else 0)\<rparr>
      }
      else Some \<lparr>raw_data = p, present_size = 0\<rparr>
    }"
    using c0 False by (simp add: Bulk_def Let_def)
  show ?thesis
  proof (cases "a < head_len s")
    case True
    then have a: "a \<le> 2 + length ?ds" by (simp add: head_len_def)
    let ?k = "min (a - 1) (length ?ds)"
    have "on_wire m p a ((CHR ''$'' # take ?k ?ds) @ drop ?k ?ds @ CRLF @ s @ CRLF @ tl0)"
      using w by (simp add: bulk_wire_def)
    from on_wire_split(1) [OF this] have "drop p m = (CHR ''$'' # take ?k ?ds) @ drop (Suc (p + ?k)) m"
      using False by simp
    then have d: "drop (Suc p) m = take ?k ?ds @ drop (Suc (p + ?k)) m"
      using rd_Suc_drop [of p m] by simp
    have "Suc (p + ?k) < length m"
      using w False by (auto simp: on_wire_def min_def)
    then obtain c cs where c: "drop (Suc (p + ?k)) m = c # cs"
      by (metis Cons_nth_drop_Suc)
    have cr: "CR \<notin> set (take ?k ?ds)"
      using avoid by (meson in_set_takeD)
    have scan: "bulk_scan (drop (Suc p) m) 1 a 0
        = bulk_scan (c # cs) (1 + ?k) a (foldl (\<lambda>a c. a * 10 + digit_sz c) 0 (take ?k ?ds))"
      unfolding d c by (subst bulk_scan_append [OF cr]) (use False in \<open>auto simp: min_def\<close>)
    have "c = CR" if "1 + ?k < a"
    proof -
      from that have k: "?k = length ?ds" by auto
      have "rd m (p + (1 + ?k)) = Some (bulk_wire s ! (1 + length ?ds))"
        using on_wire_rd [OF w that] k by (simp add: bulk_wire_def nth_append)
      then show ?thesis
        using rd_Suc_drop [OF c] by (simp add: bulk_wire_def nth_append)
    qed
    then have "\<exists>i tot. bulk_scan (drop (Suc p) m) 1 a 0 = Some (c, i, tot) \<and> \<not> i + 1 < a"
      unfolding scan using a False by auto
    with True show ?thesis by (auto simp: start)
  next
    case hd: False
    then have a: "length ?ds + 3 \<le> a" by (simp add: head_len_def)
    have mem: "drop p m = CHR ''$'' # ?ds @ CR # LF # drop (p + head_len s) m"
      using bulk_head_mem [OF w] hd by simp
    have d: "drop (Suc p) m = ?ds @ CR # LF # drop (p + head_len s) m"
      using rd_Suc_drop [OF mem] by simp
    have scan: "bulk_scan (drop (Suc p) m) 1 a 0 = Some (CR, 1 + length ?ds, of_nat (length s))"
      unfolding d using avoid a by (simp add: bulk_scan_append digits_word)
    have "rd m (p + (2 + length ?ds)) = Some ((bulk_wire s @ tl0) ! (2 + length ?ds))"
      using a by (intro on_wire_rd [OF w]) simp
    then have lf: "rd m (Suc (Suc (p + length ?ds))) = Some LF"
      by (simp add: bulk_wire_def nth_append)
    have "(of_nat (1 + length ?ds) + of_nat (length s) + 4 :: size_t) = of_nat (wire_len s)"
      by (simp add: wire_len_def head_len_def)
    then have sz: "unat (of_nat (1 + length ?ds) + of_nat (length s) + 4 :: size_t) = wire_len s"
      using len by (simp add: unat_of_nat_size_t del: of_nat_Suc of_nat_add)
    have "int32 (int (min a (wire_len s))) = int (min a (wire_len s))"
      using len by (intro int32_id) auto
    then show ?thesis
      unfolding start scan using hd a lf sz by simp
  qed
qed

section \<open>An array, completely or partly received\<close>

text \<open>
  The bulks a parser should report when \<open>a\<close> bytes of the encodings of \<open>ss\<close> have arrived at \<open>p\<close>:
  those whose header has arrived, each with the number of its bytes that are there.
\<close>

fun expected_bulks :: "nat \<Rightarrow> nat \<Rightarrow> bytes list \<Rightarrow> bulk list" where
  "expected_bulks p a [] = []"
| "expected_bulks p a (s # ss) =
     (if a < head_len s then []
      else \<lparr>raw_data = p, present_size = int (min a (wire_len s))\<rparr>
             # expected_bulks (p + wire_len s) (a - wire_len s) ss)"

definition claimed :: "nat \<Rightarrow> nat \<Rightarrow> bytes list \<Rightarrow> nat" where
  "claimed p a ss = sum_list (map wire_len (take (length (expected_bulks p a ss)) ss))"

lemma expected_bulks_0 [simp]: "expected_bulks p 0 ss = []"
  by (cases ss) (simp_all add: head_len_def)

lemma length_expected_le: "length (expected_bulks p a ss) \<le> length ss"
  by (induction p a ss rule: expected_bulks.induct) auto

lemma claimed_le: "claimed p a ss \<le> sum_list (map wire_len ss)"
proof -
  let ?k = "length (expected_bulks p a ss)"
  have "sum_list (map wire_len ss)
      = sum_list (map wire_len (take ?k ss @ drop ?k ss))" by simp
  also have "\<dots> = claimed p a ss + sum_list (map wire_len (drop ?k ss))"
    by (simp add: claimed_def del: append_take_drop_id)
  finally show ?thesis by simp
qed

lemma claimed_simps [simp]:
  "claimed p a [] = 0"
  "claimed p a (s # ss) =
     (if a < head_len s then 0 else wire_len s + claimed (p + wire_len s) (a - wire_len s) ss)"
  by (simp_all add: claimed_def)

lemma claimed_0 [simp]: "claimed p 0 ss = 0"
  by (simp add: claimed_def)

lemma parse_bulk_loop_beyond: "e \<le> p \<Longrightarrow> parse_bulk_loop m e k p parsed acc = Some (parsed, acc)"
  by (cases k) simp_all

lemma parse_bulk_loop_on_wire:
  assumes "p \<le> e" "on_wire m p (e - p) (concat (map bulk_wire ss) @ tl0)"
    and "0 \<le> parsed" "parsed + int (sum_list (map wire_len ss)) < 2 ^ 31"
  shows "parse_bulk_loop m e (length ss) p parsed acc
    = Some (parsed + int (claimed p (e - p) ss), acc @ expected_bulks p (e - p) ss)"
  using assms
proof (induction ss arbitrary: p parsed acc)
  case Nil
  then show ?case by simp
next
  case (Cons s ss)
  let ?a = "e - p" and ?n = "wire_len s"
  have len: "?n < 2 ^ 31" "parsed + int ?n < 2 ^ 31"
    using Cons.prems(3,4) by auto
  have w: "on_wire m p ?a (bulk_wire s @ concat (map bulk_wire ss) @ tl0)"
    using Cons.prems(2) by simp
  note B = Bulk_on_wire [OF w len(1)]
  show ?case
  proof (cases "p < e")
    case False
    with Cons.prems(1) show ?thesis using head_len_ge [of s] by simp
  next
    case True
    show ?thesis
    proof (cases "?a < head_len s")
      case True
      with B \<open>p < e\<close> show ?thesis by simp
    next
      case False
      define q where "q = min ?a ?n"
      let ?b = "\<lparr>raw_data = p, present_size = int q\<rparr>"
      have pos: "0 < q"
        using True by (simp add: q_def wire_len_def)
      have b: "Bulk m p ?a = Some ?b"
        using B False by (simp add: q_def)
      have "total_size m ?b = Some (of_nat ?n)"
        using bulk_methods(1) [OF bulk_head_mem [OF w], of ?b] False len
        by (simp add: wire_len_def)
      moreover have "unat (of_nat ?n :: size_t) = ?n" "uint (of_nat ?n :: size_t) = int ?n"
        using len by (simp_all add: unat_of_nat_size_t uint_nat)
      moreover have "int32 (parsed + int ?n) = parsed + int ?n"
        using len Cons.prems(3) by (intro int32_id) auto
      ultimately have step: "parse_bulk_loop m e (length (s # ss)) p parsed acc
          = parse_bulk_loop m e (length ss) (p + ?n) (parsed + int ?n) (acc @ [?b])"
        using True pos b by simp
      show ?thesis
      proof (cases "?a \<le> ?n")
        case True
        then show ?thesis
          using False unfolding step by (simp add: parse_bulk_loop_beyond q_def)
      next
        case more: False
        then have "on_wire m (p + ?n) (?a - ?n) (concat (map bulk_wire ss) @ tl0)"
          using on_wire_split(2) [OF w] by (simp add: length_bulk_wire)
        then have "parse_bulk_loop m e (length ss) (p + ?n) (parsed + int ?n) (acc @ [?b])
            = Some (parsed + int ?n + int (claimed (p + ?n) (e - (p + ?n)) ss),
                    (acc @ [?b]) @ expected_bulks (p + ?n) (e - (p + ?n)) ss)"
          using more Cons.prems by (intro Cons.IH) auto
        then show ?thesis
          using False unfolding step by (simp add: q_def)
      qed
    qed
  qed
qed

definition array_head_len :: "bytes list \<Rightarrow> nat" where
  "array_head_len ss = length (nat_dec (length ss)) + 3"

lemma array_head_len_ge: "4 \<le> array_head_len ss"
  using length_nat_dec_pos [of "length ss"]
  by (simp add: array_head_len_def Suc_le_eq del: length_nat_dec_pos)

lemma length_array_wire: "length (array_wire ss) = array_head_len ss + sum_list (map wire_len ss)"
  by (simp add: array_wire_def array_head_len_def length_concat comp_def length_bulk_wire)

lemma BulkArray_on_wire:
  assumes w: "on_wire m off n (array_wire ss @ tl0)" and hd: "array_head_len ss \<le> n"
    and len: "length (array_wire ss) < 2 ^ 31"
  shows "BulkArray m off n = Some
    \<lparr>array_data = off,
     parsed_size_field =
       of_nat (array_head_len ss + claimed (off + array_head_len ss) (n - array_head_len ss) ss),
     items = expected_bulks (off + array_head_len ss) (n - array_head_len ss) ss\<rparr>"
proof -
  let ?ds = "nat_dec (length ss)" and ?h = "array_head_len ss"
  let ?w = "concat (map bulk_wire ss) @ tl0"
  have h: "?h = length ?ds + 3" "4 \<le> ?h"
    by (simp add: array_head_len_def, rule array_head_len_ge)
  have "on_wire m off n ((CHR ''*'' # ?ds @ CRLF) @ ?w)"
    using w by (simp add: array_wire_def)
  from on_wire_split [OF this] hd h
  have mem: "drop off m = CHR ''*'' # ?ds @ CR # LF # drop (off + ?h) m"
    and rest: "on_wire m (off + ?h) (n - ?h) ?w"
    by (simp_all add: numeral_eq_Suc)
  have d: "drop (Suc off) m = ?ds @ CR # LF # drop (off + ?h) m" and c0: "rd m off = Some (CHR ''*'')"
    using rd_Suc_drop [OF mem] by auto
  have scan: "count_scan (drop (Suc off) m) 1 n 0 = Some (1 + length ?ds, of_nat (length ss))"
    unfolding d using hd h by (subst count_scan_append) (auto simp: digits_word dest: set_nat_dec)
  have "drop (Suc off + length ?ds) m = CR # LF # drop (off + ?h) m"
    using d by (metis append_eq_conv_conj drop_drop add.commute)
  then have crlf: "rd m (Suc (off + length ?ds)) = Some CR" "rd m (Suc (Suc (off + length ?ds))) = Some LF"
    using rd_Suc_drop [of "Suc off + length ?ds" m] rd_Suc_drop [of "Suc (Suc off + length ?ds)" m]
    by auto
  have sum: "?h + sum_list (map wire_len ss) < 2 ^ 31"
    using len by (simp add: length_array_wire)
  have "length ss \<le> sum_list (map wire_len ss)"
    by (induction ss) (use head_len_ge in \<open>auto simp: wire_len_def\<close>)
  with sum have cnt: "unat (of_nat (length ss) :: size_t) = length ss"
    by (intro unat_of_nat_size_t) simp
  have "ParseBulkItems m (off + ?h) (n - ?h) (of_nat (length ss))
      = Some (int (claimed (off + ?h) (n - ?h) ss), expected_bulks (off + ?h) (n - ?h) ss)"
    using parse_bulk_loop_on_wire [of "off + ?h" "off + ?h + (n - ?h)" m ss tl0 0 "[]"] rest sum cnt
    by (simp add: ParseBulkItems_def)
  then show ?thesis
    using c0 scan crlf hd h(2) unfolding BulkArray_def Let_def
    by (simp add: h(1) numeral_eq_Suc)
qed

text \<open>A header that has not arrived completely: nothing is claimed.\<close>

lemma BulkArray_partial_head:
  assumes w: "on_wire m off n (array_wire ss @ tl0)" and hd: "n < array_head_len ss"
  shows "BulkArray m off n = Some \<lparr>array_data = off, parsed_size_field = 0, items = []\<rparr>"
proof (cases "n < 4")
  case True
  then show ?thesis by (simp add: BulkArray_def)
next
  case False
  let ?ds = "nat_dec (length ss)" and ?w = "concat (map bulk_wire ss) @ tl0"
  let ?k = "min (n - 1) (length ?ds)"
  have c0: "rd m off = Some (CHR ''*'')"
    using on_wire_rd [OF w, of 0] False by (simp add: array_wire_def)
  have "on_wire m off n ((CHR ''*'' # take ?k ?ds) @ drop ?k ?ds @ CRLF @ ?w)"
    using w by (simp add: array_wire_def)
  from on_wire_split(1) [OF this] have "drop off m = (CHR ''*'' # take ?k ?ds) @ drop (Suc (off + ?k)) m"
    using False by simp
  then have d: "drop (Suc off) m = take ?k ?ds @ drop (Suc (off + ?k)) m"
    using rd_Suc_drop [of off m] by simp
  have "Suc (off + ?k) < length m"
    using w False by (auto simp: on_wire_def min_def)
  then obtain c cs where c: "drop (Suc (off + ?k)) m = c # cs"
    by (metis Cons_nth_drop_Suc)
  have "\<forall>d \<in> set (take ?k ?ds). isdigit d"
    by (meson in_set_takeD set_nat_dec)
  then have scan: "count_scan (drop (Suc off) m) 1 n 0
      = count_scan (c # cs) (1 + ?k) n (foldl (\<lambda>a c. a * 10 + digit_sz c) 0 (take ?k ?ds))"
    unfolding d c by (subst count_scan_append) (use False in \<open>auto simp: min_def\<close>)
  have "c = CR" if "1 + ?k < n"
  proof -
    from that have k: "?k = length ?ds" by auto
    have "rd m (off + (1 + ?k)) = Some ((array_wire ss @ tl0) ! (1 + length ?ds))"
      using on_wire_rd [OF w that] k by simp
    then show ?thesis
      using rd_Suc_drop [OF c] by (simp add: array_wire_def nth_append)
  qed
  then have "\<exists>i tot. count_scan (drop (Suc off) m) 1 n 0 = Some (i, tot) \<and> n < i + 2"
    unfolding scan using hd False by (auto simp: array_head_len_def)
  with c0 False show ?thesis by (auto simp: BulkArray_def)
qed

lemma total_bulks_on_wire:
  assumes w: "on_wire m off n (array_wire ss @ tl0)" and hd: "array_head_len ss \<le> n"
    and len: "length ss < 2 ^ 31" and nul: "NUL \<in> set (drop (off + n) m)"
    and ba: "array_data ba = off"
  shows "total_bulks m ba = Some (of_nat (length ss))"
proof -
  let ?ds = "nat_dec (length ss)" and ?h = "array_head_len ss"
  have "on_wire m off n ((CHR ''*'' # ?ds @ CRLF) @ concat (map bulk_wire ss) @ tl0)"
    using w by (simp add: array_wire_def)
  from on_wire_split(1) [OF this] hd
  have "drop off m = CHR ''*'' # ?ds @ CR # LF # drop (off + ?h) m"
    by (simp add: array_head_len_def numeral_eq_Suc)
  then have d: "drop (Suc off) m = ?ds @ CR # LF # drop (off + ?h) m"
    using rd_Suc_drop by blast
  have "drop (off + n) m = drop (n - ?h) (drop (off + ?h) m)"
    using hd by (simp add: add.commute)
  with nul have nul': "NUL \<in> set (drop (off + ?h) m)"
    by (metis in_set_dropD)
  have "NUL \<notin> set (?ds @ CRLF)"
    by (simp add: nat_dec_avoids)
  from c_str_prefix [OF this nul']
  have "c_str (drop (Suc off) m) = Some (?ds @ CR # LF # takeWhile (\<lambda>c. c \<noteq> NUL) (drop (off + ?h) m))"
    by (simp add: d)
  then have "stoi_ptr m (off + 1) = Some (Some (int (length ss)))"
    using len by (simp add: stoi_ptr_def stoi_nat_dec)
  then show ?thesis by (simp add: total_bulks_def ba)
qed

text \<open>What is expected when everything has arrived, and when it has not.\<close>

lemma expected_all:
  "sum_list (map wire_len ss) \<le> a \<Longrightarrow> length (expected_bulks p a ss) = length ss"
proof (induction p a ss rule: expected_bulks.induct)
  case (2 p a s ss)
  have "\<not> a < head_len s"
    using "2.prems" head_len_le_wire_len [of s] by simp
  with 2 show ?case by simp
qed simp

lemma expected_last:
  assumes "length (expected_bulks p a ss) = length ss" "ss \<noteq> []"
  shows "present_size (last (expected_bulks p a ss))
      = int (min (a - (sum_list (map wire_len (butlast ss)))) (wire_len (last ss)))
    \<and> raw_data (last (expected_bulks p a ss)) = p + sum_list (map wire_len (butlast ss))
    \<and> sum_list (map wire_len (butlast ss)) + head_len (last ss) \<le> a"
  using assms
proof (induction p a ss rule: expected_bulks.induct)
  case (2 p a s ss)
  show ?case
  proof (cases ss)
    case Nil
    with 2 show ?thesis by (auto split: if_splits)
  next
    case (Cons s' ss')
    have "0 < head_len s'" "0 < wire_len s'"
      by (simp_all add: head_len_def wire_len_def)
    with 2 Cons show ?thesis
      by (auto split: if_splits simp: algebra_simps)
  qed
qed simp

lemma bulk_payload_mem:
  assumes "on_wire m p a (bulk_wire s @ tl0)" "wire_len s \<le> a"
  shows "rd_block m (p + head_len s) (length s) = Some s"
proof -
  have "drop p m = bulk_wire s @ drop (p + wire_len s) m"
    using on_wire_split(1) [OF assms(1)] assms(2) by (simp add: length_bulk_wire)
  also have "\<dots> = (CHR ''$'' # nat_dec (length s) @ CRLF) @ s @ CRLF @ drop (p + wire_len s) m"
    by (simp add: bulk_wire_head(1))
  finally have "drop (head_len s) (drop p m) = s @ CRLF @ drop (p + wire_len s) m"
    by (simp add: head_len_def numeral_eq_Suc)
  then have d: "drop (p + head_len s) m = s @ CRLF @ drop (p + wire_len s) m"
    by (simp add: add.commute)
  then have "length (drop (p + head_len s) m) = length (s @ CRLF @ drop (p + wire_len s) m)"
    by (rule arg_cong)
  then have "p + head_len s + length s \<le> length m"
    by simp
  with d show ?thesis
    by (simp add: rd_block_def)
qed

text \<open>Every bulk that the parser reports has the right sizes and, once complete, the right payload.\<close>

lemma bulk_items_on_wire:
  assumes "on_wire m p a (concat (map bulk_wire ss) @ tl0)" "i < length (expected_bulks p a ss)"
    and "wire_len (ss ! i) < 2 ^ 31"
  defines "b \<equiv> expected_bulks p a ss ! i" and "s \<equiv> ss ! i"
  shows "total_size m b = Some (of_nat (wire_len s))"
    and "payload_data m b = Some (raw_data b + head_len s)"
    and "NUL \<in> set (drop (p + a) m) \<Longrightarrow> payload_size m b = Some (of_nat (length s))"
    and "present_size b = int (wire_len s) \<Longrightarrow> rd_block m (raw_data b + head_len s) (length s) = Some s"
    and "0 < present_size b \<and> present_size b \<le> int (wire_len s)"
proof -
  have "total_size m b = Some (of_nat (wire_len s))
    \<and> payload_data m b = Some (raw_data b + head_len s)
    \<and> (NUL \<in> set (drop (p + a) m) \<longrightarrow> payload_size m b = Some (of_nat (length s)))
    \<and> (present_size b = int (wire_len s) \<longrightarrow>
         rd_block m (raw_data b + head_len s) (length s) = Some s)
    \<and> 0 < present_size b \<and> present_size b \<le> int (wire_len s)"
    using assms(1-3) unfolding b_def s_def
  proof (induction ss arbitrary: p a i)
    case Nil
    then show ?case by simp
  next
    case (Cons s ss)
    have a: "\<not> a < head_len s"
      using Cons.prems(2) by (auto split: if_splits)
    have w: "on_wire m p a (bulk_wire s @ concat (map bulk_wire ss) @ tl0)"
      using Cons.prems(1) by simp
    show ?case
    proof (cases i)
      case 0
      let ?b = "\<lparr>raw_data = p, present_size = int (min a (wire_len s))\<rparr>"
      have mem: "drop p m = CHR ''$'' # nat_dec (length s) @ CR # LF # drop (p + head_len s) m"
        using bulk_head_mem [OF w] a by simp
      have len: "length s < 2 ^ 31"
        using Cons.prems(3) 0 by (simp add: wire_len_def)
      have "drop (p + a) m = drop (a - head_len s) (drop (p + head_len s) m)"
        using a by (simp add: add.commute)
      then have "NUL \<in> set (drop (p + a) m) \<Longrightarrow> NUL \<in> set (drop (p + head_len s) m)"
        by (metis in_set_dropD)
      moreover note bulk_methods [OF mem, of ?b] len bulk_payload_mem [OF w]
      moreover have "0 < a" "0 < wire_len s"
        using a by (auto simp: head_len_def wire_len_def)
      ultimately show ?thesis
        using 0 a by simp
    next
      case (Suc j)
      let ?n = "wire_len s"
      have j: "j < length (expected_bulks (p + ?n) (a - ?n) ss)"
        using Cons.prems(2) a Suc by simp
      have n: "?n \<le> a"
        using j by (cases "?n \<le> a") auto
      then have "on_wire m (p + ?n) (a - ?n) (concat (map bulk_wire ss) @ tl0)"
        using on_wire_split(2) [OF w] by (simp add: length_bulk_wire)
      with Cons.IH [of "p + ?n" "a - ?n" j] j Cons.prems(3) Suc a n show ?thesis
        by simp
    qed
  qed
  then show "total_size m b = Some (of_nat (wire_len s))"
    and "payload_data m b = Some (raw_data b + head_len s)"
    and "NUL \<in> set (drop (p + a) m) \<Longrightarrow> payload_size m b = Some (of_nat (length s))"
    and "present_size b = int (wire_len s) \<Longrightarrow> rd_block m (raw_data b + head_len s) (length s) = Some s"
    and "0 < present_size b \<and> present_size b \<le> int (wire_len s)"
    by blast+
qed

lemma sum_list_last:
  "xs \<noteq> [] \<Longrightarrow> sum_list (map f xs) = sum_list (map f (butlast xs)) + (f (last xs) :: nat)"
  by (induction xs) auto

lemma wire_len_le_sum: "i < length ss \<Longrightarrow> wire_len (ss ! i) \<le> sum_list (map wire_len ss)"
  by (metis elem_le_sum_list length_map nth_map)

lemma absent_size_word:
  assumes "total_size m b = Some (of_nat t)" "0 \<le> present_size b" "present_size b \<le> int t" "t < 2 ^ 31"
  shows "absent_size m b = Some (of_nat (t - nat (present_size b)))"
proof -
  have p: "word_of_int (present_size b) = (of_nat (nat (present_size b)) :: size_t)"
    using assms(2) by (metis int_nat_eq of_int_of_nat_eq)
  have le: "nat (present_size b) \<le> t"
    using assms(2,3) by simp
  have "(of_nat (nat (present_size b)) :: size_t) \<ge> of_nat t \<longleftrightarrow> t \<le> nat (present_size b)"
    using le assms(4) by (simp add: word_le_nat_alt unat_of_nat_size_t)
  then show ?thesis
    using assms(1) le by (auto simp: absent_size_def p of_nat_diff)
qed

lemma array_completed_on_wire:
  assumes w: "on_wire m off n (array_wire ss @ tl0)" and hd: "array_head_len ss \<le> n"
    and len: "length (array_wire ss) < 2 ^ 31" and nul: "NUL \<in> set (drop (off + n) m)"
    and ba: "array_data ba = off"
      "items ba = expected_bulks (off + array_head_len ss) (n - array_head_len ss) ss"
  shows "array_completed m ba = Some (length (array_wire ss) \<le> n)"
proof -
  let ?h = "array_head_len ss"
  let ?p = "off + ?h" and ?a = "n - ?h"
  let ?its = "expected_bulks ?p ?a ss"
  have sum: "?h + sum_list (map wire_len ss) < 2 ^ 31"
    using len by (simp add: length_array_wire)
  have "length ss \<le> sum_list (map wire_len ss)"
    by (induction ss) (auto simp: wire_len_def)
  with sum have small: "length ss < 2 ^ 31" by simp
  have tb: "total_bulks m ba = Some (of_nat (length ss))"
    by (rule total_bulks_on_wire [OF w hd small nul ba(1)])
  have ne: "(of_nat (length ?its) :: size_t) = of_nat (length ss) \<longleftrightarrow> length ?its = length ss"
    using small length_expected_le [of ?p ?a ss] by (intro of_nat_size_t_inj) auto
  show ?thesis
  proof (cases "length ?its = length ss")
    case False
    then have "\<not> sum_list (map wire_len ss) \<le> ?a"
      using expected_all by blast
    with False show ?thesis
      using hd tb ne by (simp add: array_completed_def present_bulks_def ba(2) length_array_wire)
  next
    case full: True
    show ?thesis
    proof (cases "ss = []")
      case True
      with full hd tb show ?thesis
        by (simp add: array_completed_def present_bulks_def ba(2) length_array_wire)
    next
      case False
      let ?i = "length ss - 1" and ?b = "last ?its" and ?s = "last ss"
      have ls: "?its ! ?i = ?b" "ss ! ?i = ?s" "?i < length ?its"
        using full False by (metis last_conv_nth length_0_conv, metis last_conv_nth, simp)
      have "on_wire m off n ((CHR ''*'' # nat_dec (length ss) @ CRLF) @ concat (map bulk_wire ss) @ tl0)"
        using w by (simp add: array_wire_def)
      from on_wire_split(2) [OF this] hd
      have rest: "on_wire m ?p ?a (concat (map bulk_wire ss) @ tl0)"
        by (simp add: array_head_len_def numeral_eq_Suc)
      have wl: "wire_len ?s < 2 ^ 31"
        using wire_len_le_sum [of ?i ss] ls False sum by simp
      have t: "total_size m ?b = Some (of_nat (wire_len ?s))"
        and pr: "0 < present_size ?b" "present_size ?b \<le> int (wire_len ?s)"
        using bulk_items_on_wire(1,5) [OF rest ls(3)] wl unfolding ls by auto
      have ab: "absent_size m ?b = Some (of_nat (wire_len ?s - nat (present_size ?b)))"
        using absent_size_word [OF t] pr wl by simp
      have "(of_nat (wire_len ?s - nat (present_size ?b)) :: size_t) = 0
          \<longleftrightarrow> wire_len ?s - nat (present_size ?b) = 0"
        using wl of_nat_size_t_inj [of "wire_len ?s - nat (present_size ?b)" 0] by simp
      also have "\<dots> \<longleftrightarrow> sum_list (map wire_len ss) \<le> ?a"
      proof -
        have "sum_list (map wire_len ss) = sum_list (map wire_len (butlast ss)) + wire_len ?s"
          using False by (rule sum_list_last)
        with expected_last [OF full False] show ?thesis by auto
      qed
      finally have "(of_nat (wire_len ?s - nat (present_size ?b)) :: size_t) = 0
          \<longleftrightarrow> length (array_wire ss) \<le> n"
        using hd by (auto simp: length_array_wire)
      moreover have "?its \<noteq> []" using full False by auto
      ultimately show ?thesis
        using tb ab full by (simp add: array_completed_def present_bulks_def ba(2) word_gt_0)
    qed
  qed
qed

lemma claimed_full: "sum_list (map wire_len ss) \<le> a \<Longrightarrow> claimed p a ss = sum_list (map wire_len ss)"
  by (simp add: claimed_def expected_all)

lemma sum_sizes_list:
  "list_all2 (\<lambda>b s. total_size m b = Some (of_nat (wire_len s))) bs ss \<Longrightarrow>
     sum_sizes m bs tot = Some (tot + of_nat (sum_list (map wire_len ss)))"
  by (induction bs ss arbitrary: tot rule: list_all2_induct) (auto simp: add.assoc)

lemma bulk_scan_None: "i \<le> n \<Longrightarrow> bulk_scan cs i n tot = None \<longleftrightarrow> CR \<notin> set cs \<and> i + length cs \<le> n"
  by (induction cs arbitrary: i tot) auto

lemma bulk_scan_size_scan:
  "bulk_scan cs i n tot = Some (CR, j, t) \<Longrightarrow> size_scan cs i tot = Some (j, t)"
  by (induction cs arbitrary: i tot) (auto split: if_splits)

section \<open>Arrays that have arrived\<close>

text \<open>A bulk that has arrived completely, and consecutive bulks that have.\<close>

definition received :: "bytes \<Rightarrow> bulk \<Rightarrow> bytes \<Rightarrow> bool" where
  "received m b s \<longleftrightarrow>
     wire_len s < 2 ^ 31 \<and> present_size b = int (wire_len s)
     \<and> total_size m b = Some (of_nat (wire_len s))
     \<and> payload_data m b = Some (raw_data b + head_len s)
     \<and> payload_size m b = Some (of_nat (length s))
     \<and> drop (raw_data b) m = bulk_wire s @ drop (raw_data b + wire_len s) m"

fun laid_out :: "bytes \<Rightarrow> nat \<Rightarrow> bulk list \<Rightarrow> bytes list \<Rightarrow> bool" where
  "laid_out m p [] ss \<longleftrightarrow> ss = []"
| "laid_out m p (b # bs) [] \<longleftrightarrow> False"
| "laid_out m p (b # bs) (s # ss) \<longleftrightarrow> raw_data b = p \<and> received m b s \<and> laid_out m (p + wire_len s) bs ss"

lemma laid_out_length: "laid_out m p bs ss \<Longrightarrow> length bs = length ss"
  by (induction m p bs ss rule: laid_out.induct) auto

lemma laid_out_received: "laid_out m p bs ss \<Longrightarrow> list_all2 (received m) bs ss"
  by (induction m p bs ss rule: laid_out.induct) auto

lemma laid_out_pos:
  "laid_out m p bs ss \<Longrightarrow> i < length bs \<Longrightarrow> raw_data (bs ! i) = p + sum_list (map wire_len (take i ss))"
proof (induction m p bs ss arbitrary: i rule: laid_out.induct)
  case (3 m p b bs s ss)
  then show ?case by (cases i) auto
qed auto

lemma received_payload:
  assumes "received m b s"
  shows "payload m b = Some s"
proof -
  have len: "length s < 2 ^ 31" using assms by (simp add: received_def wire_len_def)
  have d: "drop (raw_data b) m = (CHR ''$'' # nat_dec (length s) @ CRLF) @ s @ CRLF @ drop (raw_data b + wire_len s) m"
    using assms by (simp add: received_def bulk_wire_head(1))
  have "drop (head_len s) (drop (raw_data b) m) = s @ CRLF @ drop (raw_data b + wire_len s) m"
    unfolding d by (simp add: head_len_def numeral_eq_Suc)
  then have "drop (raw_data b + head_len s) m = s @ CRLF @ drop (raw_data b + wire_len s) m"
    by (simp add: add.commute)
  moreover from this have "length m - (raw_data b + head_len s) \<ge> length s + 2"
    by (metis length_append length_drop le_add1 add.assoc length_Cons list.size(3) numeral_2_eq_2)
  ultimately have "rd_block m (raw_data b + head_len s) (length s) = Some s"
    by (simp add: rd_block_def)
  with assms len show ?thesis
    by (simp add: received_def payload_def unat_of_nat_size_t)
qed

lemma laid_out_expected:
  assumes "on_wire m p a (concat (map bulk_wire ss) @ tl0)" and "sum_list (map wire_len ss) \<le> a"
    and "sum_list (map wire_len ss) < 2 ^ 31" and "NUL \<in> set (drop (p + a) m)"
  shows "laid_out m p (expected_bulks p a ss) ss"
  using assms
proof (induction ss arbitrary: p a)
  case (Cons s ss)
  let ?b = "\<lparr>raw_data = p, present_size = int (wire_len s)\<rparr>"
  have w: "on_wire m p a (bulk_wire s @ concat (map bulk_wire ss) @ tl0)" using Cons.prems(1) by simp
  have le: "head_len s \<le> a" "wire_len s \<le> a" "length s < 2 ^ 31"
    using Cons.prems(2,3) head_len_le_wire_len [of s] by (auto simp: wire_len_def)
  have "drop (p + a) m = drop (a - head_len s) (drop (p + head_len s) m)"
    using le(1) by (simp add: add.commute)
  with Cons.prems(4) have nul: "NUL \<in> set (drop (p + head_len s) m)"
    by (metis in_set_dropD)
  have "received m ?b s"
    using bulk_methods [OF bulk_head_mem [OF w le(1)], of ?b] nul le on_wire_split(1) [OF w] Cons.prems(3)
    by (simp add: received_def length_bulk_wire)
  moreover have "laid_out m (p + wire_len s) (expected_bulks (p + wire_len s) (a - wire_len s) ss) ss"
    using on_wire_split(2) [OF w] le(2) Cons.prems by (intro Cons.IH) (auto simp: length_bulk_wire)
  ultimately show ?case using le by simp
qed simp

lemma length_le_wire: "length ss \<le> sum_list (map wire_len ss)"
  by (induction ss) (auto simp: wire_len_def)

lemma array_total_size_laid_out:
  assumes "laid_out m (off + array_head_len ss) (items ba) ss" "array_data ba = off"
    and "total_bulks m ba = Some (of_nat (length ss))" "length ss < 2 ^ 31"
  shows "array_total_size m ba = Some (of_nat (length (array_wire ss)))"
proof (cases "ss = []")
  case True
  then show ?thesis using assms
    by (simp add: array_total_size_def present_bulks_def array_wire_def nat_dec.simps laid_out_length)
next
  case False
  have len: "length (items ba) = length ss" using laid_out_length [OF assms(1)] .
  have "raw_data (items ba ! 0) = off + array_head_len ss"
    using laid_out_pos [OF assms(1), of 0] len False by simp
  moreover have "items ba \<noteq> []" using len False by auto
  moreover have "list_all2 (\<lambda>b s. total_size m b = Some (of_nat (wire_len s))) (items ba) ss"
    using laid_out_received [OF assms(1)] by (rule list_all2_mono) (simp add: received_def)
  ultimately show ?thesis
    using assms len False of_nat_size_t_inj [of "length ss" 0]
    by (simp add: array_total_size_def present_bulks_def array_at_def sum_sizes_list length_array_wire)
qed

lemma array_received:
  assumes "on_wire m off n (array_wire ss @ rest)" and "length (array_wire ss) < 2 ^ 31"
    and "NUL \<in> set (drop (off + n) m)" and "length (array_wire ss) \<le> n"
  shows "\<exists>ba. BulkArray m off n = Some ba \<and> parsed_size ba = int (length (array_wire ss))
    \<and> total_bulks m ba = Some (of_nat (length ss)) \<and> array_completed m ba = Some True
    \<and> array_total_size m ba = Some (of_nat (length (array_wire ss)))
    \<and> laid_out m (off + array_head_len ss) (items ba) ss"
proof -
  let ?h = "array_head_len ss"
  let ?its = "expected_bulks (off + ?h) (n - ?h) ss"
  let ?ba = "\<lparr>array_data = off, parsed_size_field = of_nat (length (array_wire ss)), items = ?its\<rparr>"
  note L = length_array_wire [of ss]
  have hd: "?h \<le> n" and all: "sum_list (map wire_len ss) \<le> n - ?h"
    using assms(4) L by auto
  have b: "BulkArray m off n = Some ?ba"
    using BulkArray_on_wire [OF assms(1) hd assms(2)] by (simp add: claimed_full [OF all] L)
  have "on_wire m (off + ?h) (n - ?h) (concat (map bulk_wire ss) @ rest)"
    using on_wire_split(2) [of m off n "CHR ''*'' # nat_dec (length ss) @ CRLF" "concat (map bulk_wire ss) @ rest"]
      assms(1) hd by (simp add: array_wire_def array_head_len_def numeral_eq_Suc)
  then have lo: "laid_out m (off + ?h) ?its ss"
    using assms(2,3) all hd L by (intro laid_out_expected) auto
  have small: "length ss < 2 ^ 31"
    using length_le_wire [of ss] assms(2) L by simp
  have tb: "total_bulks m ?ba = Some (of_nat (length ss))"
    using total_bulks_on_wire [OF assms(1) hd small assms(3)] by simp
  have ts: "array_total_size m ?ba = Some (of_nat (length (array_wire ss)))"
    using array_total_size_laid_out [of m off ss ?ba] lo tb small by simp
  have c: "array_completed m ?ba = Some True"
    using array_completed_on_wire [OF assms(1) hd assms(2,3), of ?ba] assms(4) by simp
  have ps: "parsed_size ?ba = int (length (array_wire ss))"
    using assms(2) by (simp add: parsed_size_def uint_nat unat_of_nat_size_t int32_id)
  show ?thesis by (intro exI [where x = ?ba] conjI b ps tb c ts) (simp add: lo)
qed

section \<open>Properties of the parser\<close>

text \<open>
  C16. A well-formed redis array is recognised however the network splits it: for every number \<open>n\<close>
  of received bytes the constructor stays inside of the buffer and never reports a parse error; before the
  header line is there it lists no bulk, and from then on it lists exactly the bulks whose own header has
  arrived, and \<^verbatim>\<open>completed()\<close> holds exactly when the whole array is there. The array is
  shorter than \<open>2\<^sup>3\<^sup>1\<close> bytes. The bytes after the received ones are arbitrary, but
  there is one at least and a NUL byte is among them: \<^verbatim>\<open>atoi\<close> reads up to a byte that is
  no digit.
\<close>

theorem parse_any_split:
  assumes "on_wire m off n (array_wire ss @ rest)" and "length (array_wire ss) < 2 ^ 31"
    and "NUL \<in> set (drop (off + n) m)"
  shows "\<exists>ba. BulkArray m off n = Some ba \<and> 0 \<le> parsed_size ba
    \<and> (if n < array_head_len ss then items ba = []
       else items ba = expected_bulks (off + array_head_len ss) (n - array_head_len ss) ss
         \<and> array_completed m ba = Some (length (array_wire ss) \<le> n))"
proof (cases "n < array_head_len ss")
  case True
  then show ?thesis
    using BulkArray_partial_head [OF assms(1)] by (simp add: parsed_size_def int32_def)
next
  case False
  let ?h = "array_head_len ss"
  let ?c = "claimed (off + ?h) (n - ?h) ss"
  let ?ba = "\<lparr>array_data = off, parsed_size_field = of_nat (?h + ?c),
              items = expected_bulks (off + ?h) (n - ?h) ss\<rparr>"
  have "BulkArray m off n = Some ?ba"
    using BulkArray_on_wire [OF assms(1)] False assms(2) by simp
  moreover have "array_completed m ?ba = Some (length (array_wire ss) \<le> n)"
    using array_completed_on_wire [OF assms(1)] False assms(2,3) by simp
  moreover have "?h + ?c < 2 ^ 31"
    using claimed_le [of "off + ?h" "n - ?h" ss] assms(2) by (simp add: length_array_wire)
  then have "uint (of_nat (?h + ?c) :: size_t) = int (?h + ?c)"
    by (simp add: uint_nat unat_of_nat_size_t del: of_nat_add)
  then have "0 \<le> parsed_size ?ba"
    using \<open>?h + ?c < 2 ^ 31\<close> by (simp add: parsed_size_def int32_id del: of_nat_add)
  ultimately show ?thesis using False by auto
qed

text \<open>
  C17. Round trip: when all bytes of an array of strings have been received, the constructor claims exactly
  these bytes, and the payloads of its bulks are the strings that were sent, byte for byte and in order (the
  strings may contain any byte). The array is shorter than \<open>2\<^sup>3\<^sup>1\<close> bytes, and a NUL
  byte stands somewhere after the received bytes in the buffer.
\<close>

theorem parse_roundtrip:
  assumes "on_wire m off n (array_wire ss @ rest)" and "length (array_wire ss) < 2 ^ 31"
    and "NUL \<in> set (drop (off + n) m)" and "length (array_wire ss) \<le> n"
  shows "\<exists>ba. BulkArray m off n = Some ba \<and> parsed_size ba = int (length (array_wire ss))
    \<and> array_total_size m ba = Some (of_nat (length (array_wire ss)))
    \<and> map (payload m) (items ba) = map Some ss"
proof -
  have "map (payload m) bs = map Some ss" if "laid_out m p bs ss" for p bs
    using that by (induction m p bs ss rule: laid_out.induct) (auto simp: received_payload)
  then show ?thesis using array_received [OF assms] by blast
qed

lemmas wire_eval =
  array_wire_def bulk_wire_def nat_dec.simps digit_char_def array_head_len_def on_wire_def
  head_len_def wire_len_def

theorem parse_any_split_witness:
  "\<exists>ba. BulkArray (take 12 (array_wire [''get'', ''k'']) @ ''xyz'' @ [NUL]) 0 12 = Some ba
     \<and> items ba = [\<lparr>raw_data = 4, present_size = 8\<rparr>]
     \<and> array_completed (take 12 (array_wire [''get'', ''k'']) @ ''xyz'' @ [NUL]) ba = Some False"
proof -
  let ?m = "take 12 (array_wire [''get'', ''k'']) @ ''xyz'' @ [NUL]"
  have "\<exists>ba. BulkArray ?m 0 12 = Some ba \<and> 0 \<le> parsed_size ba
    \<and> (if 12 < array_head_len [''get'', ''k''] then items ba = []
       else items ba = expected_bulks (0 + array_head_len [''get'', ''k''])
               (12 - array_head_len [''get'', ''k'']) [''get'', ''k'']
         \<and> array_completed ?m ba = Some (length (array_wire [''get'', ''k'']) \<le> 12))"
    by (rule parse_any_split [where rest = "[]"]) (simp_all add: wire_eval)
  then show ?thesis by (auto simp: wire_eval)
qed

theorem parse_roundtrip_witness:
  "\<exists>ba. BulkArray (array_wire [''get'', [CR, NUL]] @ ''*1'' @ [NUL]) 0 23 = Some ba
     \<and> map (payload (array_wire [''get'', [CR, NUL]] @ ''*1'' @ [NUL])) (items ba)
         = [Some ''get'', Some [CR, NUL]]"
proof -
  let ?ss = "[''get'', [CR, NUL]]"
  have "\<exists>ba. BulkArray (array_wire ?ss @ ''*1'' @ [NUL]) 0 23 = Some ba
    \<and> parsed_size ba = int (length (array_wire ?ss))
    \<and> array_total_size (array_wire ?ss @ ''*1'' @ [NUL]) ba = Some (of_nat (length (array_wire ?ss)))
    \<and> map (payload (array_wire ?ss @ ''*1'' @ [NUL])) (items ba) = map Some ?ss"
    by (rule parse_roundtrip [where rest = "''*1''"]) (simp_all add: wire_eval)
  then show ?thesis by auto
qed

text \<open>
  C18. Where the \<^verbatim>\<open>Bulk\<close> constructor leaves the memory it was given: the loop reads \<^verbatim>\<open>*p\<close> before it
  checks the distance, so it reads one byte past the received bytes.  If these end where the buffer
  ends, and only then, that read is outside of the allocation: a bulk header without \<^verbatim>\<open>\r\<close> in the
  last bytes of a full buffer.  With one spare byte the constructor is memory safe on any input.
\<close>

theorem Bulk_out_of_bounds_iff:
  assumes "off + n \<le> length m"
  shows "Bulk m off n = None \<longleftrightarrow>
    4 \<le> n \<and> off + n = length m \<and> m ! off = CHR ''$'' \<and> m ! (off + 1) \<noteq> CHR ''-''
      \<and> CR \<notin> set (drop (off + 1) m)"
proof (cases "4 \<le> n \<and> m ! off = CHR ''$'' \<and> m ! (off + 1) \<noteq> CHR ''-''")
  case False
  have rds: "rd m (off + i) = Some (m ! (off + i))" if "i < n" for i
    using that assms by (simp add: rd_def)
  have "Bulk m off n \<noteq> None"
    using False rds [of 0] rds [of 1] rds [of 2] rds [of 3] rds [of 4]
    by (auto simp: Bulk_def Let_def)
  with False show ?thesis by blast
next
  case True
  let ?sz = "\<lambda>s. Some \<lparr>raw_data = off, present_size = s\<rparr>"
  have start: "Bulk m off n = do {
      (c, i, tot) \<leftarrow> bulk_scan (drop (Suc off) m) 1 n 0;
      if c = CR \<and> i + 1 < n then do {
        c' \<leftarrow> rd m (off + i + 1);
        ?sz (if c' = LF then int32 (int (min n (unat (of_nat i + tot + 4)))) else 0)
      } else ?sz 0
    }"
    using True assms by (simp add: Bulk_def Let_def rd_def)
  have "Bulk m off n = None \<longleftrightarrow> bulk_scan (drop (Suc off) m) 1 n 0 = None"
    unfolding start using assms
    by (cases "bulk_scan (drop (Suc off) m) 1 n 0") (auto simp: rd_def)
  also have "\<dots> \<longleftrightarrow> CR \<notin> set (drop (Suc off) m) \<and> 1 + length (drop (Suc off) m) \<le> n"
    using True by (intro bulk_scan_None) simp
  finally show ?thesis
    using True assms by auto
qed

theorem Bulk_out_of_bounds_witness:
  "Bulk ''$1234567'' 0 8 = None \<and> Bulk ''$1234567.'' 0 8 \<noteq> None"
  using Bulk_out_of_bounds_iff [of 0 8 "''$1234567''"] Bulk_out_of_bounds_iff [of 0 8 "''$1234567.''"]
  by simp

text \<open>
  C19. On any input of less than \<open>2\<^sup>3\<^sup>1\<close> bytes: when the constructor reports that some
  of a bulk is present, then \<^verbatim>\<open>total_size()\<close> is defined and not zero, and
  \<^verbatim>\<open>present_size()\<close> is the minimum of what was received and the total. So every
  iteration of \<^verbatim>\<open>ParseBulkItems\<close> that continues advances the pointer.
\<close>

theorem bulk_present_total:
  assumes "Bulk m off n = Some b" and "0 < present_size b" and "n < 2 ^ 31"
  shows "\<exists>t. total_size m b = Some t \<and> t \<noteq> 0 \<and> present_size b = int (min n (unat t))"
proof -
  have neg: "\<not> 0 < SIZE_PARSE_ERROR" by (simp add: SIZE_PARSE_ERROR_def)
  have four: "\<not> n < 4" and c0: "rd m off = Some (CHR ''$'')"
    using assms(1,2) neg by (auto simp: Bulk_def Let_def bind_eq_Some_conv split: if_splits)
  obtain c1 where c1: "rd m (Suc off) = Some c1"
    using assms(1) four c0 by (auto simp: Bulk_def bind_eq_Some_conv)
  show ?thesis
  proof (cases "c1 = CHR ''-''")
    case True
    then have "raw_data b = off" "present_size b = 5" "\<not> n < 5"
      using assms(1,2) neg four c0 c1
      by (auto simp: Bulk_def Let_def bind_eq_Some_conv split: if_splits)
    with True c1 show ?thesis by (auto simp: total_size_def)
  next
    case False
    with assms(1,2) four c0 c1 obtain i tot where
      sc: "bulk_scan (drop (Suc off) m) 1 n 0 = Some (CR, i, tot)" and b: "raw_data b = off"
      "present_size b = int32 (int (min n (unat (of_nat i + tot + 4))))"
      by (auto simp: Bulk_def Let_def bind_eq_Some_conv split: if_splits prod.splits)
    have "total_size m b = Some (tot + of_nat i + 4)"
      using bulk_scan_size_scan [OF sc] c1 False by (simp add: total_size_def b)
    moreover have "of_nat i + tot + 4 = tot + of_nat i + (4 :: size_t)" by simp
    moreover have "int32 (int (min n k)) = int (min n k)" for k
      using assms(3) by (intro int32_id) auto
    ultimately show ?thesis
      using assms(2) b(2) by (intro exI [of _ "tot + of_nat i + 4"]) (auto simp: add_ac)
  qed
qed

theorem bulk_present_total_witness:
  "\<exists>t. total_size (''$5'' @ CRLF @ ''ab'') \<lparr>raw_data = 0, present_size = 6\<rparr> = Some t
     \<and> t \<noteq> 0 \<and> (6 :: int) = int (min 6 (unat t))"
proof -
  let ?b = "\<lparr>raw_data = 0, present_size = 6\<rparr>"
  have "Bulk (''$5'' @ CRLF @ ''ab'') 0 6 = Some ?b"
    by (simp add: Bulk_def digit_sz_def schar_def int32_def)
  from bulk_present_total [OF this] show ?thesis by simp
qed

end
