(* ===== verification/Read_Buffer.thy ===== *)
theory Read_Buffer
  imports Yarm_Prelude
begin

text \<open>
  The receive buffer of a connection, \<^verbatim>\<open>src/proxy/read_buffer.h\<close> and
  \<^verbatim>\<open>src/proxy/read_buffer.cc\<close>.  Three offsets move over one array: bytes below
  \<open>received_offset\<close> have arrived, bytes below \<open>parsed_offset\<close> have been claimed by the parser
  (which may run ahead of what has arrived), bytes below \<open>processed_offset\<close> have been handed on.
  The buffer is compacted only while \<open>recycle_lock_count\<close> is zero, since the sockets write
  directly from this memory.
\<close>

section \<open>The class\<close>

record read_buffer =
  data :: bytes
  buffer_size :: size_t
  processed_offset :: size_t
  received_offset :: size_t
  parsed_offset :: size_t
  recycle_lock_count :: size_t

definition ReadBuffer :: "bytes \<Rightarrow> size_t \<Rightarrow> read_buffer" where
  "ReadBuffer buf n =
     \<lparr>data = buf, buffer_size = n, processed_offset = 0, received_offset = 0,
      parsed_offset = 0, recycle_lock_count = 0\<rparr>"

definition buffer_Reset :: "read_buffer \<Rightarrow> read_buffer" where
  "buffer_Reset b =
     b\<lparr>processed_offset := 0, received_offset := 0, parsed_offset := 0, recycle_lock_count := 0\<rparr>"

definition has_much_free_space :: "read_buffer \<Rightarrow> bool" where
  "has_much_free_space b \<longleftrightarrow> received_offset b * 3 < buffer_size b * 2"

definition free_space_begin :: "read_buffer \<Rightarrow> nat" where
  "free_space_begin b = unat (received_offset b)"

definition free_space_size :: "read_buffer \<Rightarrow> size_t" where
  "free_space_size b = buffer_size b - received_offset b"

definition received_bytes :: "read_buffer \<Rightarrow> size_t" where
  "received_bytes b = received_offset b - processed_offset b"

definition cut_received_tail :: "size_t \<Rightarrow> read_buffer \<Rightarrow> read_buffer" where
  "cut_received_tail n b = b\<lparr>received_offset := received_offset b - n\<rparr>"

definition recover_received_tail :: "size_t \<Rightarrow> read_buffer \<Rightarrow> read_buffer" where
  "recover_received_tail n b =
     b\<lparr>received_offset := received_offset b + n, parsed_offset := parsed_offset b + n\<rparr>"

definition unprocessed_data :: "read_buffer \<Rightarrow> nat" where
  "unprocessed_data b = unat (processed_offset b)"

definition unprocessed_bytes :: "read_buffer \<Rightarrow> size_t" where
  "unprocessed_bytes b = min (received_offset b) (parsed_offset b) - processed_offset b"

definition update_parsed_bytes :: "size_t \<Rightarrow> read_buffer \<Rightarrow> read_buffer" where
  "update_parsed_bytes n b = b\<lparr>parsed_offset := parsed_offset b + n\<rparr>"

definition unparsed_data :: "read_buffer \<Rightarrow> nat" where
  "unparsed_data b = unat (parsed_offset b)"

definition unparsed_bytes :: "read_buffer \<Rightarrow> size_t" where
  "unparsed_bytes b =
     (if received_offset b > parsed_offset b then received_offset b - parsed_offset b else 0)"

definition parsed_unprocessed_bytes :: "read_buffer \<Rightarrow> size_t option" where
  "parsed_unprocessed_bytes b =
     (if parsed_offset b < processed_offset b then None
      else if parsed_offset b > processed_offset b
           then Some (parsed_offset b - processed_offset b) else Some 0)"

definition parsed_unreceived_bytes :: "read_buffer \<Rightarrow> size_t" where
  "parsed_unreceived_bytes b =
     (if parsed_offset b > received_offset b then parsed_offset b - received_offset b else 0)"

definition unparsed_received_bytes :: "read_buffer \<Rightarrow> size_t" where
  "unparsed_received_bytes b =
     (if received_offset b > parsed_offset b then received_offset b - parsed_offset b else 0)"

definition update_received_bytes :: "size_t \<Rightarrow> read_buffer \<Rightarrow> read_buffer" where
  "update_received_bytes n b = b\<lparr>received_offset := received_offset b + n\<rparr>"

text \<open>\<^verbatim>\<open>memcpy(data_, data, bytes)\<close> is undefined when the array is too short.\<close>

definition push_reply_data :: "bytes \<Rightarrow> bool \<Rightarrow> read_buffer \<Rightarrow> read_buffer option" where
  "push_reply_data bs parsed b =
     (if length bs \<le> length (data b)
      then Some (b\<lparr>data := bs @ drop (length bs) (data b),
                   received_offset := received_offset b + of_nat (length bs),
                   parsed_offset :=
                     (if parsed then parsed_offset b + of_nat (length bs) else parsed_offset b)\<rparr>)
      else None)"

definition update_processed_offset :: "size_t \<Rightarrow> read_buffer \<Rightarrow> read_buffer" where
  "update_processed_offset n b = b\<lparr>processed_offset := processed_offset b + n\<rparr>"

text \<open>\<^verbatim>\<open>memmove(data_, data_ + from, n)\<close>.\<close>

definition memmove_front :: "bytes \<Rightarrow> nat \<Rightarrow> nat \<Rightarrow> bytes option" where
  "memmove_front m from n =
     (if from + n \<le> length m then Some (take n (drop from m) @ drop n m) else None)"

definition try_recycle_buffer :: "read_buffer \<Rightarrow> read_buffer option" where
  "try_recycle_buffer b =
     (if recycle_lock_count b = 0 then
        if processed_offset b = received_offset b then
          Some (b\<lparr>parsed_offset := parsed_offset b - processed_offset b,
                  processed_offset := 0, received_offset := 0\<rparr>)
        else if processed_offset b > buffer_size b - received_offset b then do {
          m \<leftarrow> memmove_front (data b) (unat (processed_offset b))
                 (unat (received_offset b - processed_offset b));
          if parsed_offset b < processed_offset b then None
          else Some (b\<lparr>data := m,
                       parsed_offset := parsed_offset b - processed_offset b,
                       received_offset := received_offset b - processed_offset b,
                       processed_offset := 0\<rparr>)
        }
        else Some b
      else Some b)"

definition update_processed_bytes :: "size_t \<Rightarrow> read_buffer \<Rightarrow> read_buffer option" where
  "update_processed_bytes n b =
     try_recycle_buffer (b\<lparr>processed_offset := processed_offset b + n\<rparr>)"

definition recycle_locked :: "read_buffer \<Rightarrow> bool" where
  "recycle_locked b \<longleftrightarrow> recycle_lock_count b > 0"

definition inc_recycle_lock :: "read_buffer \<Rightarrow> read_buffer" where
  "inc_recycle_lock b = b\<lparr>recycle_lock_count := recycle_lock_count b + 1\<rparr>"

definition dec_recycle_lock :: "read_buffer \<Rightarrow> read_buffer option" where
  "dec_recycle_lock b =
     (if recycle_lock_count b > 0
      then try_recycle_buffer (b\<lparr>recycle_lock_count := recycle_lock_count b - 1\<rparr>)
      else None)"

text \<open>
  What \<^verbatim>\<open>async_read_some\<close> does to the memory it was given,
  \<^verbatim>\<open>[free_space_begin, free_space_begin + free_space_size)\<close>, when \<open>xs\<close> arrives, and the
  bookkeeping the completion handlers do first (\<^verbatim>\<open>update_received_bytes(bytes_transferred)\<close>).
\<close>

definition socket_fill :: "bytes \<Rightarrow> read_buffer \<Rightarrow> read_buffer" where
  "socket_fill xs b =
     b\<lparr>data := take (free_space_begin b) (data b) @ xs
                 @ drop (free_space_begin b + length xs) (data b)\<rparr>"

definition receive :: "bytes \<Rightarrow> read_buffer \<Rightarrow> read_buffer" where
  "receive xs b = update_received_bytes (of_nat (length xs)) (socket_fill xs b)"

section \<open>Well-formed buffers and their contents\<close>

definition rb_inv :: "read_buffer \<Rightarrow> bool" where
  "rb_inv b \<longleftrightarrow>
     processed_offset b \<le> received_offset b \<and> received_offset b \<le> buffer_size b \<and>
     processed_offset b \<le> parsed_offset b \<and> length (data b) = unat (buffer_size b)"

text \<open>
  The abstract value of a buffer: the bytes that have arrived and are not yet handed on, and how
  far the parser is ahead of the first of them.
\<close>

definition pending :: "read_buffer \<Rightarrow> bytes" where
  "pending b = take (unat (received_bytes b)) (drop (unprocessed_data b) (data b))"

definition ahead :: "read_buffer \<Rightarrow> nat" where
  "ahead b = unat (parsed_offset b - processed_offset b)"

lemmas rb_defs = rb_inv_def pending_def ahead_def received_bytes_def unprocessed_data_def

lemma rb_invD:
  assumes "rb_inv b"
  shows "unat (processed_offset b) \<le> unat (received_offset b)"
    and "unat (received_offset b) \<le> unat (buffer_size b)"
    and "unat (processed_offset b) \<le> unat (parsed_offset b)"
    and "length (data b) = unat (buffer_size b)"
    and "unat (received_bytes b) = unat (received_offset b) - unat (processed_offset b)"
    and "ahead b = unat (parsed_offset b) - unat (processed_offset b)"
  using assms by (simp_all add: rb_defs word_le_nat_alt unat_sub)

lemma rb_invI:
  assumes "unat (processed_offset b) \<le> unat (received_offset b)"
    and "unat (received_offset b) \<le> unat (buffer_size b)"
    and "unat (processed_offset b) \<le> unat (parsed_offset b)"
    and "length (data b) = unat (buffer_size b)"
  shows "rb_inv b"
  using assms by (simp add: rb_inv_def word_le_nat_alt)

lemma rb_inv_ReadBuffer: "length buf = unat n \<Longrightarrow> rb_inv (ReadBuffer buf n)"
  by (simp add: rb_inv_def ReadBuffer_def)

lemma length_pending: "rb_inv b \<Longrightarrow> length (pending b) = unat (received_bytes b)"
  using rb_invD [of b] by (simp add: pending_def unprocessed_data_def)

lemma unat_unprocessed_bytes:
  assumes "rb_inv b"
  shows "unat (unprocessed_bytes b) = min (length (pending b)) (ahead b)"
proof -
  have "processed_offset b \<le> min (received_offset b) (parsed_offset b)"
    using assms by (simp add: rb_inv_def)
  then have "unat (unprocessed_bytes b)
      = unat (min (received_offset b) (parsed_offset b)) - unat (processed_offset b)"
    unfolding unprocessed_bytes_def word_le_nat_alt by (rule unat_sub [unfolded word_le_nat_alt])
  with rb_invD [OF assms] show ?thesis
    by (simp add: unat_min length_pending [OF assms])
qed

section \<open>Each operation on well-formed buffers\<close>

lemma memmove_front_pending:
  assumes "from + n \<le> length m"
  shows "\<exists>m'. memmove_front m from n = Some m' \<and> length m' = length m
           \<and> take n m' = take n (drop from m)"
  using assms by (auto simp: memmove_front_def)

lemma try_recycle_cases:
  assumes "rb_inv b"
  obtains (same) "try_recycle_buffer b = Some b"
  | (moved) m where
      "recycle_lock_count b = 0" "length m = length (data b)"
      "take (unat (received_bytes b)) m = pending b"
      "try_recycle_buffer b =
         Some (b\<lparr>data := m, parsed_offset := parsed_offset b - processed_offset b,
                 received_offset := received_bytes b, processed_offset := 0\<rparr>)"
proof -
  note D = rb_invD [OF assms]
  consider (keep) "recycle_lock_count b \<noteq> 0 \<or> processed_offset b \<noteq> received_offset b
        \<and> \<not> processed_offset b > buffer_size b - received_offset b"
    | (empty) "recycle_lock_count b = 0" "processed_offset b = received_offset b"
    | (compact) "recycle_lock_count b = 0" "processed_offset b \<noteq> received_offset b"
        "processed_offset b > buffer_size b - received_offset b"
    by blast
  then show thesis
  proof cases
    case keep
    then have "try_recycle_buffer b = Some b" by (auto simp: try_recycle_buffer_def)
    then show thesis by (rule same)
  next
    case empty
    then have "try_recycle_buffer b =
        Some (b\<lparr>data := data b, parsed_offset := parsed_offset b - processed_offset b,
                received_offset := received_bytes b, processed_offset := 0\<rparr>)"
      by (simp add: try_recycle_buffer_def received_bytes_def)
    with empty show thesis
      by (intro moved [of "data b"]) (simp_all add: pending_def received_bytes_def)
  next
    case compact
    have "unat (processed_offset b) + unat (received_bytes b) \<le> length (data b)"
      using D by simp
    from memmove_front_pending [OF this] obtain m where m:
        "memmove_front (data b) (unat (processed_offset b)) (unat (received_bytes b)) = Some m"
        "length m = length (data b)"
        "take (unat (received_bytes b)) m = pending b"
      by (auto simp: pending_def unprocessed_data_def)
    have "\<not> parsed_offset b < processed_offset b"
      using assms by (simp add: rb_inv_def not_less)
    with compact m have "try_recycle_buffer b =
        Some (b\<lparr>data := m, parsed_offset := parsed_offset b - processed_offset b,
                received_offset := received_bytes b, processed_offset := 0\<rparr>)"
      by (simp add: try_recycle_buffer_def received_bytes_def)
    with compact m show thesis by (intro moved [of m]) simp_all
  qed
qed

text \<open>Compaction is invisible: it never fails and keeps the contents.\<close>

lemma try_recycle_ok:
  assumes "rb_inv b"
  shows "\<exists>b'. try_recycle_buffer b = Some b' \<and> rb_inv b' \<and> pending b' = pending b
           \<and> ahead b' = ahead b \<and> buffer_size b' = buffer_size b
           \<and> recycle_lock_count b' = recycle_lock_count b"
  using assms
proof (cases rule: try_recycle_cases)
  case same
  with assms show ?thesis by simp
next
  case (moved m)
  note D = rb_invD [OF assms]
  let ?b = "b\<lparr>data := m, parsed_offset := parsed_offset b - processed_offset b,
              received_offset := received_bytes b, processed_offset := 0\<rparr>"
  have "rb_inv ?b"
    using D moved(2) by (intro rb_invI) simp_all
  moreover have "pending ?b = pending b"
    using moved(3) by (simp add: pending_def received_bytes_def unprocessed_data_def)
  moreover have "ahead ?b = ahead b"
    by (simp add: ahead_def)
  ultimately show ?thesis using moved(4) by simp
qed

lemma try_recycle_locked: "recycle_lock_count b \<noteq> 0 \<Longrightarrow> try_recycle_buffer b = Some b"
  by (simp add: try_recycle_buffer_def)

lemma socket_fill_data:
  assumes "rb_inv b" "length xs \<le> unat (free_space_size b)"
  shows "length (data (socket_fill xs b)) = length (data b)"
    and "take (unat (received_offset b)) (data (socket_fill xs b))
           = take (unat (received_offset b)) (data b)"
    and "take (length xs) (drop (unat (received_offset b)) (data (socket_fill xs b))) = xs"
proof -
  note D = rb_invD [OF assms(1)]
  have "unat (free_space_size b) = unat (buffer_size b) - unat (received_offset b)"
    using assms(1) by (simp add: free_space_size_def rb_inv_def unat_sub)
  with assms(2) have fits: "unat (received_offset b) + length xs \<le> length (data b)"
    using D by simp
  then show "length (data (socket_fill xs b)) = length (data b)"
    by (simp add: socket_fill_def free_space_begin_def)
  show "take (unat (received_offset b)) (data (socket_fill xs b))
          = take (unat (received_offset b)) (data b)"
    using fits by (simp add: socket_fill_def free_space_begin_def)
  show "take (length xs) (drop (unat (received_offset b)) (data (socket_fill xs b))) = xs"
    using fits by (simp add: socket_fill_def free_space_begin_def)
qed

lemma receive_ok:
  assumes "rb_inv b" "length xs \<le> unat (free_space_size b)"
  shows "rb_inv (receive xs b)" "pending (receive xs b) = pending b @ xs"
    "ahead (receive xs b) = ahead b"
proof -
  note D = rb_invD [OF assms(1)]
  let ?r = "unat (received_offset b)" and ?p = "unat (processed_offset b)"
  let ?m = "data (socket_fill xs b)"
  have "unat (free_space_size b) = unat (buffer_size b) - ?r"
    using assms(1) by (simp add: free_space_size_def rb_inv_def unat_sub)
  with assms(2) have fits: "?r + length xs \<le> unat (buffer_size b)"
    using D by simp
  with unat_size_t [of "buffer_size b"]
  have r': "unat (received_offset b + of_nat (length xs)) = ?r + length xs"
    by (simp add: unat_add_size_t unat_of_nat_size_t)
  note F = socket_fill_data [OF assms]
  show inv: "rb_inv (receive xs b)"
    using D fits F(1) r'
    by (intro rb_invI) (simp_all add: receive_def update_received_bytes_def socket_fill_def)
  have "unat (received_bytes (receive xs b)) = ?r + length xs - ?p"
    using rb_invD(5) [OF inv] r'
    by (simp add: receive_def update_received_bytes_def socket_fill_def)
  then have "pending (receive xs b) = take (?r - ?p + length xs) (drop ?p ?m)"
    using D by (simp add: pending_def unprocessed_data_def receive_def update_received_bytes_def
        socket_fill_def)
  also have "\<dots> = take (?r - ?p) (drop ?p ?m) @ take (length xs) (drop ?r ?m)"
    by (subst take_add) (use D in simp)
  also have "take (?r - ?p) (drop ?p ?m) = drop ?p (take ?r ?m)"
    by (simp add: drop_take)
  also have "\<dots> = pending b"
    using D by (simp add: F(2) drop_take pending_def unprocessed_data_def)
  finally show "pending (receive xs b) = pending b @ xs"
    by (simp add: F(3))
  show "ahead (receive xs b) = ahead b"
    by (simp add: ahead_def receive_def update_received_bytes_def socket_fill_def)
qed

lemma dec_lock_ok:
  assumes "rb_inv b" "recycle_lock_count b \<noteq> 0"
  shows "\<exists>b'. dec_recycle_lock b = Some b' \<and> rb_inv b' \<and> pending b' = pending b
           \<and> ahead b' = ahead b \<and> recycle_lock_count b' = recycle_lock_count b - 1
           \<and> buffer_size b' = buffer_size b"
proof -
  let ?c = "b\<lparr>recycle_lock_count := recycle_lock_count b - 1\<rparr>"
  have "rb_inv ?c" "pending ?c = pending b" "ahead ?c = ahead b"
    using assms(1) by (simp_all add: rb_defs)
  with try_recycle_ok [of ?c] assms(2) show ?thesis
    by (auto simp: dec_recycle_lock_def word_gt_0)
qed

section \<open>A buffer is a queue of bytes\<close>

text \<open>
  The parser's mark may fall behind: \<^verbatim>\<open>RedisDelCommand::ProcessUnparsedPart\<close> and \<^verbatim>\<open>RedisMsetCommand::ProcessUnparsedPart\<close>
  call \<^verbatim>\<open>update_processed_bytes\<close> before \<^verbatim>\<open>update_parsed_bytes\<close>.  So the invariant of all calls leaves it out, and the
  distance of the parser is a 64-bit number that wraps.
\<close>

definition rb_bounds :: "read_buffer \<Rightarrow> bool" where
  "rb_bounds b \<longleftrightarrow>
     processed_offset b \<le> received_offset b \<and> received_offset b \<le> buffer_size b \<and> length (data b) = unat (buffer_size b)"

definition parsed_ahead :: "read_buffer \<Rightarrow> size_t" where
  "parsed_ahead b = parsed_offset b - processed_offset b"

type_synonym queue_view = "bytes \<times> size_t \<times> size_t"

definition queue_view :: "read_buffer \<Rightarrow> queue_view" where
  "queue_view b = (pending b, parsed_ahead b, recycle_lock_count b)"

text \<open>
  All calls that change a buffer.  \<open>Receive\<close> is a read of the socket with \<^verbatim>\<open>update_received_bytes\<close>; \<open>Forward\<close> hands on
  \<^verbatim>\<open>unprocessed_bytes()\<close> bytes, \<open>Process n\<close> is \<^verbatim>\<open>update_processed_bytes(n)\<close> with bytes that were cut into segments, \<open>Skip n\<close>
  is \<^verbatim>\<open>update_processed_offset(n)\<close>, which drops bytes, \<open>Cut n\<close> is \<^verbatim>\<open>cut_received_tail(n)\<close>, \<open>Push\<close> is \<^verbatim>\<open>push_reply_data\<close>.
  Nothing calls \<^verbatim>\<open>recover_received_tail\<close>.
\<close>

datatype rb_op =
    Receive bytes | Parse size_t | Forward | Process size_t | Skip size_t | Cut size_t | Lock | Unlock | Reset
  | Push bytes bool

text \<open>
  What the caller owes: the socket delivers no more than the free space it was given; no more bytes are processed or cut
  than have arrived; where the buffer may be compacted, the parser is not behind (the \<^verbatim>\<open>assert\<close> of \<^verbatim>\<open>try_recycle_buffer\<close>);
  a lock is released only when one is held (the \<^verbatim>\<open>assert\<close> of \<^verbatim>\<open>dec_recycle_lock\<close>); a reply is pushed into an empty buffer,
  as \<^verbatim>\<open>SetReplyData\<close> does after \<^verbatim>\<open>Reset\<close>, and fits.
\<close>

fun rb_ok :: "read_buffer \<Rightarrow> rb_op \<Rightarrow> bool" where
  "rb_ok b (Receive xs) \<longleftrightarrow> length xs \<le> unat (free_space_size b)"
| "rb_ok b Forward \<longleftrightarrow> processed_offset b \<le> parsed_offset b"
| "rb_ok b (Process n) \<longleftrightarrow> n \<le> received_bytes b
     \<and> (recycle_lock_count b \<noteq> 0 \<or> n = received_bytes b \<or> processed_offset b + n \<le> parsed_offset b)"
| "rb_ok b (Skip n) \<longleftrightarrow> n \<le> received_bytes b"
| "rb_ok b (Cut n) \<longleftrightarrow> n \<le> received_bytes b"
| "rb_ok b Unlock \<longleftrightarrow> recycle_lock_count b \<noteq> 0
     \<and> (recycle_lock_count b \<noteq> 1 \<or> received_bytes b = 0 \<or> processed_offset b \<le> parsed_offset b)"
| "rb_ok b (Push bs _) \<longleftrightarrow> received_offset b = 0 \<and> length bs \<le> unat (buffer_size b)"
| "rb_ok b _ \<longleftrightarrow> True"

text \<open>
  How the callers hand bytes on: they pass \<^verbatim>\<open>unprocessed_data\<close> and a length to a socket write, or segments of these bytes to
  several, and call \<^verbatim>\<open>update_processed_bytes\<close> with the same length.
\<close>

definition handed_on :: "size_t \<Rightarrow> read_buffer \<Rightarrow> (read_buffer \<times> bytes) option" where
  "handed_on n b = do {
     out \<leftarrow> rd_block (data b) (unprocessed_data b) (unat n);
     b' \<leftarrow> update_processed_bytes n b;
     Some (b', out)
   }"

fun rb_step :: "read_buffer \<Rightarrow> rb_op \<Rightarrow> (read_buffer \<times> bytes) option" where
  "rb_step b (Receive xs) = Some (receive xs b, [])"
| "rb_step b (Parse n) = Some (update_parsed_bytes n b, [])"
| "rb_step b Forward = handed_on (unprocessed_bytes b) b"
| "rb_step b (Process n) = handed_on n b"
| "rb_step b (Skip n) = Some (update_processed_offset n b, [])"
| "rb_step b (Cut n) = Some (cut_received_tail n b, [])"
| "rb_step b Lock = Some (inc_recycle_lock b, [])"
| "rb_step b Unlock = map_option (\<lambda>b'. (b', [])) (dec_recycle_lock b)"
| "rb_step b Reset = Some (buffer_Reset b, [])"
| "rb_step b (Push bs parsed) = map_option (\<lambda>b'. (b', [])) (push_reply_data bs parsed b)"

text \<open>The same calls on a queue: its bytes, how far the parser is ahead of the first of them, and the locks.\<close>

fun queue_step :: "queue_view \<Rightarrow> rb_op \<Rightarrow> queue_view \<times> bytes" where
  "queue_step (q, a, l) (Receive xs) = ((q @ xs, a, l), [])"
| "queue_step (q, a, l) (Parse n) = ((q, a + n, l), [])"
| "queue_step (q, a, l) Forward =
     (let k = min (length q) (unat a) in ((drop k q, a - of_nat k, l), take k q))"
| "queue_step (q, a, l) (Process n) = ((drop (unat n) q, a - n, l), take (unat n) q)"
| "queue_step (q, a, l) (Skip n) = ((drop (unat n) q, a - n, l), [])"
| "queue_step (q, a, l) (Cut n) = ((take (length q - unat n) q, a, l), [])"
| "queue_step (q, a, l) Lock = ((q, a, l + 1), [])"
| "queue_step (q, a, l) Unlock = ((q, a, l - 1), [])"
| "queue_step (q, a, l) Reset = (([], 0, 0), [])"
| "queue_step (q, a, l) (Push bs parsed) = ((q @ bs, if parsed then a + of_nat (length bs) else a, l), [])"

text \<open>
  Runs of an implementation and of its specification, and the law that lifts a refinement from steps to runs.
\<close>

fun impl_run :: "('s \<Rightarrow> 'o \<Rightarrow> ('s \<times> 'a list) option) \<Rightarrow> 's \<Rightarrow> 'o list \<Rightarrow> ('s \<times> 'a list) option" where
  "impl_run step s [] = Some (s, [])"
| "impl_run step s (op # ops) = do {
     (s', out) \<leftarrow> step s op;
     (s'', outs) \<leftarrow> impl_run step s' ops;
     Some (s'', out @ outs)
   }"

fun spec_run :: "('t \<Rightarrow> 'o \<Rightarrow> 't \<times> 'a list) \<Rightarrow> 't \<Rightarrow> 'o list \<Rightarrow> 't \<times> 'a list" where
  "spec_run spec t [] = (t, [])"
| "spec_run spec t (op # ops) =
     (let (t', out) = spec t op; (t'', outs) = spec_run spec t' ops in (t'', out @ outs))"

fun ok_run :: "('s \<Rightarrow> 'o \<Rightarrow> bool) \<Rightarrow> ('s \<Rightarrow> 'o \<Rightarrow> ('s \<times> 'a list) option) \<Rightarrow> 's \<Rightarrow> 'o list \<Rightarrow> bool"
where
  "ok_run ok step s [] \<longleftrightarrow> True"
| "ok_run ok step s (op # ops) \<longleftrightarrow>
     ok s op \<and> (case step s op of None \<Rightarrow> True | Some (s', _) \<Rightarrow> ok_run ok step s' ops)"

locale channel_refinement =
  fixes inv :: "'s \<Rightarrow> bool"
    and abs :: "'s \<Rightarrow> 't"
    and ok :: "'s \<Rightarrow> 'o \<Rightarrow> bool"
    and step :: "'s \<Rightarrow> 'o \<Rightarrow> ('s \<times> 'a list) option"
    and spec :: "'t \<Rightarrow> 'o \<Rightarrow> 't \<times> 'a list"
  assumes step_refines: "inv s \<Longrightarrow> ok s op \<Longrightarrow>
      \<exists>s' out. step s op = Some (s', out) \<and> inv s' \<and> spec (abs s) op = (abs s', out)"
begin

lemma run_refines:
  "inv s \<Longrightarrow> ok_run ok step s ops \<Longrightarrow>
     \<exists>s' outs. impl_run step s ops = Some (s', outs) \<and> inv s' \<and> spec_run spec (abs s) ops = (abs s', outs)"
proof (induction ops arbitrary: s)
  case (Cons op ops)
  then obtain t out where t: "step s op = Some (t, out)" "inv t" "spec (abs s) op = (abs t, out)"
    using step_refines [of s op] by auto
  with Cons.prems(2) have "ok_run ok step t ops" by simp
  with Cons.IH t show ?case by fastforce
qed simp

end

subsection \<open>Each call refines its specification\<close>

lemma view_parsed [simp]: "pending (b\<lparr>parsed_offset := x\<rparr>) = pending b"
  by (simp add: rb_defs)

lemma bounds_inv: "rb_bounds b \<longleftrightarrow> rb_inv (b\<lparr>parsed_offset := received_offset b\<rparr>)"
  by (auto simp: rb_bounds_def rb_inv_def)

lemma inv_bounds: "rb_inv b \<longleftrightarrow> rb_bounds b \<and> processed_offset b \<le> parsed_offset b"
  by (auto simp: rb_bounds_def rb_inv_def)

lemma bounds_pending:
  assumes "rb_bounds b"
  shows "length (pending b) = unat (received_bytes b)"
    and "unat (received_bytes b) = unat (received_offset b) - unat (processed_offset b)"
    and "unat (processed_offset b) \<le> unat (received_offset b)"
    and "unat (received_offset b) \<le> length (data b)"
  using assms length_pending [of "b\<lparr>parsed_offset := received_offset b\<rparr>"] rb_invD [of "b\<lparr>parsed_offset := received_offset b\<rparr>"]
  unfolding bounds_inv by (simp_all add: received_bytes_def)

lemma recycle_view:
  assumes "rb_bounds b" "recycle_lock_count b \<noteq> 0 \<or> processed_offset b = received_offset b \<or> processed_offset b \<le> parsed_offset b"
  shows "\<exists>b'. try_recycle_buffer b = Some b' \<and> rb_bounds b' \<and> queue_view b' = queue_view b"
proof -
  consider "recycle_lock_count b \<noteq> 0" | "recycle_lock_count b = 0" "processed_offset b = received_offset b" | "processed_offset b \<le> parsed_offset b"
    using assms(2) by blast
  then show ?thesis
  proof cases
    case 1
    with assms(1) show ?thesis by (simp add: try_recycle_locked)
  next
    case 2
    with assms(1) show ?thesis
      by (simp add: try_recycle_buffer_def rb_bounds_def queue_view_def parsed_ahead_def pending_def received_bytes_def)
  next
    case 3
    then have "rb_inv b" using assms(1) by (simp add: inv_bounds)
    from try_recycle_ok [OF this] show ?thesis
      by (auto simp: inv_bounds queue_view_def parsed_ahead_def ahead_def word_unat_eq_iff)
  qed
qed

lemma skip_view:
  assumes "rb_bounds b" "n \<le> received_bytes b"
  shows "rb_bounds (update_processed_offset n b)"
    and "queue_view (update_processed_offset n b) = (drop (unat n) (pending b), parsed_ahead b - n, recycle_lock_count b)"
    and "unat (processed_offset b + n) = unat (processed_offset b) + unat n"
proof -
  note B = bounds_pending [OF assms(1)]
  let ?c = "update_processed_offset n b"
  have n: "unat (processed_offset b) + unat n \<le> unat (received_offset b)"
    using assms(2) B(2,3) by (simp add: word_le_nat_alt)
  then show p': "unat (processed_offset b + n) = unat (processed_offset b) + unat n"
    using unat_size_t [of "received_offset b"] by (intro unat_add_size_t) simp
  show c: "rb_bounds ?c"
    using assms(1) n p' by (simp add: rb_bounds_def update_processed_offset_def word_le_nat_alt)
  have "unat (received_bytes ?c) = unat (received_bytes b) - unat n"
    using bounds_pending(2) [OF c] B(2) p' by (simp add: update_processed_offset_def)
  then have "pending ?c = drop (unat n) (pending b)"
    by (simp add: pending_def unprocessed_data_def update_processed_offset_def p' drop_take add.commute [of "unat n"])
  then show "queue_view ?c = (drop (unat n) (pending b), parsed_ahead b - n, recycle_lock_count b)"
    by (simp add: queue_view_def parsed_ahead_def update_processed_offset_def algebra_simps)
qed

lemma handed_on_view:
  assumes "rb_bounds b" "rb_ok b (Process n)"
  shows "\<exists>b'. handed_on n b = Some (b', take (unat n) (pending b)) \<and> rb_bounds b'
    \<and> queue_view b' = (drop (unat n) (pending b), parsed_ahead b - n, recycle_lock_count b)"
proof -
  note B = bounds_pending [OF assms(1)]
  have n: "n \<le> received_bytes b" using assms(2) by simp
  then have le: "unat n \<le> length (pending b)" by (simp add: B(1) word_le_nat_alt)
  let ?c = "update_processed_offset n b"
  note S = skip_view [OF assms(1) n]
  have "n = received_bytes b \<Longrightarrow> processed_offset ?c = received_offset ?c"
    by (simp add: update_processed_offset_def received_bytes_def)
  then have "recycle_lock_count ?c \<noteq> 0 \<or> processed_offset ?c = received_offset ?c \<or> processed_offset ?c \<le> parsed_offset ?c"
    using assms(2) by (auto simp: update_processed_offset_def)
  from recycle_view [OF S(1) this] obtain b' where b': "update_processed_bytes n b = Some b'" "rb_bounds b'"
      "queue_view b' = queue_view ?c"
    by (auto simp: update_processed_bytes_def update_processed_offset_def)
  have "rd_block (data b) (unprocessed_data b) (unat n) = Some (take (unat n) (pending b))"
    using le B by (simp add: rd_block_def pending_def unprocessed_data_def)
  with b' S(2) show ?thesis by (simp add: handed_on_def)
qed

lemma Forward_amount:
  assumes "rb_bounds b" "processed_offset b \<le> parsed_offset b"
  shows "unat (unprocessed_bytes b) = min (length (pending b)) (unat (parsed_ahead b))" "rb_ok b (Process (unprocessed_bytes b))"
proof -
  have inv: "rb_inv b" using assms by (simp add: inv_bounds)
  show u: "unat (unprocessed_bytes b) = min (length (pending b)) (unat (parsed_ahead b))"
    using unat_unprocessed_bytes [OF inv] by (simp add: ahead_def parsed_ahead_def)
  then have "unat (unprocessed_bytes b) \<le> unat (received_bytes b)" by (simp add: bounds_pending(1) [OF assms(1)])
  moreover have "unat (processed_offset b) + unat (unprocessed_bytes b) \<le> unat (parsed_offset b)"
    using u rb_invD(3) [OF inv] assms(2) by (simp add: parsed_ahead_def unat_sub word_le_nat_alt)
  moreover from this have "unat (processed_offset b + unprocessed_bytes b) = unat (processed_offset b) + unat (unprocessed_bytes b)"
    using unat_size_t [of "parsed_offset b"] by (intro unat_add_size_t) simp
  ultimately show "rb_ok b (Process (unprocessed_bytes b))" by (simp add: word_le_nat_alt)
qed

lemma receive_view:
  assumes "rb_bounds b" "length xs \<le> unat (free_space_size b)"
  shows "rb_bounds (receive xs b)" "queue_view (receive xs b) = (pending b @ xs, parsed_ahead b, recycle_lock_count b)"
proof -
  let ?c = "b\<lparr>parsed_offset := received_offset b\<rparr>"
  have "rb_inv ?c" "length xs \<le> unat (free_space_size ?c)" using assms by (simp_all add: bounds_inv free_space_size_def)
  note R = receive_ok [OF this]
  have c: "receive xs ?c = (receive xs b)\<lparr>parsed_offset := received_offset b\<rparr>"
    by (simp add: receive_def socket_fill_def update_received_bytes_def free_space_begin_def)
  have "rb_bounds ((receive xs b)\<lparr>parsed_offset := received_offset b\<rparr>)" using R(1) by (simp add: c inv_bounds)
  then show "rb_bounds (receive xs b)" by (simp add: rb_bounds_def)
  show "queue_view (receive xs b) = (pending b @ xs, parsed_ahead b, recycle_lock_count b)"
    using R(2) by (simp add: c queue_view_def) (simp add: parsed_ahead_def receive_def socket_fill_def update_received_bytes_def)
qed

lemma cut_view:
  assumes "rb_bounds b" "n \<le> received_bytes b"
  shows "rb_bounds (cut_received_tail n b)"
    "queue_view (cut_received_tail n b) = (take (length (pending b) - unat n) (pending b), parsed_ahead b, recycle_lock_count b)"
    "processed_offset b \<le> received_offset b - n"
proof -
  note B = bounds_pending [OF assms(1)]
  have n: "unat n \<le> unat (received_offset b) - unat (processed_offset b)"
    using assms(2) B(2) by (simp add: word_le_nat_alt)
  then have r: "unat (received_offset b - n) = unat (received_offset b) - unat n"
    using B(3) by (intro unat_sub) (simp add: word_le_nat_alt)
  show p: "processed_offset b \<le> received_offset b - n"
    using n B(3) by (simp add: word_le_nat_alt r)
  show c: "rb_bounds (cut_received_tail n b)"
    using assms(1) p r by (auto simp: rb_bounds_def cut_received_tail_def word_le_nat_alt)
  have "unat (received_bytes (cut_received_tail n b)) = unat (received_bytes b) - unat n"
    using bounds_pending(2) [OF c] B(2) r by (simp add: cut_received_tail_def)
  then show "queue_view (cut_received_tail n b) = (take (length (pending b) - unat n) (pending b), parsed_ahead b, recycle_lock_count b)"
    unfolding B(1) by (simp add: queue_view_def parsed_ahead_def pending_def unprocessed_data_def cut_received_tail_def min_def)
qed

lemma push_view:
  assumes "rb_bounds b" "received_offset b = 0" "length bs \<le> unat (buffer_size b)"
  shows "\<exists>b'. push_reply_data bs parsed b = Some b' \<and> rb_bounds b'
    \<and> queue_view b' = (pending b @ bs, if parsed then parsed_ahead b + of_nat (length bs) else parsed_ahead b, recycle_lock_count b)"
proof -
  have p: "processed_offset b = 0" using assms(1,2) by (simp add: rb_bounds_def)
  have n: "unat (of_nat (length bs) :: size_t) = length bs"
    using assms(3) unat_size_t [of "buffer_size b"] by (simp add: unat_of_nat_size_t)
  have "length bs \<le> length (data b)" using assms by (simp add: rb_bounds_def)
  then show ?thesis
    using assms p n
    by (simp add: push_reply_data_def rb_bounds_def queue_view_def parsed_ahead_def pending_def received_bytes_def
        unprocessed_data_def word_le_nat_alt)
qed

lemma unlock_view:
  assumes "rb_bounds b" "rb_ok b Unlock"
  shows "\<exists>b'. dec_recycle_lock b = Some b' \<and> rb_bounds b' \<and> queue_view b' = (pending b, parsed_ahead b, recycle_lock_count b - 1)"
proof -
  let ?c = "b\<lparr>recycle_lock_count := recycle_lock_count b - 1\<rparr>"
  have c: "rb_bounds ?c" "queue_view ?c = (pending b, parsed_ahead b, recycle_lock_count b - 1)"
    using assms(1) by (simp_all add: rb_bounds_def queue_view_def parsed_ahead_def rb_defs)
  have "recycle_lock_count b - 1 \<noteq> 0 \<or> processed_offset b = received_offset b \<or> processed_offset b \<le> parsed_offset b"
    using assms(2) by (auto simp: received_bytes_def)
  with recycle_view [OF c(1)] c(2) assms(2) show ?thesis by (simp add: dec_recycle_lock_def word_gt_0)
qed

interpretation rb_queue: channel_refinement rb_bounds queue_view rb_ok rb_step queue_step
proof unfold_locales
  fix b op
  assume inv: "rb_bounds b" and ok: "rb_ok b op"
  show "\<exists>b' out. rb_step b op = Some (b', out) \<and> rb_bounds b' \<and> queue_step (queue_view b) op = (queue_view b', out)"
  proof (cases op)
    case Forward
    note F = Forward_amount [OF inv]
    have k: "of_nat (min (length (pending b)) (unat (parsed_ahead b))) = unprocessed_bytes b"
      using F(1) ok Forward by (simp flip: F(1))
    show ?thesis
      using handed_on_view [OF inv F(2)] F(1) ok Forward k by (auto simp: queue_view_def Let_def)
  next
    case (Process n)
    with handed_on_view [OF inv, of n] ok show ?thesis by (auto simp: queue_view_def)
  next
    case (Push bs parsed)
    with push_view [OF inv, of bs parsed] ok show ?thesis by (auto simp: queue_view_def)
  next
    case Unlock
    with unlock_view [OF inv] ok show ?thesis by (auto simp: queue_view_def)
  qed (use inv ok receive_view [OF inv] skip_view [OF inv] cut_view [OF inv] in
      \<open>auto simp: queue_view_def parsed_ahead_def rb_bounds_def update_parsed_bytes_def inc_recycle_lock_def buffer_Reset_def
         rb_defs algebra_simps\<close>)
qed

section \<open>Properties\<close>

text \<open>The equations that evaluate the operations on a concrete buffer.\<close>

lemmas rb_eval =
  ReadBuffer_def receive_def socket_fill_def free_space_begin_def free_space_size_def
  update_received_bytes_def update_parsed_bytes_def inc_recycle_lock_def dec_recycle_lock_def
  handed_on_def update_processed_bytes_def try_recycle_buffer_def memmove_front_def rd_block_def
  unprocessed_data_def unprocessed_bytes_def received_bytes_def cut_received_tail_def update_processed_offset_def
  buffer_Reset_def push_reply_data_def

text \<open>Calls that neither drop bytes nor make them up.\<close>

fun lossless :: "rb_op \<Rightarrow> bool" where
  "lossless (Skip _) = False"
| "lossless (Cut _) = False"
| "lossless Reset = False"
| "lossless (Push _ _) = False"
| "lossless _ = True"

fun rb_input :: "rb_op \<Rightarrow> bytes" where
  "rb_input (Receive xs) = xs"
| "rb_input _ = []"

lemma queue_fifo:
  assumes "\<forall>op\<in>set ops. lossless op"
  shows "snd (spec_run queue_step v ops) @ fst (fst (spec_run queue_step v ops)) = fst v @ concat (map rb_input ops)"
  using assms
proof (induction ops arbitrary: v)
  case (Cons op ops)
  obtain q a l where v: "v = (q, a, l)" by (cases v)
  have "snd (queue_step v op) @ fst (fst (queue_step v op)) = fst v @ rb_input op"
    using Cons.prems by (cases op) (simp_all add: v Let_def)
  then show ?case
    using Cons.IH [of "fst (queue_step v op)"] Cons.prems by (simp add: case_prod_beta Let_def)
qed simp

text \<open>
  C13. A buffer is a queue of bytes.  For every sequence of the calls that change a buffer, each made under the caller's
  obligations of \<open>rb_ok\<close>: no call fails, the marks stay inside of the array, and the bytes held, the distance of the parser, the
  locks and the bytes handed on are those of a list of bytes under the same calls, whatever compactions happen.  In
  particular, as long as nothing is skipped, cut, reset or pushed, the bytes handed on followed by the bytes held are the
  bytes held at first followed by the bytes received, in order.
\<close>

theorem buffer_fifo:
  assumes "rb_bounds b" and "ok_run rb_ok rb_step b ops"
  shows "\<exists>b' outs. impl_run rb_step b ops = Some (b', outs) \<and> rb_bounds b'
    \<and> spec_run queue_step (queue_view b) ops = (queue_view b', outs)
    \<and> ((\<forall>op\<in>set ops. lossless op) \<longrightarrow> outs @ pending b' = pending b @ concat (map rb_input ops))"
proof -
  obtain b' outs where r: "impl_run rb_step b ops = Some (b', outs)" "rb_bounds b'"
      "spec_run queue_step (queue_view b) ops = (queue_view b', outs)"
    using rb_queue.run_refines [OF assms] by blast
  have "outs @ pending b' = pending b @ concat (map rb_input ops)" if "\<forall>op\<in>set ops. lossless op"
    using queue_fifo [OF that, of "queue_view b"] r(3) by (simp add: queue_view_def)
  with r show ?thesis by blast
qed

theorem buffer_fifo_witness:
  "\<exists>b' outs. impl_run rb_step (ReadBuffer ''........'' 8)
       [Receive ''abcdef'', Parse 5, Lock, Forward, Unlock, Receive ''gh'', Parse 9, Forward]
         = Some (b', outs) \<and> rb_bounds b' \<and> outs @ pending b' = ''abcdefgh''"
proof -
  let ?ops = "[Receive ''abcdef'', Parse 5, Lock, Forward, Unlock, Receive ''gh'', Parse 9, Forward]"
  have "rb_bounds (ReadBuffer ''........'' 8)"
    by (simp add: rb_bounds_def ReadBuffer_def)
  moreover have "ok_run rb_ok rb_step (ReadBuffer ''........'' 8) ?ops"
    by (simp add: rb_eval)
  ultimately have "\<exists>b' outs. impl_run rb_step (ReadBuffer ''........'' 8) ?ops = Some (b', outs) \<and> rb_bounds b'
      \<and> spec_run queue_step (queue_view (ReadBuffer ''........'' 8)) ?ops = (queue_view b', outs)
      \<and> ((\<forall>op\<in>set ?ops. lossless op) \<longrightarrow> outs @ pending b' = pending (ReadBuffer ''........'' 8) @ concat (map rb_input ?ops))"
    by (rule buffer_fifo)
  moreover have "pending (ReadBuffer ''........'' 8) = []" by (simp add: pending_def ReadBuffer_def received_bytes_def)
  ultimately show ?thesis by (auto simp del: impl_run.simps)
qed

text \<open>A run during which some lock is held all the time, and \<^verbatim>\<open>Reset\<close>, which ignores the locks, is not called.\<close>

fun locked_run :: "read_buffer \<Rightarrow> rb_op list \<Rightarrow> bool" where
  "locked_run b [] \<longleftrightarrow> recycle_lock_count b \<noteq> 0"
| "locked_run b (op # ops) \<longleftrightarrow> recycle_lock_count b \<noteq> 0 \<and> op \<noteq> Reset
     \<and> (case rb_step b op of None \<Rightarrow> True | Some (b', _) \<Rightarrow> locked_run b' ops)"

definition is_cut :: "rb_op \<Rightarrow> bool" where
  "is_cut op \<longleftrightarrow> (case op of Cut _ \<Rightarrow> True | _ \<Rightarrow> False)"

lemma locked_run_lock: "locked_run b ops \<Longrightarrow> recycle_lock_count b \<noteq> 0"
  by (cases ops) auto

lemma processed_grows:
  assumes "rb_bounds b" "n \<le> received_bytes b"
  shows "processed_offset b \<le> processed_offset b + n"
  using skip_view(3) [OF assms] by (simp add: word_le_nat_alt)

lemma take_same: "take n xs = take n ys \<Longrightarrow> m \<le> n \<Longrightarrow> take m xs = take m ys"
  by (metis min.absorb1 take_take)

lemma locked_step:
  assumes "rb_bounds b" "rb_ok b op" "rb_step b op = Some (b', out)" "recycle_lock_count b \<noteq> 0" "recycle_lock_count b' \<noteq> 0"
    and "op \<noteq> Reset"
  shows "take (unat (received_offset b)) (data b') = take (unat (received_offset b)) (data b)
    \<and> processed_offset b \<le> processed_offset b' \<and> (\<not> is_cut op \<longrightarrow> received_offset b \<le> received_offset b')"
proof (cases op)
  case (Receive xs)
  let ?c = "b\<lparr>parsed_offset := received_offset b\<rparr>"
  have fit: "length xs \<le> unat (free_space_size b)" using assms(2) Receive by simp
  have "unat (received_offset b) + length xs < 2 ^ 64"
    using fit unat_size_t [of "buffer_size b"] assms(1) unat_sub [of "received_offset b" "buffer_size b"]
    by (auto simp: free_space_size_def rb_bounds_def word_le_nat_alt)
  then have "received_offset b \<le> received_offset b + of_nat (length xs)"
    by (simp add: word_le_nat_alt unat_add_size_t unat_of_nat_size_t)
  moreover have "take (unat (received_offset b)) (data (socket_fill xs b)) = take (unat (received_offset b)) (data b)"
    using socket_fill_data(2) [of ?c xs] fit assms(1)
    by (simp add: bounds_inv free_space_size_def socket_fill_def free_space_begin_def)
  ultimately show ?thesis
    using assms(3) Receive by (auto simp: receive_def update_received_bytes_def) (simp_all add: socket_fill_def)
next
  case Forward
  have "rb_ok b (Process (unprocessed_bytes b))" using Forward_amount(2) [OF assms(1)] assms(2) Forward by simp
  with processed_grows [OF assms(1), of "unprocessed_bytes b"] assms(3,4) Forward show ?thesis
    by (auto simp: handed_on_def update_processed_bytes_def try_recycle_locked bind_eq_Some_conv)
next
  case (Process n)
  with processed_grows [OF assms(1), of n] assms(2-4) show ?thesis
    by (auto simp: handed_on_def update_processed_bytes_def try_recycle_locked bind_eq_Some_conv)
next
  case (Skip n)
  with processed_grows [OF assms(1), of n] assms(2,3) show ?thesis by (auto simp: update_processed_offset_def)
next
  case Unlock
  then have "recycle_lock_count b - 1 \<noteq> 0"
    using assms(3-5) by (auto simp: dec_recycle_lock_def try_recycle_buffer_def Let_def bind_eq_Some_conv split: if_split_asm)
  with assms(3) Unlock show ?thesis
    by (auto simp: dec_recycle_lock_def try_recycle_locked split: if_split_asm)
next
  case (Push bs parsed)
  with assms(1,2,3) show ?thesis by (auto simp: push_reply_data_def split: if_split_asm)
qed (use assms in \<open>auto simp: update_parsed_bytes_def inc_recycle_lock_def cut_received_tail_def is_cut_def\<close>)

text \<open>
  C14. Bytes that a socket is still sending do not move.  Over any sequence of calls under the caller's obligations during
  which some recycle lock is held all the time and \<^verbatim>\<open>Reset\<close> is not called, the bytes that have been handed on stay where they
  are, byte for byte; without \<^verbatim>\<open>cut_received_tail\<close> so do all received bytes, and both marks only grow.  (\<^verbatim>\<open>Reset\<close>, and so
  \<^verbatim>\<open>SetReplyData\<close>, which writes over the front of the buffer after it, does not look at the locks.)
\<close>

theorem locked_bytes_stay:
  assumes "rb_bounds b" "ok_run rb_ok rb_step b ops" "locked_run b ops" "impl_run rb_step b ops = Some (b', outs)"
  shows "take (unat (processed_offset b)) (data b') = take (unat (processed_offset b)) (data b)
    \<and> processed_offset b \<le> processed_offset b'
    \<and> ((\<forall>op\<in>set ops. \<not> is_cut op) \<longrightarrow>
        take (unat (received_offset b)) (data b') = take (unat (received_offset b)) (data b) \<and> received_offset b \<le> received_offset b')"
  using assms
proof (induction ops arbitrary: b outs)
  case (Cons op ops)
  then obtain c out outs' where c: "rb_step b op = Some (c, out)" "impl_run rb_step c ops = Some (b', outs')"
    by (auto simp: bind_eq_Some_conv)
  have ok: "rb_ok b op" "ok_run rb_ok rb_step c ops" "locked_run c ops" "op \<noteq> Reset" "recycle_lock_count b \<noteq> 0"
    using Cons.prems(2,3) c(1) by auto
  have inv: "rb_bounds c" using rb_queue.step_refines [OF Cons.prems(1) ok(1)] c(1) by auto
  note S = locked_step [OF Cons.prems(1) ok(1) c(1) ok(5) locked_run_lock [OF ok(3)] ok(4)]
  note I = Cons.IH [OF inv ok(2,3) c(2)]
  have pr: "unat (processed_offset b) \<le> unat (received_offset b)" by (rule bounds_pending(3) [OF Cons.prems(1)])
  have pp: "unat (processed_offset b) \<le> unat (processed_offset c)" using S by (simp add: word_le_nat_alt)
  have "take (unat (processed_offset b)) (data b') = take (unat (processed_offset b)) (data b)"
    using take_same [OF conjunct1 [OF I] pp] take_same [OF conjunct1 [OF S] pr] by simp
  moreover have "take (unat (received_offset b)) (data b') = take (unat (received_offset b)) (data b) \<and> received_offset b \<le> received_offset b'"
    if n: "\<forall>op\<in>set (op # ops). \<not> is_cut op"
  proof -
    have r: "received_offset b \<le> received_offset c" using S n by simp
    then have rr: "unat (received_offset b) \<le> unat (received_offset c)" by (simp add: word_le_nat_alt)
    have i: "take (unat (received_offset c)) (data b') = take (unat (received_offset c)) (data c)" "received_offset c \<le> received_offset b'"
      using I n by simp_all
    show ?thesis using take_same [OF i(1) rr] S r i(2) by (auto intro: order_trans)
  qed
  ultimately show ?case using S I by (auto intro: order_trans)
qed simp

theorem locked_bytes_stay_witness:
  "\<exists>b b' outs. recycle_lock_count b \<noteq> 0 \<and> impl_run rb_step b [Receive ''de'', Parse 5, Forward, Cut 0] = Some (b', outs)
     \<and> take 3 (data b) = ''abc'' \<and> take 3 (data b') = ''abc''"
proof -
  let ?b = "\<lparr>data = ''abc.....'', buffer_size = 8, processed_offset = 3, received_offset = 3,
             parsed_offset = 3, recycle_lock_count = 1\<rparr>"
  let ?ops' = "[Receive ''de'', Parse 5, Forward, Cut 0]"
  obtain b' outs where r: "impl_run rb_step ?b ?ops' = Some (b', outs)" by (simp add: rb_eval)
  have "take (unat (processed_offset ?b)) (data b') = take (unat (processed_offset ?b)) (data ?b)
    \<and> processed_offset ?b \<le> processed_offset b'
    \<and> ((\<forall>op\<in>set ?ops'. \<not> is_cut op) \<longrightarrow>
        take (unat (received_offset ?b)) (data b') = take (unat (received_offset ?b)) (data ?b) \<and> received_offset ?b \<le> received_offset b')"
    by (rule locked_bytes_stay [OF _ _ _ r]) (simp_all add: rb_bounds_def rb_eval)
  then have "take 3 (data b') = ''abc''" by simp
  with r show ?thesis by (intro exI [of _ ?b] exI [of _ b'] exI [of _ outs]) simp
qed

text \<open>
  C15. \<^verbatim>\<open>has_much_free_space\<close> says what its comment says, more than one third of the buffer is
  free, for every buffer of at most \<open>2 ^ 62\<close> bytes (the configuration allows 1 MB): the 64-bit
  products in the code do not wrap.
\<close>

theorem has_much_free_space_iff:
  assumes "rb_inv b" and "unat (buffer_size b) \<le> 2 ^ 62"
  shows "has_much_free_space b \<longleftrightarrow> unat (buffer_size b) < 3 * unat (free_space_size b)"
proof -
  have r: "unat (received_offset b) \<le> unat (buffer_size b)"
    using rb_invD(2) [OF assms(1)] .
  have "unat (received_offset b * 3) = unat (received_offset b) * 3"
    "unat (buffer_size b * 2) = unat (buffer_size b) * 2"
    using r assms(2) by (subst unat_mult_size_t; simp)+
  moreover have "unat (free_space_size b) = unat (buffer_size b) - unat (received_offset b)"
    using assms(1) by (simp add: free_space_size_def rb_inv_def unat_sub)
  ultimately show ?thesis
    using r by (auto simp: has_much_free_space_def word_less_nat_alt)
qed

theorem has_much_free_space_witness:
  "has_much_free_space ((ReadBuffer (replicate 9 NUL) 9)\<lparr>received_offset := 5\<rparr>)
     \<and> \<not> has_much_free_space ((ReadBuffer (replicate 9 NUL) 9)\<lparr>received_offset := 6\<rparr>)"
proof -
  let ?b = "ReadBuffer (replicate 9 NUL) 9"
  have "rb_inv (?b\<lparr>received_offset := r\<rparr>)" if "r \<le> 9" for r
    using that by (simp add: rb_inv_def ReadBuffer_def)
  then show ?thesis
    by (simp add: has_much_free_space_iff free_space_size_def ReadBuffer_def)
qed

end
