(* ===== verification/Error_Code.thy ===== *)
theory Error_Code
  imports Yarm_Prelude
begin

text \<open>
  The enumerations that all components share, \<^verbatim>\<open>error_code.h\<close> and \<^verbatim>\<open>protocol_type.h\<close>, and the
  text of an error code, \<^verbatim>\<open>error_code.cc\<close>.
\<close>

datatype ErrorCode =
    E_SUCCESS | E_CONNECT
  | E_READ_QUERY | E_WRITE_QUERY
  | E_READ_REPLY | E_WRITE_REPLY
  | E_PROTOCOL
  | E_BACKEND_CONNECT_TIMEOUT | E_BACKEND_WRITE_TIMEOUT | E_BACKEND_READ_TIMEOUT
  | E_OTHERS

datatype ProtocolType = NONE | REDIS | MEMCACHED

fun ErrorCodeString :: "ErrorCode \<Rightarrow> string" where
  "ErrorCodeString E_SUCCESS = ''E_SUCCESS''"
| "ErrorCodeString E_CONNECT = ''E_CONNECT''"
| "ErrorCodeString E_READ_QUERY = ''E_READ_QUERY''"
| "ErrorCodeString E_WRITE_QUERY = ''E_WRITE_QUERY''"
| "ErrorCodeString E_READ_REPLY = ''E_READ_REPLY''"
| "ErrorCodeString E_WRITE_REPLY = ''E_WRITE_REPLY''"
| "ErrorCodeString E_PROTOCOL = ''E_PROTOCOL''"
| "ErrorCodeString E_BACKEND_CONNECT_TIMEOUT = ''E_BACKEND_CONNECT_TIMEOUT''"
| "ErrorCodeString E_BACKEND_WRITE_TIMEOUT = ''E_BACKEND_WRITE_TIMEOUT''"
| "ErrorCodeString E_BACKEND_READ_TIMEOUT = ''E_BACKEND_READ_TIMEOUT''"
| "ErrorCodeString E_OTHERS = ''E_UNKNOWN''"

lemma ErrorCodeString_inj: "ErrorCodeString a = ErrorCodeString b \<longleftrightarrow> a = b"
  by (cases a; cases b) simp_all

lemma ErrorCodeString_line: "CR \<notin> set (ErrorCodeString e)" "LF \<notin> set (ErrorCodeString e)"
  by (cases e; simp)+

end
