(* ===== verification/Config_File.thy ===== *)
theory Config_File
  imports Error_Code "HOL-Library.Sublist"
begin

text \<open>
  The configuration, \<^verbatim>\<open>config.h\<close> and \<^verbatim>\<open>config.cc\<close>: the singleton as a record, the tokenizer, one
  function per \<^verbatim>\<open>Apply...Tokens\<close> method and the two traversals of the file, at start-up
  (\<^verbatim>\<open>Initialize\<close>) and on a reload (\<^verbatim>\<open>ReloadCulsters\<close>).

  The conversion of a dotted address, \<^verbatim>\<open>make_address_v4\<close>, is boost code: it is the parameter \<open>addr\<close>,
  which gives the 32-bit address or \<open>None\<close> for the exception.  The file system is a parameter that
  gives the content of the file, or \<open>None\<close> when it cannot be opened.  The result of a method is its
  return value with the new configuration; \<open>None\<close> is undefined behaviour.
\<close>

unbundle bit_operations_syntax

section \<open>The configuration\<close>

record Backend =
  host :: string
  port :: int
  weight :: size_t

record Cluster =
  protocol :: ProtocolType
  namespaces :: "string list"
  backends :: "Backend list"

record Config =
  config_file :: string
  pid_file :: string
  listen :: string
  daemonize :: bool
  backlog :: int
  worker_threads :: int
  max_namespace_length :: int
  log_file :: string
  log_level :: string
  client_idle_timeout :: int
  socket_rw_timeout :: int
  worker_max_idle_backends :: size_t
  conf_buffer_size :: size_t
  reserved_buffer_space :: size_t
  worker_cpu_affinity :: bool
  clusters :: "Cluster list"
  ctx :: string
  error_msg :: string

definition Config0 :: Config where
  "Config0 = \<lparr>config_file = '''', pid_file = ''/tmp/yarmproxy.pid'', listen = ''127.0.0.1:11311'',
     daemonize = False, backlog = 1024, worker_threads = 0, max_namespace_length = 4,
     log_file = ''./yarmproxy.log'', log_level = ''WARN'', client_idle_timeout = 60000,
     socket_rw_timeout = 500, worker_max_idle_backends = 64, conf_buffer_size = 4096,
     reserved_buffer_space = 0, worker_cpu_affinity = False, clusters = [], ctx = '''',
     error_msg = ''''\<rparr>"

type_synonym tokens = "string list"
type_synonym addr_parser = "string \<Rightarrow> 32 word option"
type_synonym 'a call = "(bool \<times> 'a) option"

definition fail :: "string \<Rightarrow> Config \<Rightarrow> Config call" where
  "fail msg c = Some (False, c\<lparr>error_msg := msg\<rparr>)"

definition PushSubcontext :: "string \<Rightarrow> Config \<Rightarrow> Config" where
  "PushSubcontext sub c = c\<lparr>ctx := ctx c @ CHR ''/'' # sub\<rparr>"

text \<open>\<^verbatim>\<open>substr(0, find_last_of('/'))\<close>: all of the string when there is no slash.\<close>

definition upto_last_slash :: "string \<Rightarrow> string" where
  "upto_last_slash s =
     (if CHR ''/'' \<in> set s then rev (tl (dropWhile (\<lambda>c. c \<noteq> CHR ''/'') (rev s))) else s)"

definition PopSubcontext :: "Config \<Rightarrow> Config" where
  "PopSubcontext c = c\<lparr>ctx := upto_last_slash (ctx c)\<rparr>"

text \<open>\<^verbatim>\<open>try { field = std::stoi(s); return true; } catch (...) { error_msg_ = ...; return false; }\<close>\<close>

definition set_int :: "(int \<Rightarrow> Config \<Rightarrow> Config) \<Rightarrow> string \<Rightarrow> Config \<Rightarrow> Config call" where
  "set_int upd s c =
     (case stoi s of Some i \<Rightarrow> Some (True, upd i c) | None \<Rightarrow> fail ''positive integer required'' c)"

definition ApplyGlobalTokens :: "tokens \<Rightarrow> Config \<Rightarrow> Config call" where
  "ApplyGlobalTokens ts c =
     (case ts of
        [] \<Rightarrow> None
      | [t0, t1] \<Rightarrow>
          if t0 = ''listen'' then Some (True, c\<lparr>listen := t1\<rparr>)
          else if t0 = ''daemonize'' then
            Some (True, c\<lparr>daemonize := t1 = ''true'' \<or> t1 = ''yes'' \<or> t1 = ''1''\<rparr>)
          else if t0 = ''pid_file'' then Some (True, c\<lparr>pid_file := t1\<rparr>)
          else if t0 = ''backlog'' then set_int (\<lambda>i c. c\<lparr>backlog := i\<rparr>) t1 c
          else if t0 = ''worker_threads'' then set_int (\<lambda>i c. c\<lparr>worker_threads := i\<rparr>) t1 c
          else if t0 = ''client_idle_timeout'' then
            set_int (\<lambda>i c. c\<lparr>client_idle_timeout := i\<rparr>) t1 c
          else if t0 = ''socket_rw_timeout'' then set_int (\<lambda>i c. c\<lparr>socket_rw_timeout := i\<rparr>) t1 c
          else if t0 = ''max_namespace_length'' then
            (case stoi t1 of
               Some i \<Rightarrow>
                 if i > 0 then Some (True, c\<lparr>max_namespace_length := i\<rparr>)
                 else fail ''positive integer required'' (c\<lparr>max_namespace_length := i\<rparr>)
             | None \<Rightarrow> fail ''positive integer required'' c)
          else if t0 = ''log_file'' then Some (True, c\<lparr>log_file := t1\<rparr>)
          else if t0 = ''log_level'' then Some (True, c\<lparr>log_level := t1\<rparr>)
          else if t0 = ''cluster'' \<and> t1 = ''{'' then
            Some (True, PushSubcontext t0
              (c\<lparr>clusters := clusters c @ [\<lparr>protocol = NONE, namespaces = [], backends = []\<rparr>]\<rparr>))
          else if t0 = ''worker'' \<and> t1 = ''{'' then Some (True, PushSubcontext t0 c)
          else fail (''unknown directive '' @ t0) c
      | t0 # _ \<Rightarrow> fail (''unknown directive '' @ t0) c)"

text \<open>\<^verbatim>\<open>(sz & (sz - 1)) != 0\<close> on \<^verbatim>\<open>int\<close>, undefined for the least \<^verbatim>\<open>int\<close>; the product with 1024 too when it overflows.\<close>

definition not_pow2 :: "int \<Rightarrow> bool option" where
  "not_pow2 sz = (if sz = - (2 ^ 31) then None else Some (sz AND (sz - 1) \<noteq> 0))"

definition kilo :: "int \<Rightarrow> size_t option" where
  "kilo sz = (if - (2 ^ 31) \<le> sz * 1024 \<and> sz * 1024 < 2 ^ 31 then Some (word_of_int (sz * 1024)) else None)"

definition close_block :: "Config \<Rightarrow> Config call" where
  "close_block c = (if ctx c = '''' then Some (False, c) else Some (True, PopSubcontext c))"

definition ApplyWorkerTokens :: "tokens \<Rightarrow> Config \<Rightarrow> Config call" where
  "ApplyWorkerTokens ts c =
     (if ts = [''}''] then close_block c
      else case ts of
        [t0, t1] \<Rightarrow>
          if t0 = ''max_idle_backends'' then
            (case stoi t1 of
               Some i \<Rightarrow> Some (True, c\<lparr>worker_max_idle_backends := word_of_int i\<rparr>)
             | None \<Rightarrow> fail ''bad nubmer'' c)
          else if t0 = ''cpu_affinity'' then
            Some (True, c\<lparr>worker_cpu_affinity := t1 = ''on'' \<or> t1 = ''1''\<rparr>)
          else if t0 = ''buffer_size'' then
            (case stoi t1 of
               Some sz \<Rightarrow>
                 if sz < 1 \<or> sz > 1024 then fail ''bad buffer size'' c
                 else do {
                   bad \<leftarrow> not_pow2 sz;
                   if bad then fail ''bad buffer size'' c
                   else do { b \<leftarrow> kilo sz; Some (True, c\<lparr>conf_buffer_size := b\<rparr>) }
                 }
             | None \<Rightarrow> fail ''bad number'' c)
          else if t0 = ''reserved_buffer_space'' then
            (case stoi t1 of
               Some sz \<Rightarrow> do {
                 bad \<leftarrow> not_pow2 sz;
                 if bad then fail ''bad buffer trunk size'' c
                 else do { b \<leftarrow> kilo sz; Some (True, c\<lparr>reserved_buffer_space := b\<rparr>) }
               }
             | None \<Rightarrow> fail ''bad number'' c)
          else fail ''unknown directive'' c
      | _ \<Rightarrow> fail ''bad token count'' c)"

text \<open>Update of \<^verbatim>\<open>clusters_.back()\<close>, undefined when there is no cluster.\<close>

definition upd_back :: "(Cluster \<Rightarrow> Cluster) \<Rightarrow> Config \<Rightarrow> Config call" where
  "upd_back f c =
     (if clusters c = [] then None
      else Some (True, c\<lparr>clusters := butlast (clusters c) @ [f (last (clusters c))]\<rparr>))"

text \<open>The block of \<^verbatim>\<open>ApplyClusterTokens\<close> for \<^verbatim>\<open>backend host:port weight\<close>.\<close>

definition apply_backend :: "addr_parser \<Rightarrow> string \<Rightarrow> string \<Rightarrow> Config \<Rightarrow> Config call" where
  "apply_backend addr ep w c =
     (if CHR '':'' \<notin> set ep then fail ''endpoint bad format'' c
      else
        let h = takeWhile (\<lambda>x. x \<noteq> CHR '':'') ep; p = tl (dropWhile (\<lambda>x. x \<noteq> CHR '':'') ep)
        in case (addr h, stoi p) of
             (Some _, Some prt) \<Rightarrow>
               (case stoi w of
                  Some wt \<Rightarrow>
                    if prt \<le> 0 \<or> wt \<le> 0 then fail ''illegal value'' c
                    else upd_back (\<lambda>cl. cl\<lparr>backends := backends cl @
                      [\<lparr>host = h, port = prt, weight = word_of_int wt\<rparr>]\<rparr>) c
                | None \<Rightarrow> fail ''bad weight'' c)
           | _ \<Rightarrow> fail ''bad endpoint'' c)"

definition ApplyClusterTokens :: "addr_parser \<Rightarrow> tokens \<Rightarrow> Config \<Rightarrow> Config call" where
  "ApplyClusterTokens addr ts c =
     (if ts = [''}''] then close_block c
      else case ts of
        [] \<Rightarrow> None
      | t0 # args \<Rightarrow>
          if t0 = ''protocol'' then
            (case args of
               [t1] \<Rightarrow>
                 if t1 = ''redis'' then upd_back (\<lambda>cl. cl\<lparr>protocol := REDIS\<rparr>) c
                 else if t1 = ''memcached'' then upd_back (\<lambda>cl. cl\<lparr>protocol := MEMCACHED\<rparr>) c
                 else fail ''unsupported protocol type'' c
             | _ \<Rightarrow> Some (False, c))
          else if t0 = ''namespace'' then
            (if args = [] then Some (False, c)
             else if \<exists>ns\<in>set args. of_nat (length ns) > (word_of_int (max_namespace_length c) :: size_t)
             then fail ''too long namespace length'' c
             else upd_back (\<lambda>cl. cl\<lparr>namespaces := namespaces cl @ args\<rparr>) c)
          else if t0 = ''backends'' then
            (if args = [''{''] then Some (True, PushSubcontext t0 c) else Some (False, c))
          else if t0 = ''backend'' then
            (if ctx c = ''/cluster/backends'' then
               (case args of [t1, t2] \<Rightarrow> apply_backend addr t1 t2 c | _ \<Rightarrow> Some (False, c))
             else fail ''backend must in context #cluster#backends'' c)
          else Some (False, c))"

definition ApplyTokens :: "addr_parser \<Rightarrow> tokens \<Rightarrow> Config \<Rightarrow> Config call" where
  "ApplyTokens addr ts c =
     (if ctx c = '''' then ApplyGlobalTokens ts c
      else if prefix ''/cluster'' (ctx c) then ApplyClusterTokens addr ts c
      else if ctx c = ''/worker'' then ApplyWorkerTokens ts c
      else fail (''unknown context '' @ ctx c) c)"

section \<open>The file\<close>

text \<open>\<^verbatim>\<open>TokenizeLine\<close>: the state is \<^verbatim>\<open>status\<close> (in a token or not) and the tokens so far.\<close>

fun tokenize_loop :: "string \<Rightarrow> bool \<Rightarrow> tokens \<Rightarrow> tokens" where
  "tokenize_loop [] st ts = ts"
| "tokenize_loop (ch # line) st ts =
     (if ch = CHR '';'' \<or> ch = CHR ''#'' then ts
      else if \<not> st then
        (if isspace ch then tokenize_loop line False ts
         else tokenize_loop line True (ts @ [[ch]]))
      else
        (if isspace ch then tokenize_loop line False ts
         else tokenize_loop line True (butlast ts @ [last ts @ [ch]])))"

definition TokenizeLine :: "string \<Rightarrow> tokens" where
  "TokenizeLine line = tokenize_loop line False []"

text \<open>The lines that \<^verbatim>\<open>std::getline\<close> delivers: an empty rest after the last newline is not a line.\<close>

fun getlines :: "string \<Rightarrow> string \<Rightarrow> string list" where
  "getlines acc [] = (if acc = [] then [] else [acc])"
| "getlines acc (ch # s) = (if ch = LF then acc # getlines [] s else getlines (acc @ [ch]) s)"

fun traverse_lines :: "(tokens \<Rightarrow> Config \<Rightarrow> Config call) \<Rightarrow> string list \<Rightarrow> Config \<Rightarrow> Config call" where
  "traverse_lines handler [] c = Some (True, c)"
| "traverse_lines handler (line # lines) c =
     (let ts = TokenizeLine line
      in if ts = [] then traverse_lines handler lines c
         else do {
           (ok, c') \<leftarrow> handler ts c;
           if ok then traverse_lines handler lines c' else Some (False, c')
         })"

definition TraverseConfFile ::
  "(string \<Rightarrow> string option) \<Rightarrow> (tokens \<Rightarrow> Config \<Rightarrow> Config call) \<Rightarrow> Config \<Rightarrow> Config call" where
  "TraverseConfFile fs handler c =
     (case fs (config_file c) of
        None \<Rightarrow> Some (False, c)
      | Some content \<Rightarrow> traverse_lines handler (getlines [] content) c)"

definition config_Initialize ::
  "addr_parser \<Rightarrow> (string \<Rightarrow> string option) \<Rightarrow> string \<Rightarrow> Config \<Rightarrow> Config call" where
  "config_Initialize addr fs conf_file c =
     TraverseConfFile fs (ApplyTokens addr) (c\<lparr>config_file := conf_file\<rparr>)"

definition reload_handler :: "addr_parser \<Rightarrow> tokens \<Rightarrow> Config \<Rightarrow> Config call" where
  "reload_handler addr ts c =
     (if ctx c = '''' then
        (case ts of
           [] \<Rightarrow> None
         | t0 # _ \<Rightarrow> if t0 \<noteq> ''cluster'' then Some (True, c) else ApplyTokens addr ts c)
      else if \<not> prefix ''/cluster'' (ctx c) then Some (True, c)
      else ApplyTokens addr ts c)"

definition ReloadCulsters ::
  "addr_parser \<Rightarrow> (string \<Rightarrow> string option) \<Rightarrow> Config \<Rightarrow> Config call" where
  "ReloadCulsters addr fs c = TraverseConfFile fs (reload_handler addr) (c\<lparr>clusters := []\<rparr>)"


section \<open>What a successful line does\<close>

lemma pow2_int:
  fixes x :: int
  assumes "0 < x" and "x AND (x - 1) = 0"
  shows "\<exists>k. x = 2 ^ k"
  using assms
proof (induction "nat x" arbitrary: x rule: less_induct)
  case less
  have r: "x AND (x - 1) = of_bool (odd x \<and> odd (x - 1)) + 2 * ((x div 2) AND ((x - 1) div 2))"
    by (rule and_rec)
  show ?case
  proof (cases "odd x")
    case True
    then have "(x - 1) div 2 = x div 2" by presburger
    with r True less.prems have "x div 2 = 0" by simp
    with True less.prems(1) have "x = 1" by presburger
    then have "x = 2 ^ 0" by simp
    then show ?thesis by blast
  next
    case False
    then have "(x - 1) div 2 = x div 2 - 1" by presburger
    with r False less.prems have "(x div 2) AND (x div 2 - 1) = 0" by simp
    moreover have "0 < x div 2" "nat (x div 2) < nat x"
      using False less.prems(1) by (presburger, auto)
    ultimately obtain k where "x div 2 = 2 ^ k" using less.hyps by blast
    with False have "x = 2 ^ Suc k" by (metis even_two_times_div_two power_Suc)
    then show ?thesis by blast
  qed
qed

lemma kilo_pow2:
  assumes "kilo sz = Some b" and "not_pow2 sz = Some False"
  shows "sz = 0 \<and> b = 0 \<or> (\<exists>k. k \<le> 20 \<and> unat b = 1024 * 2 ^ k \<and> sz = 2 ^ k)"
proof (cases "0 < sz")
  case True
  then obtain k where k: "sz = 2 ^ k"
    using assms(2) pow2_int by (auto simp: not_pow2_def split: if_splits)
  have b: "b = word_of_int (sz * 1024)" and "sz * 1024 < 2 ^ 31"
    using assms(1) by (auto simp: kilo_def split: if_splits)
  then have "(2 :: int) ^ k < 2 ^ 21" using k by simp
  then have "k < 21" by (simp only: power_strict_increasing_iff)
  moreover have "b = of_nat (1024 * 2 ^ k)" using b k by simp
  moreover have "(1024 :: nat) * 2 ^ k \<le> 1024 * 2 ^ 20"
    using \<open>k < 21\<close> by (intro mult_left_mono power_increasing) auto
  moreover from this have "(1024 :: nat) * 2 ^ k < 2 ^ 64"
    by (rule le_less_trans) simp
  ultimately have "unat b = 1024 * 2 ^ k"
    using unat_of_nat_size_t by blast
  with k \<open>k < 21\<close> show ?thesis by (intro disjI2 exI [of _ k]) auto
next
  case False
  have "sz = 0"
  proof (rule ccontr)
    assume "sz \<noteq> 0"
    with False have "sz < 0" by simp
    then have "sz AND (sz - 1) \<noteq> 0"
      by (metis and_negative_int_iff diff_strict_right_mono less_irrefl less_trans zero_less_one diff_0 neg_less_0_iff_less)
    with assms(2) show False by (simp add: not_pow2_def split: if_splits)
  qed
  with assms(1) show ?thesis by (auto simp: kilo_def)
qed

lemma fail_not_ok [simp]: "fail msg c \<noteq> Some (True, c')"
  by (simp add: fail_def)

lemma global_cases:
  assumes "ApplyGlobalTokens ts c = Some (True, c')"
  obtains (cluster) "ts = [''cluster'', ''{'']"
      "c' = PushSubcontext ''cluster''
         (c\<lparr>clusters := clusters c @ [\<lparr>protocol = NONE, namespaces = [], backends = []\<rparr>]\<rparr>)"
  | (worker) "ts = [''worker'', ''{'']" "c' = PushSubcontext ''worker'' c"
  | (field) "hd ts \<noteq> ''cluster''" "config_file c' = config_file c" "clusters c' = clusters c" "ctx c' = ctx c"
      "conf_buffer_size c' = conf_buffer_size c" "reserved_buffer_space c' = reserved_buffer_space c"
      "max_namespace_length c' = max_namespace_length c
         \<or> 0 < max_namespace_length c' \<and> max_namespace_length c' < 2 ^ 31"
proof -
  obtain t0 t1 where ts: "ts = [t0, t1]"
    using assms by (auto simp: ApplyGlobalTokens_def split: list.splits)
  show ?thesis
  proof (cases "t0 = ''cluster'' \<or> t0 = ''worker''")
    case True
    with assms ts cluster worker show ?thesis
      by (auto simp: ApplyGlobalTokens_def split: if_splits)
  next
    case False
    show ?thesis
      by (rule field) (use assms ts False in
        \<open>auto simp: ApplyGlobalTokens_def set_int_def dest: stoi_bounds split: if_splits option.splits\<close>)
  qed
qed

lemma worker_cases:
  assumes "ApplyWorkerTokens ts c = Some (True, c')"
  obtains (close) "ts = [''}'']" "c' = PopSubcontext c"
  | (field) "hd ts \<noteq> ''cluster''" "config_file c' = config_file c" "clusters c' = clusters c" "ctx c' = ctx c"
      "max_namespace_length c' = max_namespace_length c"
      "conf_buffer_size c' = conf_buffer_size c \<or> (\<exists>k\<le>10. unat (conf_buffer_size c') = 1024 * 2 ^ k)"
      "reserved_buffer_space c' = reserved_buffer_space c \<or> reserved_buffer_space c' = 0
         \<or> (\<exists>k\<le>20. unat (reserved_buffer_space c') = 1024 * 2 ^ k)"
proof (cases "ts = [''}'']")
  case True
  with assms close show ?thesis
    by (auto simp: ApplyWorkerTokens_def close_block_def split: if_splits)
next
  case False
  then obtain t0 t1 where ts: "ts = [t0, t1]"
    using assms by (auto simp: ApplyWorkerTokens_def split: list.splits)
  have kb: "\<exists>k\<le>10. unat b = 1024 * 2 ^ k"
    if *: "kilo sz = Some b" "not_pow2 sz = Some False" "1 \<le> sz" "sz \<le> 1024" for sz b
  proof -
    obtain k where k: "unat b = 1024 * 2 ^ k" "sz = 2 ^ k"
      using kilo_pow2 [OF *(1,2)] *(3) by auto
    then have "(2 :: int) ^ k \<le> 2 ^ 10" using *(4) by simp
    then have "k \<le> 10" by (simp only: power_increasing_iff)
    with k show ?thesis by blast
  qed
  have kr: "b = 0 \<or> (\<exists>k\<le>20. unat b = 1024 * 2 ^ k)"
    if "kilo sz = Some b" "not_pow2 sz = Some False" for sz b
    using kilo_pow2 [OF that] by auto
  show ?thesis
    by (rule field) (use assms ts False kb in
      \<open>auto simp: ApplyWorkerTokens_def bind_eq_Some_conv dest: kr split: if_splits option.splits\<close>)
qed


lemma upd_back_ok:
  "upd_back f c = Some (b, c') \<longleftrightarrow>
     b \<and> clusters c \<noteq> [] \<and> c' = c\<lparr>clusters := butlast (clusters c) @ [f (last (clusters c))]\<rparr>"
  by (auto simp: upd_back_def)

lemma cluster_cases:
  assumes "ApplyClusterTokens addr ts c = Some (True, c')"
  obtains (close) "ts = [''}'']" "c' = PopSubcontext c"
  | (push) "ts = [''backends'', ''{'']" "c' = PushSubcontext ''backends'' c"
  | (upd) f where "c' = c\<lparr>clusters := butlast (clusters c) @ [f (last (clusters c))]\<rparr>"
      "clusters c \<noteq> []"
      "\<And>cl. namespaces (f cl) = namespaces cl @ (if hd ts = ''namespace'' then tl ts else [])"
      "\<And>cl. \<exists>bs. backends (f cl) = backends cl @ bs \<and>
         (\<forall>b\<in>set bs. addr (host b) \<noteq> None \<and> 0 < port b \<and> port b < 2 ^ 31
           \<and> 0 < unat (weight b) \<and> unat (weight b) < 2 ^ 31)"
proof (cases "ts = [''}'']")
  case True
  with assms close show ?thesis
    by (auto simp: ApplyClusterTokens_def close_block_def split: if_splits)
next
  case False
  then obtain t0 args where ts: "ts = t0 # args"
    using assms by (auto simp: ApplyClusterTokens_def split: list.splits)
  consider "t0 = ''protocol''" | "t0 = ''namespace''" | "t0 = ''backends''" | "t0 = ''backend''"
    using assms False ts by (auto simp: ApplyClusterTokens_def split: if_splits)
  then show ?thesis
  proof cases
    case 1
    then obtain p where "upd_back (\<lambda>cl. cl\<lparr>protocol := p\<rparr>) c = Some (True, c')"
      using assms ts by (auto simp: ApplyClusterTokens_def split: if_splits list.splits)
    then show ?thesis
      by (intro upd [of "\<lambda>cl. cl\<lparr>protocol := p\<rparr>"]) (simp_all add: upd_back_ok ts 1)
  next
    case 2
    then have "upd_back (\<lambda>cl. cl\<lparr>namespaces := namespaces cl @ args\<rparr>) c = Some (True, c')"
      using assms ts by (auto simp: ApplyClusterTokens_def split: if_splits)
    then show ?thesis
      by (intro upd [of "\<lambda>cl. cl\<lparr>namespaces := namespaces cl @ args\<rparr>"]) (simp_all add: upd_back_ok ts 2)
  next
    case 3
    then show ?thesis
      using assms ts push by (auto simp: ApplyClusterTokens_def split: if_splits)
  next
    case 4
    then obtain ep w where a: "args = [ep, w]" "apply_backend addr ep w c = Some (True, c')"
      using assms ts by (auto simp: ApplyClusterTokens_def split: if_splits list.splits)
    define h s where hs: "h = takeWhile (\<lambda>x. x \<noteq> CHR '':'') ep" "s = tl (dropWhile (\<lambda>x. x \<noteq> CHR '':'') ep)"
    with a(2) obtain prt wt where
      b: "addr h \<noteq> None" "stoi w = Some wt" "0 < prt" "0 < wt" "stoi s = Some prt"
      and u: "upd_back (\<lambda>cl. cl\<lparr>backends := backends cl @
        [\<lparr>host = h, port = prt, weight = word_of_int wt\<rparr>]\<rparr>) c = Some (True, c')"
      by (auto simp: apply_backend_def Let_def not_le split: if_splits option.splits)
    have "wt < 2 ^ 31" "prt < 2 ^ 31"
      using stoi_bounds b(2,5) by auto
    with b(4) have "unat (word_of_int wt :: size_t) = nat wt"
      by (simp add: unat_eq_nat_uint uint_word_of_int)
    then show ?thesis
      using b u \<open>wt < 2 ^ 31\<close> \<open>prt < 2 ^ 31\<close> ts 4
      by (intro upd [of "\<lambda>cl. cl\<lparr>backends := backends cl @
            [\<lparr>host = h, port = prt, weight = word_of_int wt\<rparr>]\<rparr>"]) (simp_all add: upd_back_ok)
  qed
qed

section \<open>The invariant of the configuration\<close>

definition valid_ctx :: "string \<Rightarrow> bool" where
  "valid_ctx s \<longleftrightarrow> s = '''' \<or> s = ''/worker'' \<or> (\<exists>n. s = ''/cluster'' @ concat (replicate n ''/backends''))"

definition backend_ok :: "addr_parser \<Rightarrow> Backend \<Rightarrow> bool" where
  "backend_ok addr b \<longleftrightarrow> addr (host b) \<noteq> None \<and> 0 < port b \<and> port b < 2 ^ 31
     \<and> 0 < unat (weight b) \<and> unat (weight b) < 2 ^ 31"

definition config_ok :: "addr_parser \<Rightarrow> Config \<Rightarrow> bool" where
  "config_ok addr c \<longleftrightarrow>
     valid_ctx (ctx c) \<and> (prefix ''/cluster'' (ctx c) \<longrightarrow> clusters c \<noteq> [])
     \<and> 0 < max_namespace_length c \<and> max_namespace_length c < 2 ^ 31
     \<and> (\<exists>k\<le>10. unat (conf_buffer_size c) = 1024 * 2 ^ k)
     \<and> (reserved_buffer_space c = 0 \<or> (\<exists>k\<le>20. unat (reserved_buffer_space c) = 1024 * 2 ^ k))
     \<and> (\<forall>cl\<in>set (clusters c). \<forall>b\<in>set (backends cl). backend_ok addr b)"

lemma Config0_ok: "config_ok addr (Config0\<lparr>config_file := f\<rparr>)"
  by (auto simp: config_ok_def Config0_def valid_ctx_def intro: exI [of _ 2])

lemma upto_last_slash: "CHR ''/'' \<notin> set t \<Longrightarrow> upto_last_slash (s @ CHR ''/'' # t) = s"
  by (auto simp: upto_last_slash_def dropWhile_append)

lemma pop_backends:
  "upto_last_slash (''/cluster'' @ concat (replicate n ''/backends'')) =
     (if n = 0 then '''' else ''/cluster'' @ concat (replicate (n - 1) ''/backends''))"
proof (cases n)
  case 0
  then show ?thesis using upto_last_slash [of "''cluster''" "[]"] by simp
next
  case (Suc k)
  have "concat (replicate n ''/backends'') = concat (replicate k ''/backends'' @ [''/backends''])"
    unfolding Suc replicate_append_same by simp
  then show ?thesis
    using Suc upto_last_slash [of "''backends''" "''/cluster'' @ concat (replicate k ''/backends'')"] by simp
qed

lemma valid_ctx_pop: "valid_ctx s \<Longrightarrow> s \<noteq> '''' \<Longrightarrow> valid_ctx (upto_last_slash s)"
  unfolding valid_ctx_def
proof (elim disjE exE)
  fix n
  assume s: "s = ''/cluster'' @ concat (replicate n ''/backends'')"
  show "upto_last_slash s = [] \<or> upto_last_slash s = ''/worker''
    \<or> (\<exists>n. upto_last_slash s = ''/cluster'' @ concat (replicate n ''/backends''))"
    unfolding s pop_backends by auto
qed (use upto_last_slash [of "''worker''" "[]"] in simp_all)

lemma valid_ctx_push: "valid_ctx s \<Longrightarrow> prefix ''/cluster'' s \<Longrightarrow> valid_ctx (s @ ''/backends'')"
proof -
  assume "valid_ctx s" "prefix ''/cluster'' s"
  then obtain n where "s = ''/cluster'' @ concat (replicate n ''/backends'')"
    by (auto simp: valid_ctx_def)
  then have "s @ ''/backends'' = ''/cluster'' @ concat (replicate n ''/backends'' @ [''/backends''])"
    by simp
  then show ?thesis unfolding replicate_append_same valid_ctx_def by (metis replicate_Suc)
qed

lemma cluster_ctx: "valid_ctx s \<Longrightarrow> s \<noteq> '''' \<Longrightarrow> s \<noteq> ''/worker'' \<Longrightarrow> prefix ''/cluster'' s"
  by (auto simp: valid_ctx_def)

lemma ApplyTokens_ok:
  assumes ok: "config_ok addr c" and st: "ApplyTokens addr ts c = Some (True, c')"
  shows "config_ok addr c'"
proof -
  have v: "valid_ctx (ctx c)" using ok by (simp add: config_ok_def)
  consider "ctx c = ''''" | "ctx c = ''/worker''" | "prefix ''/cluster'' (ctx c)" "ctx c \<noteq> ''''"
    using cluster_ctx [OF v] by blast
  then show ?thesis
  proof cases
    case 1
    with st have "ApplyGlobalTokens ts c = Some (True, c')" by (simp add: ApplyTokens_def)
    then show ?thesis
    proof (cases rule: global_cases)
      case cluster
      with ok 1 show ?thesis
        by (auto simp: config_ok_def PushSubcontext_def valid_ctx_def intro: exI [of _ 0])
    next
      case worker
      with ok 1 show ?thesis by (auto simp: config_ok_def PushSubcontext_def valid_ctx_def)
    next
      case field
      with ok show ?thesis by (auto simp: config_ok_def)
    qed
  next
    case 2
    with st have "ApplyWorkerTokens ts c = Some (True, c')" by (simp add: ApplyTokens_def)
    then show ?thesis
    proof (cases rule: worker_cases)
      case close
      have "upto_last_slash (ctx c) = ''''" using 2 upto_last_slash [of "''worker''" "[]"] by simp
      with ok close show ?thesis by (simp add: config_ok_def PopSubcontext_def valid_ctx_def)
    next
      case field
      then show ?thesis using ok by (auto simp: config_ok_def)
    qed
  next
    case 3
    with st have "ApplyClusterTokens addr ts c = Some (True, c')" by (simp add: ApplyTokens_def)
    then show ?thesis
    proof (cases rule: cluster_cases)
      case close
      with ok 3 show ?thesis
        by (auto simp: config_ok_def PopSubcontext_def valid_ctx_pop)
    next
      case push
      with ok 3 show ?thesis
        using valid_ctx_push [OF v 3(1)] by (auto simp: config_ok_def PushSubcontext_def)
    next
      case (upd f)
      have old: "\<forall>b\<in>set (backends cl). backend_ok addr b" if "cl \<in> set (clusters c)" for cl
        using ok that by (simp add: config_ok_def)
      obtain bs where "backends (f (last (clusters c))) = backends (last (clusters c)) @ bs"
        "\<forall>b\<in>set bs. backend_ok addr b"
        using upd(4) [of "last (clusters c)"] unfolding backend_ok_def by blast
      then have "\<forall>b\<in>set (backends (f (last (clusters c)))). backend_ok addr b"
        using old [of "last (clusters c)"] upd(2) by auto
      moreover have "\<forall>cl\<in>set (butlast (clusters c)). \<forall>b\<in>set (backends cl). backend_ok addr b"
        using old in_set_butlastD by metis
      ultimately show ?thesis
        using ok upd(1) by (auto simp: config_ok_def)
    qed
  qed
qed

lemma traverse_inv:
  assumes "traverse_lines handler lines c = Some (True, c')" and "I c"
    and "\<And>ts c c'. I c \<Longrightarrow> handler ts c = Some (True, c') \<Longrightarrow> I c'"
  shows "I c'"
  using assms(1,2)
proof (induction lines arbitrary: c)
  case (Cons line lines)
  show ?case
  proof (cases "TokenizeLine line = []")
    case False
    with Cons.prems(1) obtain c1 where "handler (TokenizeLine line) c = Some (True, c1)"
      "traverse_lines handler lines c1 = Some (True, c')"
      by (auto simp: Let_def bind_eq_Some_conv split: if_splits)
    with Cons assms(3) show ?thesis by blast
  qed (use Cons in simp)
qed simp

text \<open>
  C22. Every configuration that \<^verbatim>\<open>Initialize\<close> accepts is well formed: the buffer size is
  a power of two between 1 KiB and 1 MiB, the reserved space is 0 or a power of two up to 1 GiB, the namespace
  limit is positive, and every backend has an address that parses, a positive port and a positive weight below
  \<open>2\<^sup>3\<^sup>1\<close>. Timeouts, the backlog, the number of threads and the limit of idle
  connections are not checked by the code.
\<close>

theorem config_Initialize_ok:
  assumes "config_Initialize addr fs f Config0 = Some (True, c)"
  shows "config_ok addr c"
  using assms traverse_inv [of "ApplyTokens addr" _ "Config0\<lparr>config_file := f\<rparr>" c "config_ok addr"]
    Config0_ok ApplyTokens_ok
  by (auto simp: config_Initialize_def TraverseConfFile_def split: option.splits)

section \<open>Reloading the same file\<close>

definition all_namespaces :: "Config \<Rightarrow> string set" where
  "all_namespaces c = (\<Union>cl\<in>set (clusters c). set (namespaces cl))"

lemma all_namespaces_simps [simp]:
  "all_namespaces (PushSubcontext s c) = all_namespaces c" "all_namespaces (PopSubcontext c) = all_namespaces c"
  by (simp_all add: all_namespaces_def PushSubcontext_def PopSubcontext_def)

lemma all_namespaces_upd:
  assumes "clusters c \<noteq> []" and "set (namespaces (last (clusters c))) \<subseteq> set (namespaces cl)"
  shows "all_namespaces c \<subseteq> all_namespaces (c\<lparr>clusters := butlast (clusters c) @ [cl]\<rparr>)"
proof -
  have "set (clusters c) = insert (last (clusters c)) (set (butlast (clusters c)))"
    using assms(1) by (metis append_butlast_last_id list.set(2) rotate1.simps(2) set_rotate1)
  with assms(2) show ?thesis by (auto simp: all_namespaces_def)
qed

lemma namespaces_grow:
  assumes "config_ok addr c" and "ApplyTokens addr ts c = Some (True, c')"
  shows "all_namespaces c \<subseteq> all_namespaces c'"
proof -
  have v: "valid_ctx (ctx c)" using assms(1) by (simp add: config_ok_def)
  consider "ApplyGlobalTokens ts c = Some (True, c')" | "ApplyWorkerTokens ts c = Some (True, c')"
    | "ApplyClusterTokens addr ts c = Some (True, c')"
    using assms(2) by (auto simp: ApplyTokens_def split: if_splits)
  then show ?thesis
  proof cases
    case 1
    then show ?thesis
      by (cases rule: global_cases) (auto simp: all_namespaces_def PushSubcontext_def)
  next
    case 2
    then show ?thesis
      by (cases rule: worker_cases) (auto simp: all_namespaces_def PopSubcontext_def)
  next
    case 3
    then show ?thesis
    proof (cases rule: cluster_cases)
      case (upd f)
      have "set (namespaces (last (clusters c))) \<subseteq> set (namespaces (f (last (clusters c))))"
        by (simp add: upd(3))
      from all_namespaces_upd [OF upd(2) this] upd(1) show ?thesis by simp
    qed simp_all
  qed
qed

definition outside_worker :: "string \<Rightarrow> string" where
  "outside_worker s = (if s = ''/worker'' then '''' else s)"

lemma cluster_lockstep:
  assumes "ApplyClusterTokens addr ts s = Some (True, s')"
    and "clusters r = clusters s" "ctx r = ctx s"
    and "\<forall>ns\<in>all_namespaces s'. \<not> of_nat (length ns) > (word_of_int (max_namespace_length r) :: size_t)"
  shows "ApplyClusterTokens addr ts r = Some (True, r\<lparr>clusters := clusters s', ctx := ctx s'\<rparr>)"
proof (cases "\<exists>args. ts = ''namespace'' # args")
  case True
  then obtain args where ts: "ts = ''namespace'' # args" by blast
  with assms(1) have u: "upd_back (\<lambda>cl. cl\<lparr>namespaces := namespaces cl @ args\<rparr>) s = Some (True, s')"
    and "args \<noteq> []"
    by (auto simp: ApplyClusterTokens_def split: if_splits)
  moreover have "set args \<subseteq> all_namespaces s'"
    using u by (auto simp: upd_back_ok all_namespaces_def)
  ultimately show ?thesis
    using ts assms(2-4) by (auto simp: ApplyClusterTokens_def upd_back_ok)
next
  case False
  have ub: "upd_back f r = Some (True, r\<lparr>clusters := clusters s', ctx := ctx s'\<rparr>)"
    if "upd_back f s = Some (True, s')" for f
    using that assms(2,3) by (auto simp: upd_back_ok)
  consider "ts = [''}'']" | args where "ts = ''protocol'' # args" | "ts = [''backends'', ''{'']"
    | ep w where "ts = [''backend'', ep, w]" "ctx s = ''/cluster/backends''"
      "apply_backend addr ep w s = Some (True, s')"
    using assms(1) False
    by (auto simp: ApplyClusterTokens_def split: if_splits list.splits)
  then show ?thesis
  proof cases
    case 4
    then have "apply_backend addr ep w r = Some (True, r\<lparr>clusters := clusters s', ctx := ctx s'\<rparr>)"
      using ub by (auto simp: apply_backend_def Let_def split: if_splits option.splits)
    with 4 assms(3) show ?thesis by (simp add: ApplyClusterTokens_def)
  next
    case 2
    with assms(1) ub show ?thesis
      by (auto simp: ApplyClusterTokens_def split: if_splits list.splits)
  next
    case 1
    then have "ctx s \<noteq> ''''" "s' = PopSubcontext s"
      using assms(1) by (auto simp: ApplyClusterTokens_def close_block_def split: if_splits)
    with 1 show ?thesis
      using assms(2,3)
      by (simp add: ApplyClusterTokens_def close_block_def PopSubcontext_def Config.equality)
  next
    case 3
    then have "s' = PushSubcontext ''backends'' s"
      using assms(1) by (simp add: ApplyClusterTokens_def)
    with 3 show ?thesis
      using assms(2,3) by (simp add: ApplyClusterTokens_def PushSubcontext_def Config.equality)
  qed
qed

lemma config_file_same:
  assumes "ApplyTokens addr ts c = Some (True, c')"
  shows "config_file c' = config_file c"
proof -
  consider "ApplyGlobalTokens ts c = Some (True, c')" | "ApplyWorkerTokens ts c = Some (True, c')"
    | "ApplyClusterTokens addr ts c = Some (True, c')"
    using assms by (auto simp: ApplyTokens_def split: if_splits)
  then show ?thesis
  proof cases
    case 1
    then show ?thesis by (cases rule: global_cases) (simp_all add: PushSubcontext_def)
  next
    case 2
    then show ?thesis by (cases rule: worker_cases) (simp_all add: PopSubcontext_def)
  next
    case 3
    then show ?thesis
      by (cases rule: cluster_cases) (simp_all add: PushSubcontext_def PopSubcontext_def)
  qed
qed

lemma reload_step:
  assumes ok: "config_ok addr s" and st: "ApplyTokens addr ts s = Some (True, s')" and "ts \<noteq> []"
    and r: "clusters r = clusters s" "ctx r = outside_worker (ctx s)"
    and fit: "\<forall>ns\<in>all_namespaces s'. \<not> of_nat (length ns) > (word_of_int (max_namespace_length r) :: size_t)"
  shows "reload_handler addr ts r = Some (True, r\<lparr>clusters := clusters s', ctx := outside_worker (ctx s')\<rparr>)"
proof -
  obtain t0 args where ts: "ts = t0 # args" using assms(3) by (cases ts) auto
  have skip: ?thesis
    if "reload_handler addr ts r = Some (True, r)" "clusters s' = clusters s"
      "outside_worker (ctx s') = outside_worker (ctx s)"
    using that r by (simp add: Config.equality)
  have v: "valid_ctx (ctx s)" using ok by (simp add: config_ok_def)
  consider "ctx s = ''''" | "ctx s = ''/worker''" | "prefix ''/cluster'' (ctx s)" "ctx s \<noteq> ''''"
    using cluster_ctx [OF v] by blast
  then show ?thesis
  proof cases
    case 1
    with st have "ApplyGlobalTokens ts s = Some (True, s')" by (simp add: ApplyTokens_def)
    then show ?thesis
    proof (cases rule: global_cases)
      case cluster
      with 1 r show ?thesis
        by (simp add: reload_handler_def ApplyTokens_def ApplyGlobalTokens_def PushSubcontext_def
            outside_worker_def)
    next
      case worker
      with 1 r show ?thesis
        by (intro skip) (simp_all add: reload_handler_def PushSubcontext_def outside_worker_def)
    next
      case field
      with 1 r ts show ?thesis
        by (intro skip) (simp_all add: reload_handler_def outside_worker_def)
    qed
  next
    case 2
    with st have "ApplyWorkerTokens ts s = Some (True, s')" by (simp add: ApplyTokens_def)
    then show ?thesis
    proof (cases rule: worker_cases)
      case close
      with 2 r show ?thesis
        using upto_last_slash [of "''worker''" "[]"]
        by (intro skip) (simp_all add: reload_handler_def PopSubcontext_def outside_worker_def)
    next
      case field
      with 2 r ts show ?thesis
        by (intro skip) (simp_all add: reload_handler_def outside_worker_def)
    qed
  next
    case 3
    then have nw: "outside_worker (ctx s) = ctx s" by (auto simp: outside_worker_def)
    have cl: "ApplyClusterTokens addr ts s = Some (True, s')"
      using 3 st by (simp add: ApplyTokens_def)
    then have "outside_worker (ctx s') = ctx s'"
    proof (cases rule: cluster_cases)
      case close
      obtain n where "ctx s = ''/cluster'' @ concat (replicate n ''/backends'')"
        using 3 v by (auto simp: valid_ctx_def)
      with close show ?thesis
        using pop_backends [of n] by (auto simp: PopSubcontext_def outside_worker_def)
    qed (use 3 in \<open>auto simp: outside_worker_def PushSubcontext_def\<close>)
    with cluster_lockstep [OF cl r(1) _ fit] 3 nw r show ?thesis
      by (simp add: reload_handler_def ApplyTokens_def)
  qed
qed

lemma grow_to_end:
  "traverse_lines (ApplyTokens addr) lines s = Some (True, c) \<Longrightarrow> config_ok addr s
   \<Longrightarrow> all_namespaces s \<subseteq> all_namespaces c"
  using traverse_inv [of "ApplyTokens addr" lines s c
      "\<lambda>c. config_ok addr c \<and> all_namespaces s \<subseteq> all_namespaces c"]
    ApplyTokens_ok [of addr] namespaces_grow [of addr] by blast

lemma reload_lines:
  assumes "traverse_lines (ApplyTokens addr) lines s = Some (True, c)" and "config_ok addr s"
    and "clusters r = clusters s" "ctx r = outside_worker (ctx s)"
    and "\<forall>ns\<in>all_namespaces c. \<not> of_nat (length ns) > (word_of_int (max_namespace_length r) :: size_t)"
  shows "traverse_lines (reload_handler addr) lines r
    = Some (True, r\<lparr>clusters := clusters c, ctx := outside_worker (ctx c)\<rparr>)"
  using assms
proof (induction lines arbitrary: s r)
  case Nil
  then show ?case by (simp add: Config.equality)
next
  case (Cons line lines)
  show ?case
  proof (cases "TokenizeLine line = []")
    case True
    with Cons show ?thesis by simp
  next
    case False
    with Cons.prems(1) obtain s' where st: "ApplyTokens addr (TokenizeLine line) s = Some (True, s')"
      and tr: "traverse_lines (ApplyTokens addr) lines s' = Some (True, c)"
      by (auto simp: Let_def bind_eq_Some_conv split: if_splits)
    have ok': "config_ok addr s'" using ApplyTokens_ok [OF Cons.prems(2) st] .
    let ?r = "r\<lparr>clusters := clusters s', ctx := outside_worker (ctx s')\<rparr>"
    have "reload_handler addr (TokenizeLine line) r = Some (True, ?r)"
      using reload_step [OF Cons.prems(2) st False Cons.prems(3,4)] grow_to_end [OF tr ok'] Cons.prems(5)
      by blast
    then show ?thesis
      using Cons.IH [OF tr ok', of ?r] Cons.prems(5) False by (simp add: Let_def)
  qed
qed

text \<open>
  C23. A reload of an unchanged file changes nothing.  If \<^verbatim>\<open>Initialize\<close> accepted the file, all blocks were
  closed, and no namespace is longer than the final limit, then \<^verbatim>\<open>ReloadCulsters\<close> succeeds and the
  configuration is exactly the one before: it skips the global lines and the worker block, and
  rebuilds the same clusters in the same order.
\<close>

theorem reload_same:
  assumes "config_Initialize addr fs f Config0 = Some (True, c)" and "ctx c = ''''"
    and "\<forall>ns\<in>all_namespaces c. int (length ns) \<le> max_namespace_length c"
  shows "ReloadCulsters addr fs c = Some (True, c)"
proof -
  let ?s = "Config0\<lparr>config_file := f\<rparr>"
  have "config_ok addr c"
    using assms(1) traverse_inv [of "ApplyTokens addr" _ ?s c "config_ok addr"] Config0_ok ApplyTokens_ok
    by (auto simp: config_Initialize_def TraverseConfFile_def split: option.splits)
  then have m: "0 < max_namespace_length c" "max_namespace_length c < 2 ^ 31"
    by (simp_all add: config_ok_def)
  have fit: "\<not> of_nat (length ns) > (word_of_int (max_namespace_length c) :: size_t)"
    if "ns \<in> all_namespaces c" for ns
  proof -
    have "int (length ns) \<le> max_namespace_length c" using assms(3) that by blast
    then have "of_nat (length ns) \<le> (of_nat (nat (max_namespace_length c)) :: size_t)"
      using m by (subst of_nat_size_t_le) auto
    moreover have "(of_nat (nat (max_namespace_length c)) :: size_t) = of_int (max_namespace_length c)"
      using m(1) by (intro of_nat_nat) simp
    ultimately show ?thesis by (simp only: not_less)
  qed
  obtain content where fs: "fs f = Some content"
    and tr: "traverse_lines (ApplyTokens addr) (getlines [] content) ?s = Some (True, c)"
    using assms(1) by (auto simp: config_Initialize_def TraverseConfFile_def split: option.splits)
  have "config_file c = f"
    using traverse_inv [OF tr, of "\<lambda>c. config_file c = f"] config_file_same by simp
  moreover have "traverse_lines (reload_handler addr) (getlines [] content) (c\<lparr>clusters := []\<rparr>)
      = Some (True, c\<lparr>clusters := []\<rparr>\<lparr>clusters := clusters c, ctx := outside_worker (ctx c)\<rparr>)"
  proof (rule reload_lines [OF tr Config0_ok])
    show "clusters (c\<lparr>clusters := []\<rparr>) = clusters ?s"
      "ctx (c\<lparr>clusters := []\<rparr>) = outside_worker (ctx ?s)"
      using assms(2) by (simp_all add: Config0_def outside_worker_def)
    show "\<forall>ns\<in>all_namespaces c. \<not> of_nat (length ns)
        > (word_of_int (max_namespace_length (c\<lparr>clusters := []\<rparr>)) :: size_t)"
      using fit by simp
  qed
  moreover have "c\<lparr>clusters := []\<rparr>\<lparr>clusters := clusters c, ctx := outside_worker (ctx c)\<rparr> = c"
    using assms(2) by (simp add: outside_worker_def Config.equality)
  ultimately show ?thesis
    using fs by (simp add: ReloadCulsters_def TraverseConfFile_def)
qed

section \<open>No undefined behaviour\<close>

lemma kilo_None:
  assumes "kilo sz = None" and "not_pow2 sz = Some False" and "sz < 2 ^ 31"
  shows "2 ^ 21 \<le> sz"
proof -
  have "\<not> sz < 0"
  proof
    assume "sz < 0"
    then have "sz AND (sz - 1) \<noteq> 0"
      by (metis and_negative_int_iff diff_strict_right_mono less_irrefl less_trans zero_less_one diff_0 neg_less_0_iff_less)
    with assms(2) show False by (simp add: not_pow2_def split: if_splits)
  qed
  with assms(1) show ?thesis by (simp add: kilo_def split: if_splits)
qed

lemma ApplyTokens_None:
  assumes "config_ok addr c" and "ts \<noteq> []" and "ApplyTokens addr ts c = None"
  obtains v i where "ts = [''reserved_buffer_space'', v]" "stoi v = Some i" "i = - (2 ^ 31) \<or> 2 ^ 21 \<le> i"
proof -
  consider "ApplyGlobalTokens ts c = None" | "ApplyWorkerTokens ts c = None"
    | "ApplyClusterTokens addr ts c = None" "prefix ''/cluster'' (ctx c)"
    using assms(3) by (auto simp: ApplyTokens_def fail_def split: if_splits)
  then show thesis
  proof cases
    case 1
    with assms(2) show ?thesis
      by (auto simp: ApplyGlobalTokens_def fail_def set_int_def split: if_splits list.splits option.splits)
  next
    case 2
    then obtain t0 t1 sz where ts: "ts = [t0, t1]" and sz: "stoi t1 = Some sz"
      by (auto simp: ApplyWorkerTokens_def fail_def close_block_def split: if_splits list.splits option.splits)
    have bound: "sz < 2 ^ 31" using stoi_bounds [OF sz] by simp
    have b: "t0 = ''reserved_buffer_space'' \<and> (not_pow2 sz = None \<or> not_pow2 sz = Some False \<and> kilo sz = None)"
      if "\<not> (1 \<le> sz \<and> sz \<le> 1024 \<and> not_pow2 sz = Some False \<and> kilo sz = None)"
        "1 \<le> sz \<and> sz \<le> 1024 \<longrightarrow> not_pow2 sz \<noteq> None"
      using 2 ts sz that
      by (auto simp: ApplyWorkerTokens_def fail_def bind_eq_None_conv split: if_splits option.splits)
    have "t0 = ''reserved_buffer_space''" "not_pow2 sz = None \<or> not_pow2 sz = Some False \<and> kilo sz = None"
      using b by (auto simp: not_pow2_def kilo_def)
    then show ?thesis
      using that [of t1 sz] ts sz kilo_None [OF _ _ bound] by (auto simp: not_pow2_def split: if_splits)
  next
    case 3
    then have "clusters c \<noteq> []" using assms(1) by (simp add: config_ok_def)
    then have ub: "upd_back f c = None \<longleftrightarrow> False" for f by (simp add: upd_back_def)
    obtain t0 args where ts: "ts = t0 # args" using assms(2) by (cases ts) auto
    have ab: "apply_backend addr ep w c = None \<longleftrightarrow> False" for ep w
      by (auto simp: apply_backend_def Let_def fail_def ub simp del: not_None_eq split: option.splits)
    show ?thesis
      using 3(1) ts
      by (auto simp: ApplyClusterTokens_def fail_def close_block_def ub ab split: if_splits list.splits)
  qed
qed

text \<open>
  C24. Reading a configuration file never leaves the defined behaviour of C++ (no access to the last
  cluster when there is none, no token beyond the line), with one exception that the hypothesis
  names: a \<^verbatim>\<open>reserved_buffer_space\<close> of \<open>2 ^ 21\<close> KiB or more overflows \<^verbatim>\<open>int\<close>, as does the least \<^verbatim>\<open>int\<close>.
\<close>

theorem config_Initialize_defined:
  assumes "\<And>content line v i. fs f = Some content \<Longrightarrow> line \<in> set (getlines [] content)
      \<Longrightarrow> TokenizeLine line = [''reserved_buffer_space'', v] \<Longrightarrow> stoi v = Some i
      \<Longrightarrow> - (2 ^ 31) < i \<and> i < 2 ^ 21"
  shows "config_Initialize addr fs f Config0 \<noteq> None"
proof -
  have "traverse_lines (ApplyTokens addr) lines c \<noteq> None"
    if "config_ok addr c" "\<And>line v i. line \<in> set lines \<Longrightarrow> TokenizeLine line = [''reserved_buffer_space'', v]
      \<Longrightarrow> stoi v = Some i \<Longrightarrow> - (2 ^ 31) < i \<and> i < 2 ^ 21" for lines c
    using that
  proof (induction lines arbitrary: c)
    case (Cons line lines)
    show ?case
    proof (cases "TokenizeLine line = []")
      case True
      have "traverse_lines (ApplyTokens addr) lines c \<noteq> None"
        by (rule Cons.IH [OF Cons.prems(1)]) (rule Cons.prems(2), auto)
      with True show ?thesis by (simp add: Let_def)
    next
      case False
      have "ApplyTokens addr (TokenizeLine line) c \<noteq> None"
      proof
        assume "ApplyTokens addr (TokenizeLine line) c = None"
        from ApplyTokens_None [OF Cons.prems(1) False this] obtain v i where
          "TokenizeLine line = [''reserved_buffer_space'', v]" "stoi v = Some i" "i = - (2 ^ 31) \<or> 2 ^ 21 \<le> i" .
        with Cons.prems(2) [of line v i] show False by simp
      qed
      then obtain b c' where st: "ApplyTokens addr (TokenizeLine line) c = Some (b, c')" by auto
      show ?thesis
      proof (cases b)
        case True
        with st have "config_ok addr c'" by (auto intro: ApplyTokens_ok [OF Cons.prems(1)])
        then have "traverse_lines (ApplyTokens addr) lines c' \<noteq> None"
          by (rule Cons.IH) (rule Cons.prems(2), auto)
        with True st False show ?thesis by (simp add: Let_def)
      qed (use st False in \<open>simp add: Let_def\<close>)
    qed
  qed simp
  note tr = this [OF Config0_ok]
  show ?thesis
  proof (cases "fs f")
    case (Some content)
    have "traverse_lines (ApplyTokens addr) (getlines [] content) (Config0\<lparr>config_file := f\<rparr>) \<noteq> None"
      by (rule tr) (rule assms [OF Some])
    with Some show ?thesis by (simp add: config_Initialize_def TraverseConfFile_def)
  qed (simp add: config_Initialize_def TraverseConfFile_def)
qed

section \<open>A concrete file\<close>

text \<open>A file with a worker block and one cluster, over an address parser that accepts one address.\<close>

definition sample_addr :: addr_parser where
  "sample_addr h = (if h = ''10.0.0.1'' then Some 0x0A000001 else None)"

definition sample_file :: "string \<Rightarrow> string option" where
  "sample_file f = (if f = ''y.conf'' then Some
     (''worker {'' @ [LF] @ ''buffer_size 64;'' @ [LF] @ ''}'' @ [LF] @
      ''cluster { # one'' @ [LF] @ ''protocol redis'' @ [LF] @ ''namespace a _'' @ [LF] @
      ''backends {'' @ [LF] @ ''backend 10.0.0.1:80 5'' @ [LF] @ ''}'' @ [LF] @ ''}'' @ [LF]) else None)"

definition sample_config :: Config where
  "sample_config = Config0\<lparr>config_file := ''y.conf'', conf_buffer_size := 65536,
     clusters := [\<lparr>protocol = REDIS, namespaces = [''a'', ''_''],
       backends = [\<lparr>host = ''10.0.0.1'', port = 80, weight = 5\<rparr>]\<rparr>]\<rparr>"

lemma sample_lines:
  "getlines [] (the (sample_file ''y.conf'')) =
     [''worker {'', ''buffer_size 64;'', ''}'', ''cluster { # one'', ''protocol redis'', ''namespace a _'',
      ''backends {'', ''backend 10.0.0.1:80 5'', ''}'', ''}'']"
  by (simp add: sample_file_def)

lemma sample_tokens:
  "TokenizeLine ''worker {'' = [''worker'', ''{'']"
  "TokenizeLine ''buffer_size 64;'' = [''buffer_size'', ''64'']"
  "TokenizeLine ''}'' = [''}'']"
  "TokenizeLine ''cluster { # one'' = [''cluster'', ''{'']"
  "TokenizeLine ''protocol redis'' = [''protocol'', ''redis'']"
  "TokenizeLine ''namespace a _'' = [''namespace'', ''a'', ''_'']"
  "TokenizeLine ''backends {'' = [''backends'', ''{'']"
  "TokenizeLine ''backend 10.0.0.1:80 5'' = [''backend'', ''10.0.0.1:80'', ''5'']"
  by (simp_all add: TokenizeLine_def isspace_def)

lemma sample_stoi: "stoi ''64'' = Some 64" "stoi ''80'' = Some 80" "stoi ''5'' = Some 5"
  by (simp_all add: stoi_def strtol_parts_def isspace_def isdigit_def dec_val_def schar_def)

lemmas config_eval =
  ApplyTokens_def ApplyGlobalTokens_def ApplyWorkerTokens_def ApplyClusterTokens_def close_block_def
  PushSubcontext_def PopSubcontext_def upto_last_slash_def upd_back_def apply_backend_def
  not_pow2_def kilo_def sample_addr_def sample_stoi sample_tokens

lemma sample_init: "config_Initialize sample_addr sample_file ''y.conf'' Config0 = Some (True, sample_config)"
proof -
  have "traverse_lines (ApplyTokens sample_addr) (getlines [] (the (sample_file ''y.conf'')))
      (Config0\<lparr>config_file := ''y.conf''\<rparr>) = Some (True, sample_config)"
    unfolding sample_lines by (simp add: config_eval Config0_def sample_config_def Let_def)
  then show ?thesis
    by (simp add: config_Initialize_def TraverseConfFile_def sample_file_def)
qed

theorem config_Initialize_ok_witness: "config_ok sample_addr sample_config"
  using config_Initialize_ok [OF sample_init] .

theorem reload_same_witness: "ReloadCulsters sample_addr sample_file sample_config = Some (True, sample_config)"
  by (rule reload_same [OF sample_init])
    (auto simp: sample_config_def Config0_def all_namespaces_def)

theorem config_Initialize_defined_witness: "config_Initialize sample_addr sample_file ''y.conf'' Config0 \<noteq> None"
proof (rule config_Initialize_defined)
  fix content line v i
  assume "sample_file ''y.conf'' = Some content" "line \<in> set (getlines [] content)"
    "TokenizeLine line = [''reserved_buffer_space'', v]"
  then show "- (2 ^ 31) < i \<and> i < 2 ^ 21"
    using sample_lines by (auto simp: sample_tokens)
qed

end
