(* ===== verification/Doobs_Hash.thy ===== *)
theory Doobs_Hash
  imports Yarm_Prelude
begin

text \<open>
  The hash function of \<^verbatim>\<open>doobs_hash.cc\<close> (Bob Jenkins, 1996) on 32-bit words.  A key is read through
  a \<^verbatim>\<open>const char*\<close>: the bytes are signed, so they are sign-extended before they are shifted and
  added.  Reading past the memory of the key is undefined (\<open>None\<close>).
\<close>

unbundle bit_operations_syntax

type_synonym ub4 = "32 word"

section \<open>The model\<close>

text \<open>One line of the macro \<^verbatim>\<open>mix\<close>: \<^verbatim>\<open>x -= y; x -= z; x ^= (z >> n)\<close> and its shift-left variant.\<close>

definition mix_r :: "nat \<Rightarrow> ub4 \<Rightarrow> ub4 \<Rightarrow> ub4 \<Rightarrow> ub4" where
  "mix_r n x y z = (x - y - z) XOR drop_bit n z"

definition mix_l :: "nat \<Rightarrow> ub4 \<Rightarrow> ub4 \<Rightarrow> ub4 \<Rightarrow> ub4" where
  "mix_l n x y z = (x - y - z) XOR push_bit n z"

fun mix :: "ub4 \<times> ub4 \<times> ub4 \<Rightarrow> ub4 \<times> ub4 \<times> ub4" where
  "mix (a, b, c) =
     (let a = mix_r 13 a b c; b = mix_l 8 b c a; c = mix_r 13 c a b;
          a = mix_r 12 a b c; b = mix_l 16 b c a; c = mix_r 5 c a b;
          a = mix_r 3 a b c; b = mix_l 10 b c a; c = mix_r 15 c a b
      in (a, b, c))"

text \<open>\<^verbatim>\<open>(ub4)k[i]\<close>.\<close>

definition ub4_at :: "bytes \<Rightarrow> nat \<Rightarrow> ub4 option" where
  "ub4_at k i = map_option (\<lambda>c. word_of_int (schar c)) (rd k i)"

definition ub4_block :: "bytes \<Rightarrow> nat \<Rightarrow> ub4 option" where
  "ub4_block k i = do {
     x0 \<leftarrow> ub4_at k i; x1 \<leftarrow> ub4_at k (i + 1); x2 \<leftarrow> ub4_at k (i + 2); x3 \<leftarrow> ub4_at k (i + 3);
     Some (x0 + push_bit 8 x1 + push_bit 16 x2 + push_bit 24 x3)
   }"

text \<open>The loop over blocks of 12 bytes; the result has the rest of the key and its length.\<close>

function hash_loop :: "bytes \<Rightarrow> ub4 \<Rightarrow> ub4 \<times> ub4 \<times> ub4 \<Rightarrow> (bytes \<times> ub4 \<times> ub4 \<times> ub4 \<times> ub4) option" where
  "hash_loop k len (a, b, c) =
     (if len \<ge> 12 then do {
        x \<leftarrow> ub4_block k 0; y \<leftarrow> ub4_block k 4; z \<leftarrow> ub4_block k 8;
        hash_loop (drop 12 k) (len - 12) (mix (a + x, b + y, c + z))
      } else Some (k, len, a, b, c))"
  by pat_completeness auto

termination
  by (relation "measure (\<lambda>(k, len, s). unat len)")
    (auto simp: unat_sub word_le_nat_alt)

declare hash_loop.simps [simp del]

text \<open>
  One \<^verbatim>\<open>case\<close> of the switch, \<^verbatim>\<open>case i + 1: x += ((ub4)k[i] << n)\<close>: all cases fall through, so it is
  executed whenever \<^verbatim>\<open>len > i\<close> (the loop has left \<^verbatim>\<open>len < 12\<close>).
\<close>

definition tail_case :: "bytes \<Rightarrow> ub4 \<Rightarrow> nat \<Rightarrow> nat \<Rightarrow> ub4 \<Rightarrow> ub4 option" where
  "tail_case k len i n x =
     (if unat len > i then map_option (\<lambda>v. x + push_bit n v) (ub4_at k i) else Some x)"

definition hash_tail :: "bytes \<Rightarrow> ub4 \<Rightarrow> ub4 \<Rightarrow> ub4 \<Rightarrow> ub4 \<Rightarrow> (ub4 \<times> ub4 \<times> ub4) option" where
  "hash_tail k len a b c = do {
     c \<leftarrow> tail_case k len 10 24 c;
     c \<leftarrow> tail_case k len 9 16 c;
     c \<leftarrow> tail_case k len 8 8 c;
     b \<leftarrow> tail_case k len 7 24 b;
     b \<leftarrow> tail_case k len 6 16 b;
     b \<leftarrow> tail_case k len 5 8 b;
     b \<leftarrow> tail_case k len 4 0 b;
     a \<leftarrow> tail_case k len 3 24 a;
     a \<leftarrow> tail_case k len 2 16 a;
     a \<leftarrow> tail_case k len 1 8 a;
     a \<leftarrow> tail_case k len 0 0 a;
     Some (a, b, c)
   }"

definition doobs_hash :: "bytes \<Rightarrow> ub4 \<Rightarrow> ub4 \<Rightarrow> ub4 option" where
  "doobs_hash k length0 initval = do {
     (k, len, a, b, c) \<leftarrow> hash_loop k length0 (0x9e3779b9, 0x9e3779b9, initval);
     (a, b, c) \<leftarrow> hash_tail k len a b (c + length0);
     let (a, b, c) = mix (a, b, c);
     Some c
   }"

section \<open>Mixing is reversible\<close>

text \<open>The steps of \<^verbatim>\<open>mix\<close> undone one by one, from the last to the first.\<close>

definition unmix_r :: "nat \<Rightarrow> ub4 \<Rightarrow> ub4 \<Rightarrow> ub4 \<Rightarrow> ub4" where
  "unmix_r n x y z = (x XOR drop_bit n z) + z + y"

definition unmix_l :: "nat \<Rightarrow> ub4 \<Rightarrow> ub4 \<Rightarrow> ub4 \<Rightarrow> ub4" where
  "unmix_l n x y z = (x XOR push_bit n z) + z + y"

fun unmix :: "ub4 \<times> ub4 \<times> ub4 \<Rightarrow> ub4 \<times> ub4 \<times> ub4" where
  "unmix (a, b, c) =
     (let c = unmix_r 15 c a b; b = unmix_l 10 b c a; a = unmix_r 3 a b c;
          c = unmix_r 5 c a b; b = unmix_l 16 b c a; a = unmix_r 12 a b c;
          c = unmix_r 13 c a b; b = unmix_l 8 b c a; a = unmix_r 13 a b c
      in (a, b, c))"

lemma xor_cancel [simp]: "(x XOR y) XOR y = (x :: ub4)"
  by (simp add: xor.assoc)

lemma unmix_step [simp]:
  "unmix_r n (mix_r n x y z) y z = x" "unmix_l n (mix_l n x y z) y z = x"
  "mix_r n (unmix_r n x y z) y z = x" "mix_l n (unmix_l n x y z) y z = x"
  by (simp_all add: unmix_r_def unmix_l_def mix_r_def mix_l_def)

lemma unmix_mix [simp]: "unmix (mix s) = s"
  by (cases s) (simp add: Let_def)

lemma mix_unmix [simp]: "mix (unmix s) = s"
  by (cases s) (simp add: Let_def)

text \<open>
  C20. The comment at \<^verbatim>\<open>mix\<close> promises that it mixes three 32-bit values reversibly: the macro is a
  bijection on triples of words, so no block of a key is lost before the last word is returned.
\<close>

theorem mix_bij: "bij mix"
  by (rule bijI') (metis unmix_mix, metis mix_unmix)

declare mix.simps [simp del]

section \<open>Which bytes are read\<close>

lemma ub4_block_None: "ub4_block k i = None \<longleftrightarrow> length k < i + 4"
  by (auto simp: ub4_block_def ub4_at_def bind_eq_None_conv)

lemma rd_take_eq: "take n k = take n k' \<Longrightarrow> i < n \<Longrightarrow> rd k i = rd k' i"
proof -
  assume e: "take n k = take n k'" and i: "i < n"
  have "rd (take n k) i = rd (take n k') i" using e by simp
  with i show ?thesis by (auto simp: rd_def split: if_splits)
qed

lemma ub4_block_cong: "take n k = take n k' \<Longrightarrow> i + 4 \<le> n \<Longrightarrow> ub4_block k i = ub4_block k' i"
  using rd_take_eq [of n k k'] by (simp add: ub4_block_def ub4_at_def)

lemma len_minus_12: "12 \<le> len \<Longrightarrow> unat (len - 12 :: ub4) = unat len - 12"
  by (simp add: unat_sub)

lemma ge_12: "12 \<le> len \<longleftrightarrow> 12 \<le> unat (len :: ub4)"
  by (simp add: word_le_nat_alt)

text \<open>The loop fails exactly when some whole block is not there; otherwise fewer than 12 bytes are left.\<close>

lemma hash_loop_result:
  "case hash_loop k len s of
     None \<Rightarrow> length k < unat len
   | Some (k', len', s') \<Rightarrow> unat len' < 12 \<and> (length k < unat len \<longleftrightarrow> length k' < unat len')"
proof (induction k len s rule: hash_loop.induct)
  case (1 k len a b c)
  show ?case
  proof (cases "12 \<le> len")
    case False
    then show ?thesis by (simp add: hash_loop.simps ge_12)
  next
    case True
    show ?thesis
    proof (cases "length k < 12")
      case True
      then have "ub4_block k 8 = None" by (simp add: ub4_block_None)
      then have "hash_loop k len (a, b, c) = None"
        using \<open>12 \<le> len\<close> by (simp add: hash_loop.simps [of k] bind_eq_None_conv)
      with True \<open>12 \<le> len\<close> show ?thesis by (simp add: ge_12)
    next
      case False
      then obtain x y z where b: "ub4_block k 0 = Some x" "ub4_block k 4 = Some y" "ub4_block k 8 = Some z"
        using ub4_block_None [of k 0] ub4_block_None [of k 4] ub4_block_None [of k 8] by fastforce
      then have "hash_loop k len (a, b, c)
          = hash_loop (drop 12 k) (len - 12) (mix (a + x, b + y, c + z))"
        using \<open>12 \<le> len\<close> by (simp add: hash_loop.simps [of k])
      with "1.IH" [OF \<open>12 \<le> len\<close> b] \<open>12 \<le> len\<close> False show ?thesis
        by (auto simp: len_minus_12 ge_12 split: option.splits)
    qed
  qed
qed

lemma hash_loop_cong:
  "take (unat len) k = take (unat len) k' \<Longrightarrow>
   rel_option (\<lambda>(k, len, s) (k', len', s'). len = len' \<and> s = s' \<and> take (unat len) k = take (unat len) k')
     (hash_loop k len s) (hash_loop k' len s)"
proof (induction k len s arbitrary: k' rule: hash_loop.induct)
  case (1 k len a b c)
  show ?case
  proof (cases "12 \<le> len")
    case False
    with "1.prems" show ?thesis by (simp add: hash_loop.simps)
  next
    case True
    then have blocks: "ub4_block k' i = ub4_block k i" if "i + 4 \<le> 12" for i
      using ub4_block_cong [OF "1.prems"] that by (simp add: ge_12)
    have rest: "take (unat (len - 12)) (drop 12 k) = take (unat (len - 12)) (drop 12 k')"
      using "1.prems" True by (simp add: len_minus_12 take_drop ge_12)
    show ?thesis
      using True "1.IH" [OF True _ _ _ rest] blocks [of 0] blocks [of 4] blocks [of 8]
      by (cases "ub4_block k 0"; cases "ub4_block k 4"; cases "ub4_block k 8")
        (simp_all add: hash_loop.simps [of k] hash_loop.simps [of k'])
  qed
qed

lemma tail_case_None: "tail_case k len i n x = None \<longleftrightarrow> length k \<le> i \<and> i < unat len"
  by (auto simp: tail_case_def ub4_at_def)

lemma tail_chain: "Option.bind x f = None \<longleftrightarrow> P \<or> Q"
  if "x = None \<longleftrightarrow> P" "\<And>y. f y = None \<longleftrightarrow> Q"
  using that by (cases x) auto

lemma hash_tail_None:
  assumes "unat len < 12"
  shows "hash_tail k len a b c = None \<longleftrightarrow> length k < unat len"
proof -
  let ?m = "\<lambda>i. length k \<le> i \<and> i < unat len"
  have "hash_tail k len a b c = None \<longleftrightarrow>
    ?m 10 \<or> ?m 9 \<or> ?m 8 \<or> ?m 7 \<or> ?m 6 \<or> ?m 5 \<or> ?m 4 \<or> ?m 3 \<or> ?m 2 \<or> ?m 1 \<or> ?m 0 \<or> False"
    unfolding hash_tail_def by (intro tail_chain tail_case_None) simp
  also have "\<dots> \<longleftrightarrow> (\<exists>i\<in>set [10, 9, 8, 7, 6, 5, 4, 3, 2, 1, 0]. ?m i)"
    by simp
  also have "\<dots> \<longleftrightarrow> length k < unat len"
  proof
    assume l: "length k < unat len"
    have "set [10, 9, 8, 7, 6, 5, 4, 3, 2, 1, 0] = {..<11 :: nat}"
      by (simp add: lessThan_Suc numeral_eq_Suc)
    with l assms show "\<exists>i\<in>set [10, 9, 8, 7, 6, 5, 4, 3, 2, 1, 0]. ?m i"
      by (intro bexI [of _ "unat len - 1"]) auto
  qed auto
  finally show ?thesis .
qed

lemma hash_tail_cong:
  "take (unat len) k = take (unat len) k' \<Longrightarrow> hash_tail k len a b c = hash_tail k' len a b c"
  using rd_take_eq [of "unat len" k k'] by (simp add: hash_tail_def tail_case_def ub4_at_def)

definition hash_end :: "ub4 \<Rightarrow> bytes \<times> ub4 \<times> ub4 \<times> ub4 \<times> ub4 \<Rightarrow> ub4 option" where
  "hash_end n = (\<lambda>(k, len, a, b, c). map_option (\<lambda>s. snd (snd (mix s))) (hash_tail k len a b (c + n)))"

lemma doobs_hash_end:
  "doobs_hash k n initval = Option.bind (hash_loop k n (0x9e3779b9, 0x9e3779b9, initval)) (hash_end n)"
proof -
  have "(\<lambda>(k, len, a, b, c). do {
      (a, b, c) \<leftarrow> hash_tail k len a b (c + n);
      let (a, b, c) = mix (a, b, c);
      Some c }) = hash_end n"
    by (auto simp: hash_end_def fun_eq_iff map_option_case Let_def case_prod_beta split: option.splits)
  then show ?thesis by (simp add: doobs_hash_def)
qed

lemma doobs_hash_None: "doobs_hash k len initval = None \<longleftrightarrow> length k < unat len"
proof -
  have "Option.bind (hash_loop k len s) (hash_end len) = None \<longleftrightarrow> length k < unat len" for s
  proof (cases "hash_loop k len s")
    case (Some r)
    obtain k' len' a b c where r: "r = (k', len', a, b, c)" by (cases r) auto
    have "hash_end len r = None \<longleftrightarrow> hash_tail k' len' a b (c + len) = None"
      unfolding r hash_end_def by simp
    with hash_loop_result [of k len s] show ?thesis
      by (simp add: Some r hash_tail_None)
  qed (use hash_loop_result [of k len s] in simp)
  then show ?thesis by (simp only: doobs_hash_end)
qed

lemma doobs_hash_cong:
  assumes "take (unat len) k = take (unat len) k'"
  shows "doobs_hash k len initval = doobs_hash k' len initval"
proof -
  have "Option.bind (hash_loop k len s) (hash_end len) = Option.bind (hash_loop k' len s) (hash_end len)"
    for s
    using hash_loop_cong [OF assms, of s]
    by (cases "hash_loop k len s"; cases "hash_loop k' len s")
      (auto simp: hash_end_def intro!: arg_cong [where f = "map_option _"] hash_tail_cong)
  then show ?thesis by (simp only: doobs_hash_end)
qed

text \<open>
  C21. The hash reads all of the \<^verbatim>\<open>length\<close> bytes of the key and nothing beyond them: it is undefined
  exactly when the memory at \<^verbatim>\<open>k\<close> is shorter than \<^verbatim>\<open>length\<close>, and its value depends on these bytes only,
  whatever follows them in the buffer.
\<close>

theorem doobs_hash_reads:
  assumes "take (unat len) k = take (unat len) k'"
  shows "(doobs_hash k len initval = None \<longleftrightarrow> length k < unat len)
    \<and> doobs_hash k' len initval = doobs_hash k len initval"
  using doobs_hash_cong [OF assms, of initval] by (metis doobs_hash_None)

theorem doobs_hash_reads_witness:
  "doobs_hash ''key'' 3 0 \<noteq> None \<and> doobs_hash ''keyword'' 3 0 = doobs_hash ''key'' 3 0
   \<and> doobs_hash ''key'' 4 0 = None"
  using doobs_hash_reads [of 3 "''key''" "''keyword''" 0] doobs_hash_reads [of 4 "''key''" "''key''" 0]
  by simp

end
