(* ===== verification/Key_Distributer.thy ===== *)
theory Key_Distributer
  imports Config_File Doobs_Hash
begin

text \<open>
  The consistent hash ring, \<^verbatim>\<open>key_distributer.h\<close> and \<^verbatim>\<open>key_distributer.cc\<close>.

  \<^verbatim>\<open>std::sort\<close> is not stable and the comparison looks at the hash point only, so the order of points
  with equal hashes is not determined by the C++ standard.  The sorting function is therefore an
  argument \<open>srt\<close> of the model, and all properties hold for any function that meets the contract of the
  locale \<open>cache_sort\<close>; the stable sort of the library is one such function.
\<close>

section \<open>The model\<close>

text \<open>An endpoint: IPv4 address and port.  The default constructed endpoint is \<^verbatim>\<open>0.0.0.0:0\<close>.\<close>

datatype Endpoint = Endpoint (address: "32 word") (ep_port: "16 word")

definition Endpoint0 :: Endpoint where
  "Endpoint0 = Endpoint 0 0"

text \<open>The order of endpoints, which is that of the keys of \<^verbatim>\<open>std::map\<close>: first the address, then the port.\<close>

instantiation Endpoint :: linorder
begin

definition less_eq_Endpoint :: "Endpoint \<Rightarrow> Endpoint \<Rightarrow> bool" where
  "less_eq_Endpoint a b \<longleftrightarrow> address a < address b \<or> address a = address b \<and> ep_port a \<le> ep_port b"

definition less_Endpoint :: "Endpoint \<Rightarrow> Endpoint \<Rightarrow> bool" where
  "less_Endpoint a b \<longleftrightarrow> address a < address b \<or> address a = address b \<and> ep_port a < ep_port b"

instance
  by standard (auto simp: less_eq_Endpoint_def less_Endpoint_def Endpoint.expand)

end

record CachePoint =
  hash_point :: "32 word"
  endpoint :: Endpoint

record KeyDistributer =
  weighted_nodes :: "(Endpoint \<times> size_t) list"
  cache_points :: "CachePoint list"

type_synonym point_sort = "CachePoint list \<Rightarrow> CachePoint list"

text \<open>
  \<^verbatim>\<open>std::map<Endpoint, size_t>\<close> as a list in ascending order of the keys; \<^verbatim>\<open>emplace\<close> does nothing when
  the key is there already.
\<close>

fun map_emplace :: "'k :: linorder \<Rightarrow> 'v \<Rightarrow> ('k \<times> 'v) list \<Rightarrow> ('k \<times> 'v) list" where
  "map_emplace k v [] = [(k, v)]"
| "map_emplace k v ((k', v') # m) =
     (if k < k' then (k, v) # (k', v') # m
      else if k = k' then (k', v') # m
      else (k', v') # map_emplace k v m)"

text \<open>\<^verbatim>\<open>Endpoint(address_v4::from_string(host), port)\<close>: the port is cut to 16 bits; \<open>None\<close> is the exception.\<close>

definition backend_endpoint :: "addr_parser \<Rightarrow> Backend \<Rightarrow> Endpoint option" where
  "backend_endpoint addr b = map_option (\<lambda>a. Endpoint a (word_of_int (port b))) (addr (host b))"

fun weigh_nodes :: "addr_parser \<Rightarrow> Backend list \<Rightarrow> (Endpoint \<times> size_t) list \<Rightarrow> (Endpoint \<times> size_t) list option" where
  "weigh_nodes addr [] m = Some m"
| "weigh_nodes addr (b # bs) m = do {
     ep \<leftarrow> backend_endpoint addr b;
     weigh_nodes addr bs (map_emplace ep (weight b) m)
   }"

text \<open>The text of point \<^verbatim>\<open>k\<close> of a node, \<^verbatim>\<open>"%lu-%lu-%u"\<close>, in the array \<^verbatim>\<open>ss\<close> of 64 characters.\<close>

definition point_text :: "nat \<Rightarrow> Endpoint \<Rightarrow> string" where
  "point_text k ep = nat_dec k @ ''-'' @ nat_dec (unat (address ep)) @ ''-'' @ nat_dec (unat (ep_port ep))"

definition snprintf :: "nat \<Rightarrow> string \<Rightarrow> string" where
  "snprintf n s = take (n - 1) s @ [NUL]"

definition cache_point :: "nat \<Rightarrow> Endpoint \<Rightarrow> CachePoint option" where
  "cache_point k ep = do {
     let ss = snprintf 63 (point_text k ep);
     s \<leftarrow> c_str ss;
     h \<leftarrow> doobs_hash ss (of_nat (length s)) 0;
     Some \<lparr>hash_point = h, endpoint = ep\<rparr>
   }"

fun mapM :: "('a \<Rightarrow> 'b option) \<Rightarrow> 'a list \<Rightarrow> 'b list option" where
  "mapM f [] = Some []"
| "mapM f (x # xs) = do { y \<leftarrow> f x; ys \<leftarrow> mapM f xs; Some (y # ys) }"

definition node_points :: "Endpoint \<times> size_t \<Rightarrow> CachePoint list option" where
  "node_points nd = mapM (\<lambda>k. cache_point k (fst nd)) [0..<unat (snd nd)]"

definition BuildCachePoints :: "point_sort \<Rightarrow> KeyDistributer \<Rightarrow> (bool \<times> KeyDistributer) option" where
  "BuildCachePoints srt kd =
     (if weighted_nodes kd = [] then Some (False, kd)
      else do {
        pss \<leftarrow> mapM node_points (weighted_nodes kd);
        Some (True, kd\<lparr>cache_points := srt (concat pss)\<rparr>)
      })"

definition KeyDistributer :: "addr_parser \<Rightarrow> point_sort \<Rightarrow> Backend list \<Rightarrow> KeyDistributer option" where
  "KeyDistributer addr srt bs = do {
     m \<leftarrow> weigh_nodes addr bs [];
     (_, kd) \<leftarrow> BuildCachePoints srt \<lparr>weighted_nodes = m, cache_points = []\<rparr>;
     Some kd
   }"

text \<open>\<^verbatim>\<open>std::lower_bound\<close>: from the first point whose hash is not below the given one.\<close>

definition lower_bound :: "CachePoint list \<Rightarrow> 32 word \<Rightarrow> CachePoint list" where
  "lower_bound ps h = dropWhile (\<lambda>p. hash_point p < h) ps"

definition LocateCacheNode :: "KeyDistributer \<Rightarrow> bytes \<Rightarrow> size_t \<Rightarrow> Endpoint option" where
  "LocateCacheNode kd key len = do {
     h \<leftarrow> doobs_hash key (ucast len) 0;
     Some (case lower_bound (cache_points kd) h of
       p # _ \<Rightarrow> endpoint p
     | [] \<Rightarrow> (case cache_points kd of p # _ \<Rightarrow> endpoint p | [] \<Rightarrow> Endpoint0))
   }"

section \<open>The contract of the sort\<close>

locale cache_sort =
  fixes srt :: point_sort
  assumes sorted_points: "sorted (map hash_point (srt ps))"
    and same_points: "set (srt ps) = set ps"
begin

lemma nonempty: "srt ps = [] \<longleftrightarrow> ps = []"
  using same_points [of ps] by (metis set_empty)

end

interpretation stable_sort: cache_sort "sort_key hash_point"
  by unfold_locales simp_all

section \<open>The points of the ring\<close>

lemma mapM_Some: "mapM f xs = Some ys \<longleftrightarrow> list_all2 (\<lambda>x y. f x = Some y) xs ys"
  by (induction xs arbitrary: ys) (auto simp: bind_eq_Some_conv list_all2_Cons1)

lemma mapM_total: "(\<And>x. x \<in> set xs \<Longrightarrow> f x = Some (g x)) \<Longrightarrow> mapM f xs = Some (map g xs)"
  by (induction xs) auto

lemma point_text_no_NUL: "NUL \<notin> set (point_text k ep)"
  by (simp add: point_text_def nat_dec_avoids)

lemma c_str_snprintf: "NUL \<notin> set s \<Longrightarrow> c_str (snprintf n s) = Some (take (n - 1) s)"
proof -
  assume "NUL \<notin> set s"
  then have "\<forall>c\<in>set (take (n - 1) s). c \<noteq> NUL" by (metis in_set_takeD)
  then show ?thesis by (simp add: c_str_def snprintf_def takeWhile_append2)
qed

definition point :: "nat \<Rightarrow> Endpoint \<Rightarrow> CachePoint" where
  "point k ep = the (cache_point k ep)"

lemma cache_point_total: "cache_point k ep = Some (point k ep)"
proof -
  let ?s = "take 62 (point_text k ep)"
  have "length ?s < 2 ^ 32" by simp
  then have "unat (of_nat (length ?s) :: 32 word) = length ?s"
    by (simp add: unat_of_nat take_bit_eq_mod)
  then have "doobs_hash (?s @ [NUL]) (of_nat (length ?s)) 0 \<noteq> None"
    by (simp add: doobs_hash_None del: not_None_eq)
  then have "cache_point k ep \<noteq> None"
    using c_str_snprintf [OF point_text_no_NUL, of 63] by (auto simp: cache_point_def Let_def snprintf_def)
  then show ?thesis by (simp add: point_def)
qed

lemma endpoint_point [simp]: "endpoint (point k ep) = ep"
proof -
  obtain h where "Some \<lparr>hash_point = h, endpoint = ep\<rparr> = Some (point k ep)"
    using cache_point_total [of k ep] by (auto simp: cache_point_def Let_def bind_eq_Some_conv)
  then show ?thesis by (metis CachePoint.select_convs(2) option.inject)
qed

definition points_of :: "Endpoint \<times> size_t \<Rightarrow> CachePoint list" where
  "points_of nd = map (\<lambda>k. point k (fst nd)) [0..<unat (snd nd)]"

lemma node_points_total: "node_points nd = Some (points_of nd)"
  unfolding node_points_def points_of_def by (rule mapM_total) (rule cache_point_total)

lemma BuildCachePoints_eq:
  "BuildCachePoints srt kd = Some (if weighted_nodes kd = [] then (False, kd)
     else (True, kd\<lparr>cache_points := srt (concat (map points_of (weighted_nodes kd)))\<rparr>))"
  using mapM_total [of "weighted_nodes kd" node_points points_of] node_points_total
  by (simp add: BuildCachePoints_def)

section \<open>The map of nodes\<close>

abbreviation keys_ascending :: "('k :: linorder \<times> 'v) list \<Rightarrow> bool" where
  "keys_ascending m \<equiv> sorted_wrt (<) (map fst m)"

lemma keys_map_emplace: "fst ` set (map_emplace k v m) = insert k (fst ` set m)"
  by (induction k v m rule: map_emplace.induct) auto

lemma keys_ascending_emplace: "keys_ascending m \<Longrightarrow> keys_ascending (map_emplace k v m)"
proof (induction k v m rule: map_emplace.induct)
  case (2 k v k' v' m)
  have "fst ` set (map_emplace k v m) = insert k (fst ` set m)" by (rule keys_map_emplace)
  with 2 show ?case by fastforce
qed simp

lemma set_map_emplace:
  "keys_ascending m \<Longrightarrow> set (map_emplace k v m) = (if k \<in> fst ` set m then set m else insert (k, v) (set m))"
  by (induction k v m rule: map_emplace.induct) (auto dest: order_less_trans)

lemma weigh_nodes_append:
  "weigh_nodes addr (bs @ cs) m = Option.bind (weigh_nodes addr bs m) (weigh_nodes addr cs)"
  by (induction bs arbitrary: m) (simp_all add: bind_assoc)

lemma weigh_nodes_ascending:
  "weigh_nodes addr bs m = Some m' \<Longrightarrow> keys_ascending m \<Longrightarrow> keys_ascending m'"
  by (induction bs arbitrary: m) (auto simp: bind_eq_Some_conv keys_ascending_emplace)

lemma weigh_nodes_set:
  assumes "weigh_nodes addr bs m = Some m'" "nd \<in> set m'" "keys_ascending m"
  shows "nd \<in> set m \<or> (\<exists>b\<in>set bs. backend_endpoint addr b = Some (fst nd) \<and> snd nd = weight b)"
  using assms
proof (induction bs arbitrary: m)
  case (Cons b bs)
  from Cons.prems(1) obtain ep where ep: "backend_endpoint addr b = Some ep"
    and r: "weigh_nodes addr bs (map_emplace ep (weight b) m) = Some m'"
    by (auto simp: bind_eq_Some_conv)
  from Cons.IH [OF r Cons.prems(2) keys_ascending_emplace [OF Cons.prems(3)]] ep
  show ?case
    by (auto simp: set_map_emplace [OF Cons.prems(3)] split: if_splits)
qed simp

lemma weigh_nodes_nonempty:
  "weigh_nodes addr bs m = Some m' \<Longrightarrow> m' = [] \<longleftrightarrow> bs = [] \<and> m = []"
proof (induction bs arbitrary: m)
  case (Cons b bs)
  have "map_emplace ep w m \<noteq> []" for ep w
    using keys_map_emplace [of ep w m] by auto
  moreover obtain ep where "weigh_nodes addr bs (map_emplace ep (weight b) m) = Some m'"
    using Cons.prems by (auto simp: bind_eq_Some_conv)
  ultimately show ?case using Cons.IH by blast
qed simp

lemma KeyDistributer_eq:
  "KeyDistributer addr srt bs = Some kd \<longleftrightarrow>
     (\<exists>m. weigh_nodes addr bs [] = Some m
       \<and> kd = \<lparr>weighted_nodes = m, cache_points = (if bs = [] then [] else srt (concat (map points_of m)))\<rparr>)"
  using weigh_nodes_nonempty [of addr bs "[]"]
  by (auto simp: KeyDistributer_def BuildCachePoints_eq bind_eq_Some_conv split: if_splits)

section \<open>The clockwise successor\<close>

text \<open>What the lookup means on the ring: the next hash point at or after \<open>h\<close>, or else the least one.\<close>

definition ring_succ :: "32 word set \<Rightarrow> 32 word \<Rightarrow> 32 word" where
  "ring_succ S h = (if \<exists>x\<in>S. h \<le> x then Min {x \<in> S. h \<le> x} else Min S)"

lemma lower_bound_sorted:
  assumes "sorted (map hash_point ps)" and "ps \<noteq> []"
  shows "hash_point (hd (if lower_bound ps h = [] then ps else lower_bound ps h))
     = ring_succ (hash_point ` set ps) h"
  using assms
proof (induction ps)
  case (Cons p ps)
  let ?S = "hash_point ` set ps"
  have min: "\<forall>x\<in>?S. hash_point p \<le> x" using Cons.prems by auto
  show ?case
  proof (cases "hash_point p < h")
    case False
    then have "{x \<in> hash_point ` set (p # ps). h \<le> x} = insert (hash_point p) ?S"
      using min by force
    moreover have "Min (insert (hash_point p) ?S) = hash_point p"
      using min by (intro Min_eqI) auto
    ultimately show ?thesis
      using False by (auto simp: lower_bound_def ring_succ_def)
  next
    case True
    then have e: "{x \<in> hash_point ` set (p # ps). h \<le> x} = {x \<in> ?S. h \<le> x}" by auto
    show ?thesis
    proof (cases "\<exists>x\<in>?S. h \<le> x")
      case ex: True
      then have "ps \<noteq> []" "lower_bound ps h \<noteq> []"
        by (auto simp: lower_bound_def dropWhile_eq_Nil_conv not_less)
      moreover have "ring_succ (hash_point ` set (p # ps)) h = ring_succ ?S h"
        using ex by (simp add: ring_succ_def e [simplified])
      moreover have "lower_bound (p # ps) h = lower_bound ps h" using True by (simp add: lower_bound_def)
      ultimately show ?thesis using Cons by simp
    next
      case no: False
      then have "lower_bound (p # ps) h = []"
        using True by (auto simp: lower_bound_def dropWhile_eq_Nil_conv not_le)
      moreover have "Min (insert (hash_point p) ?S) = hash_point p"
        using min by (intro Min_eqI) auto
      moreover have "\<not> (\<exists>x\<in>hash_point ` set (p # ps). h \<le> x)" using no True by auto
      ultimately show ?thesis by (simp add: ring_succ_def)
    qed
  qed
qed simp

lemma ring_succ_mono:
  assumes "finite S'" and "S \<subseteq> S'" and "ring_succ S' h \<in> S"
  shows "ring_succ S' h = ring_succ S h"
proof -
  have fin: "finite S" "S \<noteq> {}" using assms finite_subset by auto
  show ?thesis
  proof (cases "\<exists>x\<in>S'. h \<le> x")
    case True
    let ?A' = "{x \<in> S'. h \<le> x}" and ?A = "{x \<in> S. h \<le> x}"
    have m: "ring_succ S' h = Min ?A'" using True by (simp add: ring_succ_def)
    moreover have "Min ?A' \<in> ?A'" using True assms(1) by (intro Min_in) auto
    ultimately have "Min ?A' \<in> ?A" using assms(3) by auto
    moreover have "Min ?A = Min ?A'"
      using calculation assms fin by (intro Min_eqI) (auto intro!: Min_le)
    ultimately show ?thesis using m by (auto simp: ring_succ_def)
  next
    case False
    then have "ring_succ S' h = Min S'" "ring_succ S h = Min S"
      using assms(2) by (auto simp: ring_succ_def)
    moreover have "Min S = Min S'"
      using assms fin calculation by (intro Min_eqI) (auto intro!: Min_le)
    ultimately show ?thesis by simp
  qed
qed

context cache_sort begin

lemma locate_owner:
  assumes "cache_points kd = srt ps" "ps \<noteq> []" "doobs_hash key (ucast len) 0 = Some h"
  shows "\<exists>p\<in>set ps. LocateCacheNode kd key len = Some (endpoint p)
    \<and> hash_point p = ring_succ (hash_point ` set ps) h"
proof -
  let ?l = "if lower_bound (srt ps) h = [] then srt ps else lower_bound (srt ps) h"
  have ne: "srt ps \<noteq> []" "?l \<noteq> []" using assms(2) nonempty by auto
  have "set ?l \<subseteq> set ps"
    using same_points [of ps] by (auto simp: lower_bound_def dest: set_dropWhileD)
  then have "hd ?l \<in> set ps" using hd_in_set [OF ne(2)] by blast
  moreover have "hash_point (hd ?l) = ring_succ (hash_point ` set ps) h"
    using lower_bound_sorted [OF sorted_points ne(1), of h] same_points [of ps] by simp
  moreover have "LocateCacheNode kd key len = Some (endpoint (hd ?l))"
    using assms(1,3) ne(1) by (auto simp: LocateCacheNode_def split: list.splits)
  ultimately show ?thesis by blast
qed

end

section \<open>Where a key goes\<close>

lemma ucast_len: "length key < 2 ^ 32 \<Longrightarrow> unat len \<le> length key
    \<Longrightarrow> unat (ucast (len :: size_t) :: 32 word) = unat len"
  by (simp add: unsigned_ucast_eq take_bit_eq_mod)

lemma points_nonempty:
  assumes "weigh_nodes addr bs [] = Some m" "bs \<noteq> []" "\<forall>b\<in>set bs. 0 < unat (weight b)"
  shows "concat (map points_of m) \<noteq> []"
proof -
  obtain nd m' where m: "m = nd # m'" using weigh_nodes_nonempty [OF assms(1)] assms(2) by (cases m) auto
  then have "0 < unat (snd nd)" using weigh_nodes_set [OF assms(1), of nd] assms(3) by auto
  then show ?thesis by (simp add: m points_of_def)
qed

lemma endpoint_points_of: "p \<in> set (points_of nd) \<Longrightarrow> endpoint p = fst nd"
  by (auto simp: points_of_def)

lemma LocateCacheNode_backend:
  assumes "cache_sort srt" and "KeyDistributer addr srt bs = Some kd"
    and "bs \<noteq> []" "\<forall>b\<in>set bs. 0 < unat (weight b)"
    and "unat len \<le> length key" "length key < 2 ^ 32"
  shows "\<exists>b\<in>set bs. LocateCacheNode kd key len = backend_endpoint addr b
    \<and> backend_endpoint addr b \<noteq> None"
proof -
  obtain m where m: "weigh_nodes addr bs [] = Some m" "cache_points kd = srt (concat (map points_of m))"
    using assms(2,3) by (auto simp: KeyDistributer_eq)
  obtain h where h: "doobs_hash key (ucast len) 0 = Some h"
    using doobs_hash_None [of key "ucast len" 0] ucast_len [OF assms(6,5)] assms(5) by fastforce
  obtain p where p: "p \<in> set (concat (map points_of m))" "LocateCacheNode kd key len = Some (endpoint p)"
    using cache_sort.locate_owner [OF assms(1) m(2) points_nonempty [OF m(1) assms(3,4)] h] by blast
  from p(1) obtain nd where nd: "nd \<in> set m" "endpoint p = fst nd" by (auto dest: endpoint_points_of)
  from weigh_nodes_set [OF m(1) nd(1)] obtain b where "b \<in> set bs" "backend_endpoint addr b = Some (fst nd)"
    by auto
  with p(2) nd(2) show ?thesis by (intro bexI [of _ b]) simp_all
qed

text \<open>
  C25. Every key goes to a configured backend: for a distributer built from a non-empty list of backends of
  positive weight, the lookup of a key that is all there and shorter than \<open>2\<^sup>3\<^sup>2\<close> bytes
  returns the endpoint of one of these backends (never the default endpoint
  \<^verbatim>\<open>0.0.0.0:0\<close>), whatever order the sort gives to equal hash points.
\<close>

theorem locate_configured:
  assumes "cache_sort srt" and "KeyDistributer addr srt bs = Some kd"
    and "bs \<noteq> []" "\<forall>b\<in>set bs. 0 < unat (weight b)"
    and "unat len \<le> length key" "length key < 2 ^ 32"
  shows "\<exists>b\<in>set bs. LocateCacheNode kd key len = backend_endpoint addr b
    \<and> backend_endpoint addr b \<noteq> None"
  by (rule LocateCacheNode_backend [OF assms])

text \<open>An entry that no later backend touches stays beside the others.\<close>

lemma weigh_nodes_extra:
  assumes "weigh_nodes addr bs m = Some m1" "weigh_nodes addr bs n = Some n1" "keys_ascending m" "keys_ascending n"
    and "set n = set m \<union> E" "E \<subseteq> {(ep, w)}" "Some ep \<notin> backend_endpoint addr ` set bs"
  shows "set n1 = set m1 \<union> E"
  using assms
proof (induction bs arbitrary: m n)
  case (Cons b bs)
  obtain e where e: "backend_endpoint addr b = Some e" "weigh_nodes addr bs (map_emplace e (weight b) m) = Some m1"
      "weigh_nodes addr bs (map_emplace e (weight b) n) = Some n1"
    using Cons.prems(1,2) by (auto simp: bind_eq_Some_conv)
  have "e \<noteq> ep" using Cons.prems(7) e(1) by force
  then have "e \<in> fst ` set n \<longleftrightarrow> e \<in> fst ` set m" using Cons.prems(5,6) by force
  then have "set (map_emplace e (weight b) n) = set (map_emplace e (weight b) m) \<union> E"
    using Cons.prems(3-5) by (auto simp: set_map_emplace)
  moreover have "Some ep \<notin> backend_endpoint addr ` set bs" using Cons.prems(7) by simp
  ultimately show ?case
    by (intro Cons.IH [OF e(2,3) keys_ascending_emplace [OF Cons.prems(3)] keys_ascending_emplace [OF Cons.prems(4)] _ Cons.prems(6)])
qed simp

lemma weigh_nodes_insert:
  assumes "weigh_nodes addr (bs1 @ bs2) [] = Some m" "weigh_nodes addr (bs1 @ b # bs2) [] = Some m'"
    and "backend_endpoint addr b \<notin> backend_endpoint addr ` set bs2"
  shows "\<exists>ep E. backend_endpoint addr b = Some ep \<and> set m' = set m \<union> E \<and> E \<subseteq> {(ep, weight b)}"
proof -
  obtain k where k: "weigh_nodes addr bs1 [] = Some k" "weigh_nodes addr bs2 k = Some m"
    using assms(1) by (auto simp: weigh_nodes_append bind_eq_Some_conv)
  then obtain ep where ep: "backend_endpoint addr b = Some ep" "weigh_nodes addr bs2 (map_emplace ep (weight b) k) = Some m'"
    using assms(2) by (auto simp: weigh_nodes_append bind_eq_Some_conv)
  have asc: "keys_ascending k" using weigh_nodes_ascending [OF k(1)] by simp
  let ?E = "if ep \<in> fst ` set k then {} else {(ep, weight b)}"
  have "set (map_emplace ep (weight b) k) = set k \<union> ?E" by (simp add: set_map_emplace [OF asc])
  from weigh_nodes_extra [OF k(2) ep(2) asc keys_ascending_emplace [OF asc] this, of ep "weight b"] assms(3) ep(1)
  have "set m' = set m \<union> ?E" by auto
  moreover have "?E \<subseteq> {(ep, weight b)}" by simp
  ultimately show ?thesis using ep(1) by blast
qed

text \<open>
  C26. Consistent hashing: when a backend is added anywhere in the list, a key either stays where it was or moves to the new
  backend; no key moves between the old ones.  Read from right to left: when any backend is removed, only its own keys
  move.  This holds for every key whose owning hash point (the next one on the ring) is not shared by points of two
  different old endpoints; for those the code leaves the choice to \<^verbatim>\<open>std::sort\<close>.  The new backend must not repeat the
  endpoint of a later one, whose weight it would replace, and the old weights are positive.
\<close>

theorem locate_add_backend:
  assumes "cache_sort srt" and kd: "KeyDistributer addr srt (bs1 @ bs2) = Some kd"
    and kd': "KeyDistributer addr srt (bs1 @ b # bs2) = Some kd'"
    and bs: "bs1 @ bs2 \<noteq> []" "\<forall>b\<in>set (bs1 @ bs2). 0 < unat (weight b)"
    and new: "backend_endpoint addr b \<notin> backend_endpoint addr ` set bs2"
    and nocoll: "\<And>p q h. doobs_hash key (ucast len) 0 = Some h \<Longrightarrow> p \<in> set (cache_points kd) \<Longrightarrow> q \<in> set (cache_points kd)
        \<Longrightarrow> hash_point p = ring_succ (hash_point ` set (cache_points kd)) h \<Longrightarrow> hash_point q = hash_point p
        \<Longrightarrow> endpoint p = endpoint q"
  shows "LocateCacheNode kd' key len = LocateCacheNode kd key len
    \<or> LocateCacheNode kd' key len = backend_endpoint addr b"
proof (cases "doobs_hash key (ucast len) 0")
  case None
  then show ?thesis by (simp add: LocateCacheNode_def)
next
  case (Some h)
  obtain m where m: "weigh_nodes addr (bs1 @ bs2) [] = Some m" "cache_points kd = srt (concat (map points_of m))"
    using kd bs(1) by (auto simp: KeyDistributer_eq)
  obtain m' where m': "weigh_nodes addr (bs1 @ b # bs2) [] = Some m'"
    "cache_points kd' = srt (concat (map points_of m'))"
    using kd' by (auto simp: KeyDistributer_eq)
  obtain ep E where ep: "backend_endpoint addr b = Some ep" "set m' = set m \<union> E" "E \<subseteq> {(ep, weight b)}"
    using weigh_nodes_insert [OF m(1) m'(1) new] by blast
  let ?P = "concat (map points_of m)" and ?P' = "concat (map points_of m')"
  have sub: "set ?P \<subseteq> set ?P'" "\<And>p. p \<in> set ?P' \<Longrightarrow> p \<in> set ?P \<or> endpoint p = ep"
    using ep(2) subsetD [OF ep(3)] by (auto dest!: endpoint_points_of)
  have ne: "?P \<noteq> []" by (rule points_nonempty [OF m(1) bs])
  then have ne': "?P' \<noteq> []" using sub(1) by (metis set_empty subset_empty)
  have pts: "set (cache_points kd) = set ?P" using m(2) cache_sort.same_points [OF assms(1)] by simp
  obtain p where p: "p \<in> set ?P" "LocateCacheNode kd key len = Some (endpoint p)"
    "hash_point p = ring_succ (hash_point ` set ?P) h"
    using cache_sort.locate_owner [OF assms(1) m(2) ne Some] by blast
  obtain q where q: "q \<in> set ?P'" "LocateCacheNode kd' key len = Some (endpoint q)"
    "hash_point q = ring_succ (hash_point ` set ?P') h"
    using cache_sort.locate_owner [OF assms(1) m'(2) ne' Some] by blast
  show ?thesis
  proof (cases "endpoint q = ep")
    case False
    then have qP: "q \<in> set ?P" using q(1) sub(2) by blast
    then have "hash_point q \<in> hash_point ` set ?P" by blast
    then have "hash_point q = hash_point p"
      using ring_succ_mono [OF finite_imageI [OF finite_set] image_mono [OF sub(1)]] p(3) q(3) by metis
    then have "endpoint p = endpoint q"
      using nocoll [OF Some, of p q] qP p(1,3) unfolding pts by simp
    with p q show ?thesis by simp
  qed (use q ep in simp)
qed

section \<open>A concrete ring\<close>

abbreviation backend1 :: Backend where "backend1 \<equiv> \<lparr>host = ''10.0.0.1'', port = 80, weight = 5\<rparr>"
abbreviation backend2 :: Backend where "backend2 \<equiv> \<lparr>host = ''10.0.0.1'', port = 81, weight = 3\<rparr>"

definition ring1 :: KeyDistributer where
  "ring1 = the (KeyDistributer sample_addr (sort_key hash_point) [backend1])"

definition ring2 :: KeyDistributer where
  "ring2 = the (KeyDistributer sample_addr (sort_key hash_point) [backend1, backend2])"

lemma rings:
  "KeyDistributer sample_addr (sort_key hash_point) [backend1] = Some ring1"
  "KeyDistributer sample_addr (sort_key hash_point) [backend1, backend2] = Some ring2"
  by (simp_all add: ring1_def ring2_def KeyDistributer_def BuildCachePoints_eq backend_endpoint_def
      sample_addr_def)

lemma ring1_endpoints: "p \<in> set (cache_points ring1) \<Longrightarrow> endpoint p = Endpoint 0x0A000001 80"
proof -
  have "cache_points ring1 = sort_key hash_point (points_of (Endpoint 0x0A000001 80, 5))"
    by (simp add: ring1_def KeyDistributer_def BuildCachePoints_eq backend_endpoint_def sample_addr_def)
  then show "p \<in> set (cache_points ring1) \<Longrightarrow> ?thesis" by (auto dest: endpoint_points_of)
qed

theorem locate_configured_witness: "LocateCacheNode ring2 ''key'' 3 \<in> {Some (Endpoint 0x0A000001 80), Some (Endpoint 0x0A000001 81)}"
proof -
  have "\<exists>b\<in>set [backend1, backend2]. LocateCacheNode ring2 ''key'' 3 = backend_endpoint sample_addr b
      \<and> backend_endpoint sample_addr b \<noteq> None"
    by (rule locate_configured [OF stable_sort.cache_sort_axioms rings(2)]) auto
  then show ?thesis by (auto simp: backend_endpoint_def sample_addr_def)
qed

theorem locate_add_backend_witness:
  "LocateCacheNode ring2 ''key'' 3 = LocateCacheNode ring1 ''key'' 3
   \<or> LocateCacheNode ring2 ''key'' 3 = backend_endpoint sample_addr backend2"
proof -
  have one: "KeyDistributer sample_addr (sort_key hash_point) ([backend1] @ []) = Some ring1"
    and two: "KeyDistributer sample_addr (sort_key hash_point) ([backend1] @ backend2 # []) = Some ring2"
    using rings by simp_all
  show ?thesis
    by (rule locate_add_backend [OF stable_sort.cache_sort_axioms one two])
      (auto simp: ring1_endpoints)
qed

end
