(* ===== verification/Key_Locator.thy ===== *)
theory Key_Locator
  imports Key_Distributer
begin

text \<open>
  From a key to a backend, \<^verbatim>\<open>key_locator.h\<close> and \<^verbatim>\<open>key_locator.cc\<close>: the namespace is what stands before
  the first \<^verbatim>\<open>:\<close> of the key, each namespace of each protocol has the distributer of its cluster.

  The configuration singleton is an argument.  The map from namespaces to (shared pointers to)
  distributers is a partial function; a null pointer that \<^verbatim>\<open>operator[]\<close> would insert is the missing
  entry, and calling through it is undefined (\<open>None\<close>).
\<close>

section \<open>The model\<close>

type_synonym KeyLocator = "string \<rightharpoonup> KeyDistributer"

fun ProtocolNs :: "ProtocolType \<Rightarrow> string" where
  "ProtocolNs MEMCACHED = ''m''"
| "ProtocolNs REDIS = ''r''"
| "ProtocolNs NONE = ''''"

definition ns_key :: "ProtocolType \<Rightarrow> string \<Rightarrow> string" where
  "ns_key prot ns = ProtocolNs prot @ ''/'' @ ns"

definition ns_name :: "ProtocolType \<Rightarrow> string \<Rightarrow> string" where
  "ns_name prot ns = ns_key prot (if ns = ''_'' then '''' else ns)"

text \<open>\<^verbatim>\<open>emplace\<close>: the first entry of a namespace stays.\<close>

definition ns_emplace :: "KeyDistributer \<Rightarrow> ProtocolType \<Rightarrow> KeyLocator \<Rightarrow> string \<Rightarrow> KeyLocator" where
  "ns_emplace kd prot m ns =
     (let k = ns_name prot ns
      in case m k of None \<Rightarrow> m(k \<mapsto> kd) | Some _ \<Rightarrow> m)"

fun add_clusters :: "addr_parser \<Rightarrow> point_sort \<Rightarrow> Cluster list \<Rightarrow> KeyLocator \<Rightarrow> KeyLocator option" where
  "add_clusters addr srt [] m = Some m"
| "add_clusters addr srt (cl # cls) m = do {
     kd \<leftarrow> KeyDistributer addr srt (backends cl);
     add_clusters addr srt cls (foldl (ns_emplace kd (protocol cl)) m (namespaces cl))
   }"

definition locator_Initialize :: "addr_parser \<Rightarrow> point_sort \<Rightarrow> Config \<Rightarrow> KeyLocator \<Rightarrow> (bool \<times> KeyLocator) option" where
  "locator_Initialize addr srt c m =
     (if clusters c = [] then Some (False, m)
      else map_option (\<lambda>m. (True, m)) (add_clusters addr srt (clusters c) m))"

text \<open>The default of the switch fails its assert.\<close>

fun DefaultNamespace :: "ProtocolType \<Rightarrow> string option" where
  "DefaultNamespace REDIS = Some ''0/''"
| "DefaultNamespace MEMCACHED = Some ''1/''"
| "DefaultNamespace NONE = None"

text \<open>
  \<^verbatim>\<open>memchr(key, ':', std::min(int(len), max_namespace_length() + 1))\<close>: the bound is an \<^verbatim>\<open>int\<close> that
  becomes a \<^verbatim>\<open>size_t\<close>; the sum overflows for the greatest \<^verbatim>\<open>int\<close>.  When the byte is not found, the whole
  range has been read.
\<close>

definition KeyNamespace :: "Config \<Rightarrow> bytes \<Rightarrow> size_t \<Rightarrow> ProtocolType \<Rightarrow> string option" where
  "KeyNamespace c key len prot =
     (if max_namespace_length c = 2 ^ 31 - 1 then None
      else
        let n = unat (word_of_int (min (int32 (uint len)) (max_namespace_length c + 1)) :: size_t)
        in case memchr key (CHR '':'') n of
             Some p \<Rightarrow> Some (ns_key prot (take p key))
           | None \<Rightarrow> if n \<le> length key then Some (ns_key prot '''') else None)"

definition Locate :: "Config \<Rightarrow> KeyLocator \<Rightarrow> bytes \<Rightarrow> size_t \<Rightarrow> ProtocolType \<Rightarrow> Endpoint option" where
  "Locate c m key len prot = do {
     k \<leftarrow> KeyNamespace c key len prot;
     kd \<leftarrow> (case m k of
         Some kd \<Rightarrow> Some kd
       | None \<Rightarrow> do { d \<leftarrow> DefaultNamespace prot; m d });
     LocateCacheNode kd key len
   }"

section \<open>The map that initialisation builds\<close>

lemma ns_key_inj: "prot \<noteq> NONE \<Longrightarrow> prot' \<noteq> NONE \<Longrightarrow> ns_key prot a = ns_key prot' b \<longleftrightarrow> prot = prot' \<and> a = b"
  by (cases prot; cases prot') (auto simp: ns_key_def)

lemma default_not_ns_key: "DefaultNamespace prot = Some d \<Longrightarrow> d \<noteq> ns_key prot' a"
  by (cases prot; cases prot') (auto simp: ns_key_def)

text \<open>The first cluster that has the namespace, in the order of the file.\<close>

definition serves :: "Cluster \<Rightarrow> string \<Rightarrow> bool" where
  "serves cl k \<longleftrightarrow> (\<exists>ns\<in>set (namespaces cl). k = ns_name (protocol cl) ns)"

definition first_serving :: "Cluster list \<Rightarrow> string \<Rightarrow> Cluster option" where
  "first_serving cls k = find (\<lambda>cl. serves cl k) cls"

lemma foldl_ns_emplace:
  "foldl (ns_emplace kd prot) m nss k =
     (case m k of Some x \<Rightarrow> Some x
      | None \<Rightarrow> if \<exists>ns\<in>set nss. k = ns_name prot ns then Some kd else None)"
proof (induction nss arbitrary: m)
  case (Cons ns nss)
  have "ns_emplace kd prot m ns k = (case m k of Some x \<Rightarrow> Some x
      | None \<Rightarrow> if k = ns_name prot ns then Some kd else None)"
    by (auto simp: ns_emplace_def Let_def split: option.splits)
  then show ?case by (cases "m k") (auto simp: Cons)
qed (simp split: option.split)

lemma add_clusters_lookup:
  "add_clusters addr srt cls m = Some m' \<Longrightarrow>
   m' k = (case m k of Some x \<Rightarrow> Some x
     | None \<Rightarrow> (case first_serving cls k of None \<Rightarrow> None | Some cl \<Rightarrow> KeyDistributer addr srt (backends cl)))"
proof (induction cls arbitrary: m)
  case (Cons cl cls)
  from Cons.prems obtain kd where kd: "KeyDistributer addr srt (backends cl) = Some kd"
    and r: "add_clusters addr srt cls (foldl (ns_emplace kd (protocol cl)) m (namespaces cl)) = Some m'"
    by (auto simp: bind_eq_Some_conv)
  from Cons.IH [OF r] kd show ?case
    by (auto simp: foldl_ns_emplace first_serving_def serves_def split: option.splits if_splits)
qed (simp add: first_serving_def split: option.split)

section \<open>Where a key is routed\<close>

text \<open>The namespace of a key: what stands before its first colon, if that is within the limit.\<close>

definition key_ns :: "int \<Rightarrow> bytes \<Rightarrow> string" where
  "key_ns limit key =
     (let p = takeWhile (\<lambda>x. x \<noteq> CHR '':'') key
      in if length p < length key \<and> int (length p) \<le> limit then p else '''')"

lemma memchr_key_ns:
  "(case memchr key (CHR '':'') (min (length key) (Suc n)) of Some p \<Rightarrow> take p key | None \<Rightarrow> '''')
     = key_ns (int n) key"
proof (cases "memchr key (CHR '':'') (min (length key) (Suc n))")
  case None
  then have no: "CHR '':'' \<notin> set (take (Suc n) key)"
    by (simp add: memchr_None min_def take_all split: if_splits)
  have "key_ns (int n) key = ''''"
  proof (cases "CHR '':'' \<in> set key")
    case True
    then obtain xs ys where k: "key = xs @ CHR '':'' # ys" "CHR '':'' \<notin> set xs"
      by (meson split_list_first)
    with no have "Suc n \<le> length xs" by (auto simp: take_Cons' not_less_eq_eq split: if_splits)
    moreover have "takeWhile (\<lambda>x. x \<noteq> CHR '':'') key = xs"
    proof -
      have "\<forall>x\<in>set xs. x \<noteq> CHR '':''" using k(2) by blast
      then show ?thesis by (simp add: k(1) takeWhile_append2)
    qed
    ultimately show ?thesis by (simp add: key_ns_def)
  next
    case False
    then have "takeWhile (\<lambda>x. x \<noteq> CHR '':'') key = key" by (auto simp: takeWhile_eq_all_conv)
    then show ?thesis by (simp add: key_ns_def del: takeWhile_eq_all_conv)
  qed
  with None show ?thesis by simp
next
  case (Some i)
  from memchr_Some [OF this] have i: "i \<le> n" "i < length key" "key ! i = CHR '':''"
    "CHR '':'' \<notin> set (take i key)" by auto
  have "takeWhile (\<lambda>x. x \<noteq> CHR '':'') key = take i key"
    using i(2-4) by (intro takeWhile_eq_take_P_nth) (auto simp: in_set_conv_nth)
  with i Some show ?thesis by (simp add: key_ns_def)
qed

lemma memchr_mem:
  "n \<le> length key \<Longrightarrow> memchr (key @ rest) c n = memchr key c n"
proof (induction key arbitrary: n)
  case Nil
  then show ?case by (cases rest) auto
qed auto

lemma KeyNamespace_eq:
  assumes "0 < max_namespace_length c" "max_namespace_length c < 2 ^ 31 - 1" "length key < 2 ^ 31"
  shows "KeyNamespace c (key @ rest) (of_nat (length key)) prot
    = Some (ns_key prot (key_ns (max_namespace_length c) key))"
proof -
  define n where "n = nat (max_namespace_length c)"
  have mx: "max_namespace_length c = int n" "n < 2 ^ 31" using assms(1,2) by (auto simp: n_def)
  have "uint (of_nat (length key) :: size_t) = int (length key)"
    using assms(3) by (simp add: uint_nat unat_of_nat_size_t)
  then have b: "min (int32 (uint (of_nat (length key) :: size_t))) (max_namespace_length c + 1)
      = int (min (length key) (Suc n))"
    using assms(3) mx by (simp add: int32_id)
  have "unat (word_of_int (int (min (length key) (Suc n))) :: size_t) = min (length key) (Suc n)"
  proof -
    have "min (length key) (Suc n) < 2 ^ 64"
      using assms(3) by (intro le_less_trans [OF min.cobounded1]) simp
    then show ?thesis by (simp only: of_int_of_nat_eq unat_of_nat_size_t)
  qed
  moreover have "min (length key) (Suc n) \<le> length (key @ rest)"
    by (intro min.coboundedI1) simp
  ultimately have "KeyNamespace c (key @ rest) (of_nat (length key)) prot =
      (case memchr (key @ rest) (CHR '':'') (min (length key) (Suc n)) of
         Some p \<Rightarrow> Some (ns_key prot (take p (key @ rest))) | None \<Rightarrow> Some (ns_key prot ''''))"
    using assms(2) b by (simp add: KeyNamespace_def split: option.split)
  also have "\<dots> = Some (ns_key prot (case memchr key (CHR '':'') (min (length key) (Suc n)) of
      Some p \<Rightarrow> take p key | None \<Rightarrow> ''''))"
    by (auto simp: memchr_mem dest: memchr_Some split: option.split)
  finally show ?thesis using mx(1) by (simp only: memchr_key_ns)
qed

lemma Locate_eq:
  assumes "locator_Initialize addr srt c Map.empty = Some (True, m)"
    and "0 < max_namespace_length c" "max_namespace_length c < 2 ^ 31 - 1" "length key < 2 ^ 31"
  shows "Locate c m (key @ rest) (of_nat (length key)) prot =
    (case first_serving (clusters c) (ns_key prot (key_ns (max_namespace_length c) key)) of
       None \<Rightarrow> None
     | Some cl \<Rightarrow> do {
         kd \<leftarrow> KeyDistributer addr srt (backends cl);
         LocateCacheNode kd (key @ rest) (of_nat (length key))
       })"
proof -
  have add: "add_clusters addr srt (clusters c) Map.empty = Some m"
    using assms(1) by (auto simp: locator_Initialize_def split: if_splits)
  have look: "m k = (case first_serving (clusters c) k of None \<Rightarrow> None
      | Some cl \<Rightarrow> KeyDistributer addr srt (backends cl))" for k
    using add_clusters_lookup [OF add] by simp
  have def: "do { d \<leftarrow> DefaultNamespace prot; m d } = None"
  proof (cases "DefaultNamespace prot")
    case (Some d)
    then have "first_serving (clusters c) d = None"
      using default_not_ns_key [OF Some] by (auto simp: first_serving_def serves_def ns_name_def find_None_iff)
    with Some look show ?thesis by simp
  qed simp
  let ?k = "ns_key prot (key_ns (max_namespace_length c) key)"
  have "Locate c m (key @ rest) (of_nat (length key)) prot =
      (case m ?k of None \<Rightarrow> None | Some kd \<Rightarrow> LocateCacheNode kd (key @ rest) (of_nat (length key)))"
    using def by (simp add: Locate_def KeyNamespace_eq [OF assms(2-4)] split: option.split)
  then show ?thesis
    using look [of ?k] by (simp split: option.split)
qed

text \<open>
  C27. The lookup of a key, as a function of the configuration alone: the first cluster of the file that has
  the protocol of the client and the namespace of the key (the namespace \<^verbatim>\<open>_\<close> being that of the keys
  without one) decides, with its own ring.  When no cluster serves the namespace the call is undefined:
  the fallback to \<^verbatim>\<open>DefaultNamespace\<close> looks up \<^verbatim>\<open>"0/"\<close> or \<^verbatim>\<open>"1/"\<close>, which initialisation never
  registers, and calls through the null pointer it gets.
\<close>

theorem Locate_spec:
  assumes "locator_Initialize addr srt c Map.empty = Some (True, m)"
    and "0 < max_namespace_length c" "max_namespace_length c < 2 ^ 31 - 1" "length key < 2 ^ 31"
  shows "Locate c m (key @ rest) (of_nat (length key)) prot =
    (case first_serving (clusters c) (ns_key prot (key_ns (max_namespace_length c) key)) of
       None \<Rightarrow> None
     | Some cl \<Rightarrow> do {
         kd \<leftarrow> KeyDistributer addr srt (backends cl);
         LocateCacheNode kd (key @ rest) (of_nat (length key))
       })"
  by (rule Locate_eq [OF assms])

text \<open>
  C28. From the configuration to the backend: for every well-formed configuration, as
  \<^verbatim>\<open>Initialize\<close> accepts it, with at least one cluster, building the locator does not
  fail, and a key whose namespace is served by a cluster with backends is sent to one of the backends of that
  cluster. Key and namespace limit are below \<open>2\<^sup>3\<^sup>1\<close>.
\<close>

theorem routed_to_cluster:
  assumes "cache_sort srt" and "config_ok addr c" "clusters c \<noteq> []"
    and "max_namespace_length c < 2 ^ 31 - 1" "length key < 2 ^ 31"
    and "first_serving (clusters c) (ns_key prot (key_ns (max_namespace_length c) key)) = Some cl"
    and "backends cl \<noteq> []" "length key + length rest < 2 ^ 32"
  shows "\<exists>m. locator_Initialize addr srt c Map.empty = Some (True, m)
    \<and> (\<exists>b\<in>set (backends cl). backend_endpoint addr b \<noteq> None
        \<and> Locate c m (key @ rest) (of_nat (length key)) prot = backend_endpoint addr b)"
proof -
  have w: "weigh_nodes addr bs m \<noteq> None" if "\<forall>b\<in>set bs. backend_ok addr b" for bs m
    using that
    by (induction bs arbitrary: m) (auto simp: backend_ok_def backend_endpoint_def)
  have kd: "\<exists>kd. KeyDistributer addr srt bs = Some kd" if "\<forall>b\<in>set bs. backend_ok addr b" for bs
    using w [OF that, of "[]"] by (auto simp: KeyDistributer_eq)
  have ok: "\<forall>cl\<in>set (clusters c). \<forall>b\<in>set (backends cl). backend_ok addr b"
    and mx: "0 < max_namespace_length c"
    using assms(2) by (auto simp: config_ok_def)
  have "\<exists>m'. add_clusters addr srt cls m = Some m'"
    if "\<forall>cl\<in>set cls. \<forall>b\<in>set (backends cl). backend_ok addr b" for cls m
    using that
  proof (induction cls arbitrary: m)
    case (Cons cl cls)
    then show ?case using kd [of "backends cl"] by fastforce
  qed simp
  then obtain m where "add_clusters addr srt (clusters c) Map.empty = Some m" using ok by blast
  then have m: "locator_Initialize addr srt c Map.empty = Some (True, m)"
    using assms(3) by (simp add: locator_Initialize_def)
  have "cl \<in> set (clusters c)"
    using assms(6) by (auto simp: first_serving_def find_Some_iff)
  with ok have bok: "\<forall>b\<in>set (backends cl). backend_ok addr b" by blast
  then obtain d where d: "KeyDistributer addr srt (backends cl) = Some d" using kd by blast
  have "\<exists>b\<in>set (backends cl). LocateCacheNode d (key @ rest) (of_nat (length key)) = backend_endpoint addr b
      \<and> backend_endpoint addr b \<noteq> None"
    using bok assms(7,8) by (intro LocateCacheNode_backend [OF assms(1) d]) (auto simp: backend_ok_def unat_of_nat_size_t)
  then show ?thesis
    using m Locate_eq [OF m mx assms(4,5), of rest prot] assms(6) d by auto
qed

definition sample_locator :: KeyLocator where
  "sample_locator = snd (the (locator_Initialize sample_addr (sort_key hash_point) sample_config Map.empty))"

lemma sample_locator_init:
  "locator_Initialize sample_addr (sort_key hash_point) sample_config Map.empty = Some (True, sample_locator)"
  using rings(1) by (simp add: sample_locator_def locator_Initialize_def sample_config_def)

theorem Locate_spec_witness:
  "Locate sample_config sample_locator ''b:x'' 3 REDIS = None
   \<and> Locate sample_config sample_locator ''a:x'' 3 REDIS = LocateCacheNode ring1 ''a:x'' 3"
proof -
  note spec = Locate_spec [OF sample_locator_init, of "''b:x''" "[]" REDIS]
    Locate_spec [OF sample_locator_init, of "''a:x''" "[]" REDIS]
  have "first_serving (clusters sample_config) (ns_key REDIS ''b'') = None"
    "first_serving (clusters sample_config) (ns_key REDIS ''a'')
       = Some \<lparr>protocol = REDIS, namespaces = [''a'', ''_''], backends = [backend1]\<rparr>"
    by (simp_all add: first_serving_def serves_def sample_config_def ns_name_def ns_key_def)
  with spec show ?thesis
    by (simp add: key_ns_def rings sample_config_def Config0_def)
qed

theorem routed_to_cluster_witness:
  "\<exists>m. locator_Initialize sample_addr (sort_key hash_point) sample_config Map.empty = Some (True, m)
    \<and> (\<exists>b\<in>set [backend1]. backend_endpoint sample_addr b \<noteq> None
        \<and> Locate sample_config m ''plain'' 5 REDIS = backend_endpoint sample_addr b)"
proof -
  let ?cl = "\<lparr>protocol = REDIS, namespaces = [''a'', ''_''], backends = [backend1]\<rparr>"
  have "config_ok sample_addr sample_config"
    by (auto simp: config_ok_def sample_config_def Config0_def valid_ctx_def backend_ok_def sample_addr_def
        intro: exI [of _ 6])
  then have "\<exists>m. locator_Initialize sample_addr (sort_key hash_point) sample_config Map.empty = Some (True, m)
    \<and> (\<exists>b\<in>set (backends ?cl). backend_endpoint sample_addr b \<noteq> None
        \<and> Locate sample_config m (''plain'' @ []) (of_nat (length ''plain'')) REDIS = backend_endpoint sample_addr b)"
    by (rule routed_to_cluster [OF stable_sort.cache_sort_axioms])
      (simp_all add: sample_config_def Config0_def first_serving_def serves_def ns_name_def ns_key_def key_ns_def)
  then show ?thesis by simp
qed

end
