(* ===== verification/Slab_Allocator.thy ===== *)
theory Slab_Allocator
  imports Config_File
begin

text \<open>
  The per-worker allocator of buffers, \<^verbatim>\<open>allocator.h\<close> and \<^verbatim>\<open>allocator.cc\<close>: one reserved area that is
  cut into slabs of the buffer size, and the heap when the slabs are used up.

  Addresses are natural numbers, 0 is the null pointer.  What \<^verbatim>\<open>new char[n]\<close> returns is an argument of
  the operations that call it.  \<^verbatim>\<open>std::set<char*>\<close> is an ascending list, so that \<^verbatim>\<open>begin()\<close> is its head.
\<close>

section \<open>The model\<close>

record Allocator =
  slab_size :: int
  reserved_space :: nat
  reserved_space_size :: int
  free_slabs :: "nat list"

text \<open>
  \<^verbatim>\<open>for(auto p = reserved_space_; p < end; p += buffer_size) free_slabs_.insert(p);\<close>  With a buffer size of
  0 the loop does not end, with a negative one it leaves the area: \<open>None\<close>.
\<close>

partial_function (option) slab_loop :: "int \<Rightarrow> nat \<Rightarrow> nat \<Rightarrow> nat list \<Rightarrow> nat list option" where
  "slab_loop n lim p free =
     (if p < lim then
        if n < 0 then None else slab_loop n lim (p + nat n) (insort_insert p free)
      else Some free)"

definition Allocator :: "nat \<Rightarrow> int \<Rightarrow> int \<Rightarrow> Allocator option" where
  "Allocator space n reserved =
     (if reserved = 0 then
        Some \<lparr>slab_size = n, reserved_space = 0, reserved_space_size = reserved, free_slabs = []\<rparr>
      else if reserved < 0 then None
      else do {
        free \<leftarrow> slab_loop n (space + nat reserved) space [];
        Some \<lparr>slab_size = n, reserved_space = space, reserved_space_size = reserved, free_slabs = free\<rparr>
      })"

text \<open>The argument \<open>fresh\<close> is what \<^verbatim>\<open>new char[buffer_size_]\<close> would return.\<close>

definition Alloc :: "nat \<Rightarrow> Allocator \<Rightarrow> nat \<times> Allocator" where
  "Alloc fresh a =
     (case free_slabs a of
        [] \<Rightarrow> (fresh, a)
      | slab # rest \<Rightarrow> (slab, a\<lparr>free_slabs := rest\<rparr>))"

text \<open>The flag says that the slab goes back to the heap (\<^verbatim>\<open>delete []slab\<close>).\<close>

definition in_reserved :: "Allocator \<Rightarrow> nat \<Rightarrow> bool" where
  "in_reserved a slab \<longleftrightarrow>
     reserved_space a \<noteq> 0 \<and> reserved_space a \<le> slab
     \<and> int slab < int (reserved_space a) + reserved_space_size a"

definition alloc_Release :: "nat \<Rightarrow> Allocator \<Rightarrow> bool \<times> Allocator" where
  "alloc_Release slab a =
     (if \<not> in_reserved a slab then (True, a)
      else (False, a\<lparr>free_slabs := insort_insert slab (free_slabs a)\<rparr>))"

section \<open>The slabs of the reserved area\<close>

lemma slab_loop_done: "\<not> p < e \<Longrightarrow> slab_loop n e p free = Some free"
  by (simp add: slab_loop.simps)

text \<open>The loop ends for every positive buffer size; it inserts every \<open>n\<close>-th address of the area.\<close>

lemma slab_loop_total:
  assumes "0 < n"
  shows "\<exists>free'. slab_loop n e p free = Some free'
    \<and> set free' = set free \<union> {q. \<exists>i. q = p + i * nat n \<and> q < e}
    \<and> (sorted free \<and> distinct free \<longrightarrow> sorted free' \<and> distinct free')"
proof (induction "e - p" arbitrary: p free rule: less_induct)
  case less
  show ?case
  proof (cases "p < e")
    case False
    then show ?thesis by (intro exI [of _ free]) (auto simp: slab_loop_done)
  next
    case True
    let ?p = "p + nat n"
    have "e - ?p < e - p" using True assms by auto
    from less.hyps [OF this, of "insort_insert p free"] obtain free' where f:
      "slab_loop n e ?p (insort_insert p free) = Some free'"
      "set free' = set (insort_insert p free) \<union> {q. \<exists>i. q = ?p + i * nat n \<and> q < e}"
      "sorted (insort_insert p free) \<and> distinct (insort_insert p free) \<longrightarrow> sorted free' \<and> distinct free'"
      by blast
    have "{q. \<exists>i. q = p + i * nat n \<and> q < e} = insert p {q. \<exists>i. q = ?p + i * nat n \<and> q < e}"
    proof (intro set_eqI iffI)
      fix q
      assume "q \<in> {q. \<exists>i. q = p + i * nat n \<and> q < e}"
      then obtain i where "q = p + i * nat n" "q < e" by blast
      then show "q \<in> insert p {q. \<exists>i. q = ?p + i * nat n \<and> q < e}"
        by (cases i) (auto simp: algebra_simps)
    next
      fix q
      assume q: "q \<in> insert p {q. \<exists>i. q = ?p + i * nat n \<and> q < e}"
      show "q \<in> {q. \<exists>i. q = p + i * nat n \<and> q < e}"
      proof (cases "q = p")
        case False
        with q obtain i where "q = ?p + i * nat n" "q < e" by blast
        then have "q = p + Suc i * nat n" by simp
        with \<open>q < e\<close> show ?thesis by blast
      qed (use True in \<open>auto intro: exI [of _ 0]\<close>)
    qed
    then show ?thesis
      using f True assms
      by (subst slab_loop.simps) (auto simp: set_insort_insert sorted_insort_insert distinct_insort_insert)
  qed
qed

text \<open>The addresses of the slabs of an allocator.\<close>

definition slabs :: "Allocator \<Rightarrow> nat set" where
  "slabs a = {q. reserved_space_size a \<noteq> 0 \<and> (\<exists>i. q = reserved_space a + i * nat (slab_size a))
     \<and> int q < int (reserved_space a) + reserved_space_size a}"

lemma Allocator_total:
  assumes "0 < n" and "0 \<le> reserved"
  shows "\<exists>a. Allocator space n reserved = Some a \<and> set (free_slabs a) = slabs a
    \<and> sorted (free_slabs a) \<and> distinct (free_slabs a) \<and> slab_size a = n \<and> reserved_space_size a = reserved
    \<and> (reserved \<noteq> 0 \<longrightarrow> reserved_space a = space)"
proof (cases "reserved = 0")
  case False
  obtain free where f: "slab_loop n (space + nat reserved) space [] = Some free"
    "set free = {q. \<exists>i. q = space + i * nat n \<and> q < space + nat reserved}" "sorted free" "distinct free"
    using slab_loop_total [OF assms(1), of "space + nat reserved" space "[]"] by auto
  have lim: "int q < int space + reserved \<longleftrightarrow> q < space + nat reserved" for q
    using assms(2) by auto
  show ?thesis
    using f False assms(2) by (auto simp: Allocator_def slabs_def lim)
qed (simp add: Allocator_def slabs_def)

lemma slabs_apart:
  assumes "s \<in> slabs a" "t \<in> slabs a" "s < t"
  shows "s + nat (slab_size a) \<le> t"
proof -
  obtain i j where ij: "s = reserved_space a + i * nat (slab_size a)" "t = reserved_space a + j * nat (slab_size a)"
    using assms by (auto simp: slabs_def)
  with assms(3) have "i < j" by (simp add: mult_less_cancel2)
  then have "Suc i * nat (slab_size a) \<le> j * nat (slab_size a)" by (intro mult_right_mono) auto
  with ij show ?thesis by simp
qed

section \<open>Runs of the allocator\<close>

text \<open>
  The calls of one worker: buffers are allocated for new connections and released once by the
  destructor of the connection that owns them.  The second argument is the set of the buffers in use.
  Memory from the heap lies outside of the reserved area and of what is in use.
\<close>

inductive alloc_run :: "Allocator \<Rightarrow> nat set \<Rightarrow> bool" where
  start: "Allocator space n reserved = Some a \<Longrightarrow> 0 < n \<Longrightarrow> 0 \<le> reserved \<Longrightarrow> 0 < space \<Longrightarrow> alloc_run a {}"
| alloc: "alloc_run a used \<Longrightarrow> Alloc fresh a = (slab, a') \<Longrightarrow> fresh \<notin> used \<Longrightarrow> \<not> in_reserved a fresh
    \<Longrightarrow> alloc_run a' (insert slab used)"
| release: "alloc_run a used \<Longrightarrow> slab \<in> used \<Longrightarrow> alloc_Release slab a = (del, a') \<Longrightarrow> alloc_run a' (used - {slab})"

lemma slabs_free_update [simp]: "slabs (a\<lparr>free_slabs := f\<rparr>) = slabs a" "in_reserved (a\<lparr>free_slabs := f\<rparr>) s = in_reserved a s"
  by (simp_all add: slabs_def in_reserved_def)

lemma alloc_run_inv:
  "alloc_run a used \<Longrightarrow>
     sorted (free_slabs a) \<and> distinct (free_slabs a) \<and> 0 < slab_size a \<and> (\<forall>s\<in>slabs a. in_reserved a s)
     \<and> set (free_slabs a) \<inter> used = {} \<and> set (free_slabs a) \<union> {s\<in>used. in_reserved a s} = slabs a"
proof (induction rule: alloc_run.induct)
  case (start space n reserved a)
  from Allocator_total [OF start(2,3), of space] start(1)
  have a: "set (free_slabs a) = slabs a" "sorted (free_slabs a)" "distinct (free_slabs a)" "slab_size a = n"
    "reserved_space_size a = reserved" "reserved \<noteq> 0 \<longrightarrow> reserved_space a = space"
    by auto
  have "\<forall>s\<in>slabs a. in_reserved a s"
    using a start(4) by (auto simp: slabs_def in_reserved_def)
  with a start(2) show ?case by simp
next
  case (alloc a used fresh slab a')
  show ?case
  proof (cases "free_slabs a")
    case Nil
    with alloc show ?thesis by (auto simp: Alloc_def)
  next
    case (Cons s rest)
    with alloc.hyps(2) have "slab = s" "a' = a\<lparr>free_slabs := rest\<rparr>" by (auto simp: Alloc_def)
    moreover have "in_reserved a s" using alloc.IH Cons by auto
    ultimately show ?thesis using alloc.IH Cons by auto
  qed
next
  case (release a used slab del a')
  then show ?case
    by (auto simp: alloc_Release_def set_insort_insert sorted_insort_insert distinct_insort_insert
        split: if_splits)
qed

text \<open>
  C29. No two connections share buffer memory: in every run of the allocator, the address that \<^verbatim>\<open>Alloc\<close>
  returns is not in use, and two buffers in use that come from the reserved area are at least one
  buffer size apart.
\<close>

theorem alloc_no_sharing:
  assumes "alloc_run a used" and "Alloc fresh a = (slab, a')" and "fresh \<notin> used" "\<not> in_reserved a fresh"
  shows "slab \<notin> used
    \<and> (\<forall>s\<in>insert slab used. \<forall>t\<in>insert slab used. in_reserved a s \<and> in_reserved a t \<and> s < t
         \<longrightarrow> s + nat (slab_size a) \<le> t)"
proof -
  have inv: "set (free_slabs a) \<inter> used = {}" "set (free_slabs a) \<union> {s\<in>used. in_reserved a s} = slabs a"
    using alloc_run_inv [OF assms(1)] by auto
  have slab: "slab = fresh \<or> slab \<in> set (free_slabs a)"
    using assms(2) by (auto simp: Alloc_def split: list.splits)
  have "slab \<notin> used" using slab inv(1) assms(3) by auto
  moreover have "s \<in> slabs a" if "s \<in> insert slab used" "in_reserved a s" for s
    using that slab inv assms(4) by auto
  ultimately show ?thesis using slabs_apart by blast
qed

text \<open>The allocator of a worker: the two sizes of the configuration become \<^verbatim>\<open>int\<close>.\<close>

definition worker_allocator :: "nat \<Rightarrow> Config \<Rightarrow> Allocator option" where
  "worker_allocator space c =
     Allocator space (int32 (uint (conf_buffer_size c))) (int32 (uint (reserved_buffer_space c)))"

lemma int32_of_nat: "m < 2 ^ 31 \<Longrightarrow> int32 (int m) = int m"
  by (rule int32_id) auto

lemma int32_conf: "unat (x :: size_t) = 1024 * 2 ^ k \<Longrightarrow> k \<le> 20 \<Longrightarrow> int32 (uint x) = int (unat x)"
proof -
  assume x: "unat x = 1024 * 2 ^ k" "k \<le> 20"
  have "(2 :: nat) ^ k \<le> 2 ^ 20" using x(2) by (intro power_increasing) auto
  then have "unat x < 2 ^ 31" using x(1) by simp
  then show ?thesis unfolding uint_nat by (rule int32_of_nat)
qed

text \<open>
  C30. When slabs stay inside of the reserved area.  For every configuration that is accepted, the
  constructor returns; all slabs lie inside of the area exactly when nothing is reserved or the
  reserved space is at least one buffer.  A smaller reserved space still gives one slab, which ends
  beyond the allocated area (the comment in the configuration file says that such a value disables
  the reservation).
\<close>

theorem slabs_inside_iff:
  assumes "config_ok addr c"
  shows "\<exists>a. worker_allocator space c = Some a
    \<and> ((\<forall>s\<in>set (free_slabs a). s + unat (conf_buffer_size c) \<le> space + unat (reserved_buffer_space c))
       \<longleftrightarrow> reserved_buffer_space c = 0 \<or> conf_buffer_size c \<le> reserved_buffer_space c)"
proof -
  define n where "n = unat (conf_buffer_size c)"
  define r where "r = unat (reserved_buffer_space c)"
  obtain k where k: "n = 1024 * 2 ^ k" "k \<le> 10" using assms by (auto simp: config_ok_def n_def)
  have rs: "reserved_buffer_space c = 0 \<or> (\<exists>j\<le>20. r = 1024 * 2 ^ j)"
    using assms by (auto simp: config_ok_def r_def)
  have n32: "int32 (uint (conf_buffer_size c)) = int n"
    using int32_conf [of "conf_buffer_size c" k] k by (simp add: n_def)
  have r32: "int32 (uint (reserved_buffer_space c)) = int r"
    using rs
  proof (elim disjE exE conjE)
    assume "reserved_buffer_space c = 0"
    then show ?thesis by (simp add: int32_def r_def)
  next
    fix j assume "j \<le> 20" "r = 1024 * 2 ^ j"
    then show ?thesis using int32_conf unfolding r_def by blast
  qed
  have npos: "0 < n" using k by simp
  then obtain a where a: "worker_allocator space c = Some a" "set (free_slabs a) = slabs a" "slab_size a = int n"
    "reserved_space_size a = int r" "r \<noteq> 0 \<longrightarrow> reserved_space a = space"
    using Allocator_total [of "int n" "int r" space] by (auto simp: worker_allocator_def n32 r32)
  have "(\<forall>s\<in>slabs a. s + n \<le> space + r) \<longleftrightarrow> r = 0 \<or> n \<le> r"
  proof (cases "r = 0")
    case True
    then show ?thesis using a(4) by (simp add: slabs_def)
  next
    case r0: False
    then have sp: "space \<in> slabs a" using a by (auto simp: slabs_def intro: exI [of _ 0])
    show ?thesis
    proof (cases "n \<le> r")
      case True
      obtain j where j: "r = 1024 * 2 ^ j" using rs r0 by (auto simp: r_def)
      with True k have "k \<le> j" by simp
      then have dv: "n dvd r" unfolding j k by (intro mult_dvd_mono le_imp_power_dvd) simp_all
      have "s + n \<le> space + r" if s: "s \<in> slabs a" for s
      proof -
        obtain i where i: "s = space + i * n" "s < space + r"
          using s a r0 by (auto simp: slabs_def)
        obtain q where "r = n * q" using dv by blast
        with i have "i * n < q * n" by (simp add: mult.commute)
        then have "Suc i * n \<le> q * n" by (intro mult_right_mono) auto
        with i \<open>r = n * q\<close> show ?thesis by (simp add: mult.commute)
      qed
      with True show ?thesis by blast
    next
      case False
      then have "\<not> space + n \<le> space + r" by simp
      with sp r0 False show ?thesis by blast
    qed
  qed
  then show ?thesis
    using a by (auto simp: word_le_nat_alt unat_eq_zero n_def r_def)
qed

lemma slab_loop_2: "slab_loop 10 1020 1000 [] = Some [1000, 1010]"
  by (subst slab_loop.simps, subst slab_loop.simps, subst slab_loop.simps) (simp add: insort_insert_key_def)

theorem alloc_no_sharing_witness:
  "let a = \<lparr>slab_size = 10, reserved_space = 1000, reserved_space_size = 20, free_slabs = [1010]\<rparr>
   in alloc_run a {1000} \<and> Alloc 5000 a = (1010, a\<lparr>free_slabs := []\<rparr>) \<and> 1000 + 10 \<le> (1010 :: nat)"
proof -
  let ?start = "\<lparr>slab_size = 10, reserved_space = 1000, reserved_space_size = 20, free_slabs = [1000, 1010]\<rparr>"
  let ?a = "\<lparr>slab_size = 10, reserved_space = 1000, reserved_space_size = 20, free_slabs = [1010]\<rparr>"
  have "Allocator 1000 10 20 = Some ?start" using slab_loop_2 by (simp add: Allocator_def)
  then have "alloc_run ?start {}" by (rule alloc_run.start) simp_all
  then have r: "alloc_run ?a (insert 1000 {})"
    by (rule alloc_run.alloc [where fresh = 5000]) (simp_all add: Alloc_def in_reserved_def)
  have al: "Alloc 5000 ?a = (1010, ?a\<lparr>free_slabs := []\<rparr>)" by (simp add: Alloc_def)
  have "(1010 :: nat) \<notin> insert 1000 {} \<and> (\<forall>s\<in>insert 1010 (insert 1000 {}). \<forall>t\<in>insert 1010 (insert 1000 {}).
      in_reserved ?a s \<and> in_reserved ?a t \<and> s < t \<longrightarrow> s + nat (slab_size ?a) \<le> t)"
    using alloc_no_sharing [OF r al] by (simp add: in_reserved_def)
  with r al show ?thesis by (simp add: in_reserved_def)
qed

theorem slabs_inside_witness:
  "\<exists>a. worker_allocator 1000 (Config0\<lparr>reserved_buffer_space := 1024\<rparr>) = Some a
     \<and> \<not> (\<forall>s\<in>set (free_slabs a). s + 4096 \<le> 1000 + 1024)"
proof -
  let ?c = "Config0\<lparr>reserved_buffer_space := 1024\<rparr>"
  have "config_ok sample_addr ?c"
    by (auto simp: config_ok_def Config0_def valid_ctx_def intro: exI [of _ 2] exI [of _ 0])
  from slabs_inside_iff [OF this, of 1000] show ?thesis
    by (simp add: Config0_def)
qed

end
