(* ===== verification/Backend_Conn.thy ===== *)
theory Backend_Conn
  imports Error_Code Read_Buffer Key_Distributer
begin

text \<open>
  One connection to a backend server, \<^verbatim>\<open>backend_conn.h\<close> and \<^verbatim>\<open>backend_conn.cc\<close>.

  The socket, the timers and the event loop are boost code.  A method returns the new connection and
  the list of what it asks of its surroundings, in the order of the calls: operations started on the
  socket and the timers, counters, and the callbacks it runs (\<open>QuerySent\<close>, \<open>ReplyReceived\<close>).  A
  completion handler is called by the event loop with the outcome of the operation.  In \<^verbatim>\<open>OnTimeout\<close> the
  connection is aborted after the callback has run, on the state the callback left: the list ends with
  \<open>ThenAbort\<close>.
\<close>

section \<open>The model\<close>

type_synonym conn_id = nat
type_synonym cmd_id = nat

text \<open>
  The memory that a socket write reads: the buffer of the client, the buffer of a backend connection,
  or bytes that live as long as the command (string literals, strings the command owns).
\<close>

datatype region = Client_Buffer | Backend_Buffer conn_id | Const_Data bytes

type_synonym ptr = "region \<times> nat"

definition ptr_add :: "ptr \<Rightarrow> size_t \<Rightarrow> ptr" where
  "ptr_add p n = (fst p, snd p + unat n)"

datatype timer = Write_Timer | Read_Timer

datatype counter =
    Client_Conns | Backend_Conns
  | Bytes_From_Clients | Bytes_To_Clients | Bytes_From_Backends | Bytes_To_Backends
  | Client_Read_Timeouts | Client_Write_Timeouts
  | Backend_Connect_Errors | Backend_Connect_Timeouts | Backend_Read_Timeouts | Backend_Write_Timeouts

datatype conn_act =
    Async_Connect ptr size_t
  | Async_Write ptr size_t
  | Async_Read nat size_t
  | Arm timer ErrorCode
  | Cancel timer
  | Socket_Close
  | Post_QuerySent ErrorCode
  | QuerySent ErrorCode
  | ReplyReceived ErrorCode
  | ThenAbort ErrorCode
  | Count counter size_t

record BackendConn =
  buffer :: read_buffer
  remote_endpoint :: Endpoint
  socket_open :: bool
  callback_cmd :: "cmd_id option"
  no_recycle :: bool
  aborted :: bool
  is_reading_reply :: bool
  has_read_some_reply :: bool
  reply_recv_complete :: bool
  write_timer_canceled :: bool
  read_timer_canceled :: bool

definition BackendConn :: "bytes \<Rightarrow> size_t \<Rightarrow> Endpoint \<Rightarrow> BackendConn" where
  "BackendConn mem n ep =
     \<lparr>buffer = ReadBuffer mem n, remote_endpoint = ep, socket_open = False, callback_cmd = None,
      no_recycle = False, aborted = False, is_reading_reply = False, has_read_some_reply = False,
      reply_recv_complete = False, write_timer_canceled = False, read_timer_canceled = False\<rparr>"

definition SetReadWriteCallback :: "cmd_id \<Rightarrow> BackendConn \<Rightarrow> BackendConn" where
  "SetReadWriteCallback cmd b = b\<lparr>callback_cmd := Some cmd\<rparr>"

definition finished :: "BackendConn \<Rightarrow> bool" where
  "finished b \<longleftrightarrow> reply_recv_complete b \<and> unprocessed_bytes (buffer b) = 0"

definition recyclable :: "BackendConn \<Rightarrow> bool" where
  "recyclable b \<longleftrightarrow> \<not> no_recycle b \<and> finished b"

definition set_reply_recv_complete :: "BackendConn \<Rightarrow> BackendConn" where
  "set_reply_recv_complete b = b\<lparr>reply_recv_complete := True\<rparr>"

definition set_no_recycle :: "BackendConn \<Rightarrow> BackendConn" where
  "set_no_recycle b = b\<lparr>no_recycle := True\<rparr>"

definition conn_error :: "BackendConn \<Rightarrow> bool" where
  "conn_error b = no_recycle b"

definition Close :: "BackendConn \<Rightarrow> BackendConn \<times> conn_act list" where
  "Close b =
     (if aborted b then (b, [])
      else (b\<lparr>socket_open := False, aborted := True\<rparr>, [Socket_Close]))"

definition conn_Abort :: "ErrorCode \<Rightarrow> BackendConn \<Rightarrow> BackendConn \<times> conn_act list" where
  "conn_Abort ec b =
     (if aborted b then (b, [])
      else (b\<lparr>aborted := True, no_recycle := True, is_reading_reply := False, socket_open := False,
              write_timer_canceled := True, read_timer_canceled := True\<rparr>,
            [Socket_Close, Cancel Write_Timer, Cancel Read_Timer]))"

definition SetReplyData :: "bytes \<Rightarrow> bool \<Rightarrow> BackendConn \<Rightarrow> BackendConn option" where
  "SetReplyData bs parsed b = do {
     buf \<leftarrow> push_reply_data bs parsed (buffer_Reset (buffer b));
     Some (b\<lparr>buffer := buf\<rparr>)
   }"

definition conn_Reset :: "BackendConn \<Rightarrow> BackendConn option" where
  "conn_Reset b =
     (if no_recycle b then None
      else Some (b\<lparr>is_reading_reply := False, has_read_some_reply := False, reply_recv_complete := False,
                   write_timer_canceled := False, read_timer_canceled := False,
                   buffer := buffer_Reset (buffer b)\<rparr>))"

definition ReadReply :: "BackendConn \<Rightarrow> BackendConn \<times> conn_act list" where
  "ReadReply b =
     (let b' = b\<lparr>is_reading_reply := True, buffer := inc_recycle_lock (buffer b), read_timer_canceled := False\<rparr>
      in (b', [Arm Read_Timer E_BACKEND_READ_TIMEOUT,
               Async_Read (free_space_begin (buffer b')) (free_space_size (buffer b'))]))"

definition TryReadMoreReply :: "BackendConn \<Rightarrow> BackendConn \<times> conn_act list" where
  "TryReadMoreReply b =
     (if reply_recv_complete b \<or> is_reading_reply b \<or> \<not> has_much_free_space (buffer b)
      then (b, []) else ReadReply b)"

definition WriteQuery :: "ptr \<Rightarrow> size_t \<Rightarrow> BackendConn \<Rightarrow> BackendConn \<times> conn_act list" where
  "WriteQuery p n b =
     (if aborted b then (b, [Post_QuerySent E_WRITE_QUERY])
      else if \<not> socket_open b then
        (b\<lparr>write_timer_canceled := False, socket_open := True\<rparr>,
         [Arm Write_Timer E_BACKEND_CONNECT_TIMEOUT, Async_Connect p n])
      else (b\<lparr>write_timer_canceled := False\<rparr>,
            [Arm Write_Timer E_BACKEND_WRITE_TIMEOUT, Async_Write p n]))"

text \<open>The completion of a write: \<open>err\<close> says that boost reported an error.\<close>

definition HandleWrite ::
  "ptr \<Rightarrow> size_t \<Rightarrow> bool \<Rightarrow> size_t \<Rightarrow> BackendConn \<Rightarrow> BackendConn \<times> conn_act list" where
  "HandleWrite p n err transferred b =
     (if aborted b then (b, [])
      else let b = b\<lparr>write_timer_canceled := True\<rparr>
      in if err then
           (b\<lparr>socket_open := False\<rparr>, [Cancel Write_Timer, Socket_Close, QuerySent E_WRITE_QUERY])
         else if transferred < n then
           (b\<lparr>write_timer_canceled := False\<rparr>,
            [Cancel Write_Timer, Count Bytes_To_Backends transferred,
             Arm Write_Timer E_BACKEND_WRITE_TIMEOUT,
             Async_Write (ptr_add p transferred) (n - transferred)])
         else
           (b, [Cancel Write_Timer, Count Bytes_To_Backends transferred, QuerySent E_SUCCESS]))"

definition conn_HandleRead :: "bool \<Rightarrow> size_t \<Rightarrow> BackendConn \<Rightarrow> (BackendConn \<times> conn_act list) option" where
  "conn_HandleRead err transferred b =
     (if aborted b then Some (b, [])
      else let b = b\<lparr>read_timer_canceled := True, is_reading_reply := False\<rparr>
      in if err then
           Some (b\<lparr>socket_open := False\<rparr>, [Cancel Read_Timer, Socket_Close, ReplyReceived E_READ_REPLY])
         else do {
           buf \<leftarrow> dec_recycle_lock (update_received_bytes transferred (buffer b));
           Some (b\<lparr>has_read_some_reply := True, buffer := buf\<rparr>,
                 [Cancel Read_Timer, Count Bytes_From_Backends transferred, ReplyReceived E_SUCCESS])
         })"

text \<open>\<open>connect_err\<close> is the error of the connect, \<open>option_err\<close> that of one of the three socket options.\<close>

definition HandleConnect ::
  "ptr \<Rightarrow> size_t \<Rightarrow> bool \<Rightarrow> bool \<Rightarrow> BackendConn \<Rightarrow> BackendConn \<times> conn_act list" where
  "HandleConnect p n connect_err option_err b =
     (if aborted b then (b, [])
      else let b = b\<lparr>write_timer_canceled := True\<rparr>
      in if connect_err \<or> option_err then
           (b\<lparr>socket_open := False\<rparr>,
            [Cancel Write_Timer, Socket_Close, Count Backend_Connect_Errors 1, QuerySent E_CONNECT])
         else
           (b\<lparr>write_timer_canceled := False\<rparr>,
            [Cancel Write_Timer, Arm Write_Timer E_BACKEND_WRITE_TIMEOUT, Async_Write p n]))"

text \<open>The expiry of a timer: \<open>op_aborted\<close> says that the timer was cancelled.  Other codes fail the assert.\<close>

definition OnTimeout :: "bool \<Rightarrow> ErrorCode \<Rightarrow> BackendConn \<Rightarrow> (BackendConn \<times> conn_act list) option" where
  "OnTimeout op_aborted code b =
     (if aborted b \<or> op_aborted then Some (b, [])
      else case code of
        E_BACKEND_CONNECT_TIMEOUT \<Rightarrow>
          Some (b, if write_timer_canceled b then []
            else [Count Backend_Connect_Timeouts 1, QuerySent code, ThenAbort code])
      | E_BACKEND_WRITE_TIMEOUT \<Rightarrow>
          Some (b, if write_timer_canceled b then []
            else [Count Backend_Write_Timeouts 1, QuerySent code, ThenAbort code])
      | E_BACKEND_READ_TIMEOUT \<Rightarrow>
          Some (b, if read_timer_canceled b then []
            else [Count Backend_Read_Timeouts 1, ReplyReceived code, ThenAbort code])
      | _ \<Rightarrow> None)"

lemmas conn_handlers =
  Close_def conn_Abort_def WriteQuery_def HandleWrite_def conn_HandleRead_def HandleConnect_def OnTimeout_def

section \<open>The write of a query\<close>

text \<open>
  One connection with the operations it has outstanding, from the call of \<^verbatim>\<open>WriteQuery\<close> on: the pieces of memory that the
  socket has taken, and the results that were reported to the command.  An operation completes with any outcome; a write that
  fails may have taken some bytes, a cancelled timer may still expire.  A callback may call the methods of the list: it
  starts reading, sets a reply, closes or aborts the connection.  (It sends no other query before this one is reported, and
  the connection is not reset before the command has released it.)
\<close>

record query_run =
  run_conn :: BackendConn
  run_ops :: "conn_act list"
  run_sent :: "(ptr \<times> size_t) list"
  run_reports :: "ErrorCode list"

datatype conn_method = Call_Read | Call_Read_More | Call_Set_Reply bytes | Call_Close | Call_Abort ErrorCode

definition op_started :: "conn_act \<Rightarrow> bool" where
  "op_started a \<longleftrightarrow> (case a of Async_Connect _ _ \<Rightarrow> True | Async_Write _ _ \<Rightarrow> True | Async_Read _ _ \<Rightarrow> True | Arm _ _ \<Rightarrow> True | _ \<Rightarrow> False)"

definition run_result :: "query_run \<Rightarrow> BackendConn \<times> conn_act list \<Rightarrow> query_run" where
  "run_result r x = r\<lparr>run_conn := fst x, run_ops := run_ops r @ filter op_started (snd x)\<rparr>"

fun run_method :: "conn_method \<Rightarrow> query_run \<Rightarrow> query_run" where
  "run_method Call_Read r = run_result r (ReadReply (run_conn r))"
| "run_method Call_Read_More r = run_result r (TryReadMoreReply (run_conn r))"
| "run_method (Call_Set_Reply bs) r =
     (case SetReplyData bs True (run_conn r) of None \<Rightarrow> r | Some b \<Rightarrow> r\<lparr>run_conn := b\<rparr>)"
| "run_method Call_Close r = run_result r (Close (run_conn r))"
| "run_method (Call_Abort ec) r = run_result r (conn_Abort ec (run_conn r))"

text \<open>What a handler asks for, in order; \<open>ms\<close> are the methods that its callback calls.\<close>

fun run_follow :: "conn_method list \<Rightarrow> conn_act \<Rightarrow> query_run \<Rightarrow> query_run" where
  "run_follow ms (QuerySent ec) r = fold run_method ms (r\<lparr>run_reports := run_reports r @ [ec]\<rparr>)"
| "run_follow ms (ReplyReceived ec) r = fold run_method ms r"
| "run_follow ms (ThenAbort ec) r = run_method (Call_Abort ec) r"
| "run_follow ms a r = (if op_started a then r\<lparr>run_ops := run_ops r @ [a]\<rparr> else r)"

definition run_handled :: "conn_method list \<Rightarrow> query_run \<Rightarrow> BackendConn \<times> conn_act list \<Rightarrow> query_run" where
  "run_handled ms r x = fold (run_follow ms) (snd x) (r\<lparr>run_conn := fst x\<rparr>)"

text \<open>The completion of the operation \<open>a\<close>, which has been removed: \<open>err\<close> is its error, \<open>n\<close> the number of bytes.\<close>

fun run_complete :: "conn_method list \<Rightarrow> conn_act \<Rightarrow> bool \<Rightarrow> bool \<Rightarrow> size_t \<Rightarrow> query_run \<Rightarrow> query_run option" where
  "run_complete ms (Async_Connect p n) err err' k r = Some (run_handled ms r (HandleConnect p n err err' (run_conn r)))"
| "run_complete ms (Async_Write p n) err err' k r =
     (let k = min k n
      in Some (run_handled ms (r\<lparr>run_sent := run_sent r @ [(p, k)]\<rparr>) (HandleWrite p n err k (run_conn r))))"
| "run_complete ms (Async_Read off n) err err' k r = map_option (run_handled ms r) (conn_HandleRead err k (run_conn r))"
| "run_complete ms (Arm t code) err err' k r = map_option (run_handled ms r) (OnTimeout err code (run_conn r))"
| "run_complete ms a err err' k r = Some r"

definition writes_query :: "conn_act \<Rightarrow> bool" where
  "writes_query a \<longleftrightarrow> (case a of Async_Connect _ _ \<Rightarrow> True | Async_Write _ _ \<Rightarrow> True | _ \<Rightarrow> False)"

inductive query_runs :: "ptr \<Rightarrow> size_t \<Rightarrow> query_run \<Rightarrow> bool" for p n where
  start: "\<lbrakk>\<not> aborted b; filter writes_query stale = []\<rbrakk>
    \<Longrightarrow> query_runs p n (run_result \<lparr>run_conn = b, run_ops = stale, run_sent = [], run_reports = []\<rparr> (WriteQuery p n b))"
| turn: "\<lbrakk>query_runs p n r; a \<in> set (run_ops r); run_complete ms a err err' k (r\<lparr>run_ops := remove1 a (run_ops r)\<rparr>) = Some r'\<rbrakk>
    \<Longrightarrow> query_runs p n r'"
| call: "query_runs p n r \<Longrightarrow> query_runs p n (run_method m r)"

fun contiguous :: "ptr \<Rightarrow> (ptr \<times> size_t) list \<Rightarrow> bool" where
  "contiguous p [] = True"
| "contiguous p ((q, k) # out) = (q = p \<and> contiguous (ptr_add p k) out)"

definition bytes_taken :: "(ptr \<times> size_t) list \<Rightarrow> nat" where
  "bytes_taken out = sum_list (map (unat \<circ> snd) out)"

text \<open>
  Before the report there is one operation, which continues where the pieces end; after it the write timer counts as
  cancelled or the connection is aborted.
\<close>

definition query_inv :: "ptr \<Rightarrow> size_t \<Rightarrow> query_run \<Rightarrow> bool" where
  "query_inv p n r \<longleftrightarrow>
     (let ws = filter writes_query (run_ops r); out = run_sent r; b = run_conn r in
      contiguous p out \<and> bytes_taken out \<le> unat n
      \<and> (ws = [] \<or> ws = [Async_Connect p n] \<and> out = []
          \<or> ws = [Async_Write (fst p, snd p + bytes_taken out) (n - of_nat (bytes_taken out))])
      \<and> (run_reports r = [] \<and> (aborted b \<or> ws \<noteq> [])
         \<or> (\<exists>ec. run_reports r = [ec] \<and> (ec = E_SUCCESS \<longrightarrow> bytes_taken out = unat n)
              \<and> (aborted b \<or> ws = [] \<and> write_timer_canceled b))))"

text \<open>What the methods leave alone.\<close>

definition same_query :: "query_run \<Rightarrow> query_run \<Rightarrow> bool" where
  "same_query r r' \<longleftrightarrow>
     filter writes_query (run_ops r') = filter writes_query (run_ops r) \<and> run_sent r' = run_sent r
     \<and> run_reports r' = run_reports r \<and> (aborted (run_conn r) \<longrightarrow> aborted (run_conn r'))
     \<and> (write_timer_canceled (run_conn r) \<longrightarrow> write_timer_canceled (run_conn r'))"

lemma same_query_refl [simp]: "same_query r r"
  by (simp add: same_query_def)

lemma same_query_trans: "same_query a b \<Longrightarrow> same_query b c \<Longrightarrow> same_query a c"
  by (simp add: same_query_def)

lemma same_query_method: "same_query r (run_method m r)"
proof (cases m)
  case (Call_Set_Reply bs)
  then show ?thesis
    by (auto simp: same_query_def SetReplyData_def bind_eq_Some_conv split: option.split)
qed (simp_all add: same_query_def run_result_def ReadReply_def TryReadMoreReply_def Close_def conn_Abort_def op_started_def writes_query_def Let_def)

lemma same_query_methods: "same_query r (fold run_method ms r)"
  by (induction ms arbitrary: r) (auto intro: same_query_trans same_query_method)

lemma query_inv_same: "query_inv p n r \<Longrightarrow> same_query r r' \<Longrightarrow> query_inv p n r'"
  by (auto simp: query_inv_def same_query_def Let_def)

lemma aborts_after: "aborted (run_conn (run_method (Call_Abort ec) r))"
  by (simp add: run_result_def conn_Abort_def)

lemma contiguous_append: "contiguous p (out @ [(q, k)]) \<longleftrightarrow> contiguous p out \<and> q = (fst p, snd p + bytes_taken out)"
  by (induction p out rule: contiguous.induct) (auto simp: bytes_taken_def ptr_add_def)

lemma bytes_taken_append [simp]: "bytes_taken [] = 0" "bytes_taken (out @ [(q, k)]) = bytes_taken out + unat k"
  by (simp_all add: bytes_taken_def)

lemma op_started_simps [simp]:
  "op_started (Async_Connect p n)" "op_started (Async_Write p n)" "op_started (Async_Read i n)" "op_started (Arm t ec)"
  "\<not> op_started (Cancel t)" "\<not> op_started Socket_Close" "\<not> op_started (Count c n)"
  "writes_query (Async_Connect p n)" "writes_query (Async_Write p n)" "\<not> writes_query (Async_Read i n)"
  "\<not> writes_query (Arm t ec)"
  by (simp_all add: op_started_def writes_query_def)

lemma query_inv_start:
  assumes "\<not> aborted b" "filter writes_query stale = []"
  shows "query_inv p n (run_result \<lparr>run_conn = b, run_ops = stale, run_sent = [], run_reports = []\<rparr> (WriteQuery p n b))"
  using assms by (simp add: query_inv_def run_result_def WriteQuery_def)

text \<open>The operation that writes the query is the only one, and is gone when it completes.\<close>

lemma query_op:
  assumes "query_inv p n r" "a \<in> set (run_ops r)" "writes_query a"
  shows "filter writes_query (run_ops r) = [a]" "filter writes_query (remove1 a (run_ops r)) = []"
proof -
  have a: "a \<in> set (filter writes_query (run_ops r))" using assms(2,3) by simp
  moreover have "\<exists>x. filter writes_query (run_ops r) \<in> {[], [x]}" using assms(1) by (auto simp: query_inv_def Let_def)
  ultimately obtain x where "filter writes_query (run_ops r) = [x]" by (metis empty_iff empty_set insertE)
  with a show one: "filter writes_query (run_ops r) = [a]" by (simp only: set_simps) simp
  show "filter writes_query (remove1 a (run_ops r)) = []" using one assms(3) by (simp add: filter_remove1)
qed

lemma other_op: "\<not> writes_query a \<Longrightarrow> filter writes_query (remove1 a xs) = filter writes_query xs"
  by (simp add: filter_remove1 remove1_idem)

lemma query_inv_reported:
  assumes "contiguous p (run_sent r)" "bytes_taken (run_sent r) \<le> unat n" "filter writes_query (run_ops r) = []"
    and "run_reports r = [ec]" "ec = E_SUCCESS \<longrightarrow> bytes_taken (run_sent r) = unat n" "write_timer_canceled (run_conn r)"
  shows "query_inv p n (fold run_method ms r)"
  by (rule query_inv_same [OF _ same_query_methods]) (use assms in \<open>simp add: query_inv_def Let_def\<close>)

lemma connect_completes:
  assumes "query_inv p n r" "Async_Connect q m \<in> set (run_ops r)"
  shows "query_inv p n (run_handled ms (r\<lparr>run_ops := remove1 (Async_Connect q m) (run_ops r)\<rparr>) (HandleConnect q m err err' (run_conn r)))"
proof -
  note one = query_op [OF assms(1,2), simplified]
  have inv: "contiguous p (run_sent r)" "bytes_taken (run_sent r) \<le> unat n" "q = p" "m = n" "run_sent r = []"
    "run_reports r = [] \<or> aborted (run_conn r) \<and> (\<exists>ec. run_reports r = [ec] \<and> (ec = E_SUCCESS \<longrightarrow> bytes_taken (run_sent r) = unat n))"
    using assms(1) one(1) by (auto simp: query_inv_def Let_def)
  show ?thesis
  proof (cases "aborted (run_conn r)")
    case True
    with inv one(2) show ?thesis by (auto simp: run_handled_def HandleConnect_def query_inv_def)
  next
    case False
    with inv(6) have r: "run_reports r = []" by simp
    show ?thesis
    proof (cases "err \<or> err'")
      case True
      then show ?thesis
        using False inv r one(2) by (auto simp: run_handled_def HandleConnect_def Let_def intro!: query_inv_reported)
    next
      case no: False
      then show ?thesis
        using False inv r one(2) by (simp add: run_handled_def HandleConnect_def query_inv_def)
    qed
  qed
qed

lemma write_completes:
  assumes "query_inv p n r" "Async_Write q m \<in> set (run_ops r)" and k: "k \<le> m"
  shows "query_inv p n (run_handled ms (r\<lparr>run_ops := remove1 (Async_Write q m) (run_ops r), run_sent := run_sent r @ [(q, k)]\<rparr>)
    (HandleWrite q m err k (run_conn r)))"
proof -
  note one = query_op [OF assms(1,2), simplified]
  let ?out = "run_sent r" let ?out' = "run_sent r @ [(q, k)]"
  have inv: "contiguous p ?out" "bytes_taken ?out \<le> unat n" "q = (fst p, snd p + bytes_taken ?out)" "m = n - of_nat (bytes_taken ?out)"
    "run_reports r = [] \<or> aborted (run_conn r) \<and> (\<exists>ec. run_reports r = [ec] \<and> (ec = E_SUCCESS \<longrightarrow> bytes_taken ?out = unat n))"
    using assms(1) one(1) by (auto simp: query_inv_def Let_def)
  have t: "unat (of_nat (bytes_taken ?out) :: size_t) = bytes_taken ?out"
    using inv(2) unat_size_t [of n] by (simp add: unat_of_nat_size_t)
  have m: "unat m = unat n - bytes_taken ?out"
    unfolding inv(4) using inv(2) t by (simp add: unat_sub word_le_nat_alt)
  have km: "unat k \<le> unat m" using k by (simp add: word_le_nat_alt)
  have c: "contiguous p ?out'" "bytes_taken ?out' \<le> unat n" using inv(1-3) km m by (simp_all add: contiguous_append)
  show ?thesis
  proof (cases "aborted (run_conn r)")
    case True
    have "bytes_taken ?out' = unat n" if "bytes_taken ?out = unat n" using that m km by simp
    with True inv(5) one(2) c show ?thesis by (auto simp: run_handled_def HandleWrite_def query_inv_def Let_def)
  next
    case False
    with inv(5) have r: "run_reports r = []" by simp
    show ?thesis
    proof (cases "\<not> err \<and> k < m")
      case True
      have "m - k = n - of_nat (bytes_taken ?out')" unfolding inv(4) by (simp add: algebra_simps)
      then show ?thesis
        using True False r one(2) c inv(3)
        by (simp add: run_handled_def HandleWrite_def query_inv_def Let_def ptr_add_def add.assoc)
    next
      case fin: False
      have "bytes_taken ?out' = unat n" if "\<not> err"
      proof -
        have "k = m" using that fin k by auto
        then show ?thesis using m inv(2) by simp
      qed
      then show ?thesis
        using fin False r one(2) c
        by (auto simp: run_handled_def HandleWrite_def Let_def intro!: query_inv_reported)
    qed
  qed
qed

lemma same_query_acts:
  "set acts \<subseteq> {Cancel Read_Timer, Socket_Close, Count Bytes_From_Backends k} \<union> range ReplyReceived
     \<Longrightarrow> same_query s (fold (run_follow ms) acts s)"
proof (induction acts arbitrary: s)
  case (Cons a acts)
  then have "same_query s (run_follow ms a s)" by (auto simp: same_query_methods)
  with Cons show ?case using same_query_trans by auto
qed simp

lemma other_completes:
  assumes "query_inv p n r" "a \<in> set (run_ops r)" "\<not> writes_query a"
    and "run_complete ms a err err' k (r\<lparr>run_ops := remove1 a (run_ops r)\<rparr>) = Some r'"
  shows "query_inv p n r'"
proof -
  let ?r = "r\<lparr>run_ops := remove1 a (run_ops r)\<rparr>"
  have inv: "query_inv p n ?r" using assms(1) by (simp add: query_inv_def other_op [OF assms(3)])
  show ?thesis
  proof (cases a)
    case (Async_Read off m)
    then obtain b acts where h: "conn_HandleRead err k (run_conn r) = Some (b, acts)" "r' = run_handled ms ?r (b, acts)"
      using assms(4) by auto
    have "aborted b = aborted (run_conn r)" "write_timer_canceled b = write_timer_canceled (run_conn r)"
      "set acts \<subseteq> {Cancel Read_Timer, Socket_Close, Count Bytes_From_Backends k} \<union> range ReplyReceived"
      using h(1) by (auto simp: conn_HandleRead_def Let_def bind_eq_Some_conv split: if_split_asm)
    with same_query_acts [of acts k _ ms] have "same_query (?r\<lparr>run_conn := b\<rparr>) r'" "query_inv p n (?r\<lparr>run_conn := b\<rparr>)"
      using h(2) inv by (auto simp: run_handled_def query_inv_def Let_def)
    then show ?thesis by (blast intro: query_inv_same)
  next
    case (Arm t code)
    then obtain b acts where h: "OnTimeout err code (run_conn r) = Some (b, acts)" "r' = run_handled ms ?r (b, acts)"
      using assms(4) by auto
    have b: "b = run_conn r" using h(1) by (auto simp: OnTimeout_def split: if_split_asm ErrorCode.split_asm)
    consider "acts = []" | c where "acts = [Count c 1, ReplyReceived code, ThenAbort code]"
      | c where "acts = [Count c 1, QuerySent code, ThenAbort code]" "code \<noteq> E_SUCCESS" "\<not> aborted (run_conn r)"
          "\<not> write_timer_canceled (run_conn r)"
      using h(1) by (auto simp: OnTimeout_def split: if_split_asm ErrorCode.split_asm)
    then show ?thesis
    proof cases
      case 1
      with h(2) b inv show ?thesis by (simp add: run_handled_def)
    next
      case 2
      then have "r' = run_method (Call_Abort code) (fold run_method ms ?r)" using h(2) b by (simp add: run_handled_def)
      with inv show ?thesis by (metis query_inv_same same_query_method same_query_methods)
    next
      case 3
      let ?s = "?r\<lparr>run_reports := [code]\<rparr>"
      have rep: "run_reports r = []" using assms(1) 3 by (auto simp: query_inv_def Let_def)
      then have r': "r' = run_method (Call_Abort code) (fold run_method ms ?s)" using h(2) b 3 by (simp add: run_handled_def)
      have "same_query ?s r'" unfolding r' by (rule same_query_trans [OF same_query_methods same_query_method])
      moreover have "aborted (run_conn r')" unfolding r' by (rule aborts_after)
      ultimately show ?thesis
        using inv 3(2) by (auto simp: query_inv_def same_query_def Let_def)
    qed
  qed (use assms(3,4) inv in \<open>simp_all\<close>)
qed

lemma query_inv_runs: "query_runs p n r \<Longrightarrow> query_inv p n r"
proof (induction rule: query_runs.induct)
  case (turn r a ms err err' k r')
  show ?case
  proof (cases "writes_query a")
    case True
    show ?thesis
    proof (cases a)
      case (Async_Connect q m)
      with turn connect_completes [OF turn.IH, of q m] show ?thesis by auto
    next
      case (Async_Write q m)
      with turn write_completes [OF turn.IH, of q m "min k m"] show ?thesis by (auto simp: Let_def)
    qed (use True in \<open>simp_all add: writes_query_def\<close>)
  next
    case False
    with turn other_completes show ?thesis by blast
  qed
qed (auto intro: query_inv_start query_inv_same same_query_method)

text \<open>
  C31. The result of a query is reported to the command at most once, whatever completes and in whatever order: connect,
  write, both timers (also one that was cancelled too late), the reads; and it is reported when no part of the write is
  outstanding any more, unless the connection was aborted or closed.
\<close>

theorem query_reported_once:
  assumes "query_runs p n r"
  shows "length (run_reports r) \<le> 1
    \<and> (\<not> aborted (run_conn r) \<and> filter writes_query (run_ops r) = [] \<longrightarrow> length (run_reports r) = 1)"
  using query_inv_runs [OF assms] by (auto simp: query_inv_def Let_def)

text \<open>
  C32. However the kernel splits the write of a query, the pieces it has taken are adjacent and start at the data of the
  query, at most one write is outstanding, which continues exactly where they end, and success is reported only when
  together they are the whole query.
\<close>

theorem query_written_completely:
  assumes "query_runs p n r"
  shows "contiguous p (run_sent r) \<and> bytes_taken (run_sent r) \<le> unat n
    \<and> (E_SUCCESS \<in> set (run_reports r) \<longrightarrow> bytes_taken (run_sent r) = unat n)
    \<and> (\<forall>q m. Async_Write q m \<in> set (run_ops r) \<longrightarrow>
        q = (fst p, snd p + bytes_taken (run_sent r)) \<and> unat m = unat n - bytes_taken (run_sent r)
        \<and> filter writes_query (run_ops r) = [Async_Write q m])"
proof -
  note inv = query_inv_runs [OF assms]
  have t: "bytes_taken (run_sent r) \<le> unat n" using inv by (auto simp: query_inv_def Let_def)
  then have "unat (of_nat (bytes_taken (run_sent r)) :: size_t) = bytes_taken (run_sent r)"
    using unat_size_t [of n] by (simp add: unat_of_nat_size_t)
  then have u: "unat (n - of_nat (bytes_taken (run_sent r))) = unat n - bytes_taken (run_sent r)"
    using t by (simp add: unat_sub word_le_nat_alt)
  have "q = (fst p, snd p + bytes_taken (run_sent r)) \<and> unat m = unat n - bytes_taken (run_sent r) \<and> filter writes_query (run_ops r) = [Async_Write q m]"
    if "Async_Write q m \<in> set (run_ops r)" for q m
    using query_op(1) [OF inv that] inv u by (auto simp: query_inv_def Let_def)
  with inv t show ?thesis by (auto simp: query_inv_def Let_def)
qed

text \<open>A query of 10 bytes: the connection is made, 3 and 7 bytes are taken.\<close>

lemma sample_query_run:
  "\<exists>r. query_runs (Client_Buffer, 7) 10 r \<and> run_reports r = [E_SUCCESS] \<and> run_sent r = [((Client_Buffer, 7), 3), ((Client_Buffer, 10), 7)]
     \<and> \<not> aborted (run_conn r) \<and> filter writes_query (run_ops r) = []"
proof -
  let ?p = "(Client_Buffer, 7)" and ?b = "BackendConn [] 0 Endpoint0"
  have "query_runs ?p 10 (run_result \<lparr>run_conn = ?b, run_ops = [], run_sent = [], run_reports = []\<rparr> (WriteQuery ?p 10 ?b))"
    by (rule query_runs.start) (simp_all add: BackendConn_def)
  note a = query_runs.turn [OF this, of "Async_Connect ?p 10" "[]" False False 0]
  obtain r1 where "query_runs ?p 10 r1" "Async_Write ?p 10 \<in> set (run_ops r1)" "filter writes_query (run_ops r1) = [Async_Write ?p 10]"
      "\<not> aborted (run_conn r1)" "run_sent r1 = []" "run_reports r1 = []"
    using a by (simp add: BackendConn_def run_result_def WriteQuery_def run_handled_def HandleConnect_def)
  note r1 = this
  have f1: "filter writes_query (remove1 (Async_Write ?p 10) (run_ops r1)) = []" using r1(3) by (simp add: filter_remove1)
  note a = query_runs.turn [OF r1(1,2), of "[]" False False 3]
  obtain r2 where r2: "query_runs ?p 10 r2" "filter writes_query (run_ops r2) = [Async_Write (Client_Buffer, 10) 7]"
      "\<not> aborted (run_conn r2)" "run_sent r2 = [(?p, 3)]" "run_reports r2 = []"
    using a r1(3-6) f1 by (simp add: run_handled_def HandleWrite_def Let_def min_def ptr_add_def)
  have m2: "Async_Write (Client_Buffer, 10) 7 \<in> set (run_ops r2)"
    using arg_cong [OF r2(2), of set] by auto
  have f2: "filter writes_query (remove1 (Async_Write (Client_Buffer, 10) 7) (run_ops r2)) = []" using r2(2) by (simp add: filter_remove1)
  note a = query_runs.turn [OF r2(1) m2, of "[]" False False 7]
  obtain r3 where "query_runs ?p 10 r3" "run_reports r3 = [E_SUCCESS]" "run_sent r3 = [(?p, 3), ((Client_Buffer, 10), 7)]"
      "\<not> aborted (run_conn r3)" "filter writes_query (run_ops r3) = []"
    using a r2(3-5) f2 by (simp add: run_handled_def HandleWrite_def Let_def)
  then show ?thesis by blast
qed

theorem query_reported_once_witness:
  "\<exists>r. query_runs (Client_Buffer, 7) 10 r \<and> \<not> aborted (run_conn r) \<and> length (run_reports r) = 1"
  using sample_query_run query_reported_once by blast

theorem query_written_completely_witness:
  "\<exists>r. query_runs (Client_Buffer, 7) 10 r \<and> E_SUCCESS \<in> set (run_reports r) \<and> bytes_taken (run_sent r) = unat (10 :: size_t)"
proof -
  obtain r where r: "query_runs (Client_Buffer, 7) 10 r" "E_SUCCESS \<in> set (run_reports r)"
    using sample_query_run by (metis list.set_intros(1))
  with query_written_completely [OF r(1)] show ?thesis by blast
qed

section \<open>Timers\<close>

text \<open>
  C33. A read timer that expired at the same moment as the reply arrived is ignored, because
  \<^verbatim>\<open>HandleRead\<close> has set \<^verbatim>\<open>read_timer_canceled_\<close>.  The protection is lost when the connection is
  recycled in between: \<^verbatim>\<open>Reset\<close> clears the flag, so the same expiry, delivered after the connection has
  gone back to the pool, reports a timeout to the command and aborts the connection.
\<close>

theorem stale_read_timer:
  assumes "\<not> aborted b" and "conn_HandleRead False n b = Some (b1, acts)" and "conn_Reset b1 = Some b2"
  shows "OnTimeout False E_BACKEND_READ_TIMEOUT b1 = Some (b1, [])
    \<and> OnTimeout False E_BACKEND_READ_TIMEOUT b2
       = Some (b2, [Count Backend_Read_Timeouts 1, ReplyReceived E_BACKEND_READ_TIMEOUT,
                    ThenAbort E_BACKEND_READ_TIMEOUT])"
  using assms
  by (auto simp: conn_HandleRead_def OnTimeout_def conn_Reset_def Let_def bind_eq_Some_conv split: if_splits)

theorem stale_read_timer_witness:
  "\<exists>b1 acts b2. conn_HandleRead False 4 (fst (ReadReply (BackendConn (replicate 9 NUL) 9 Endpoint0))) = Some (b1, acts)
     \<and> conn_Reset b1 = Some b2
     \<and> OnTimeout False E_BACKEND_READ_TIMEOUT b2
       = Some (b2, [Count Backend_Read_Timeouts 1, ReplyReceived E_BACKEND_READ_TIMEOUT,
                    ThenAbort E_BACKEND_READ_TIMEOUT])"
proof -
  let ?b = "fst (ReadReply (BackendConn (replicate 9 NUL) 9 Endpoint0))"
  have ok: "\<not> aborted ?b" by (simp add: ReadReply_def BackendConn_def Let_def)
  obtain b1 acts where b1: "conn_HandleRead False 4 ?b = Some (b1, acts)" "\<not> no_recycle b1"
    by (auto simp: conn_HandleRead_def ReadReply_def BackendConn_def ReadBuffer_def Let_def
        update_received_bytes_def dec_recycle_lock_def inc_recycle_lock_def try_recycle_buffer_def)
  then obtain b2 where "conn_Reset b1 = Some b2" by (auto simp: conn_Reset_def)
  with b1 stale_read_timer [OF ok b1(1) this] show ?thesis by blast
qed

end
