(* ===== verification/Backend_Pool.thy ===== *)
theory Backend_Pool
  imports Backend_Conn
begin

text \<open>
  The pool of backend connections of a worker, \<^verbatim>\<open>backend_pool.h\<close> and \<^verbatim>\<open>backend_pool.cc\<close>.  Connections
  are named by numbers; \<open>conns\<close> is the heap of connection objects, \<open>idle\<close> is \<^verbatim>\<open>conn_map_\<close> (a queue per
  endpoint, and absent until the first release), \<open>active\<close> is \<^verbatim>\<open>active_conns_\<close>.
\<close>

section \<open>The model\<close>

record BackendConnPool =
  conns :: "conn_id \<rightharpoonup> BackendConn"
  idle :: "Endpoint \<rightharpoonup> conn_id list"
  active :: "conn_id \<rightharpoonup> Endpoint"

definition pool0 :: BackendConnPool where
  "pool0 = \<lparr>conns = Map.empty, idle = Map.empty, active = Map.empty\<rparr>"

text \<open>
  The argument \<open>new_id\<close> names the object that \<^verbatim>\<open>new BackendConn\<close> would create, \<open>mem\<close> and \<open>n\<close> are the
  memory and the size of its buffer.
\<close>

definition Allocate :: "conn_id \<Rightarrow> bytes \<Rightarrow> size_t \<Rightarrow> Endpoint \<Rightarrow> BackendConnPool \<Rightarrow> (conn_id \<times> BackendConnPool) option" where
  "Allocate new_id mem n ep pl =
     (let (i, pl') =
        (case idle pl ep of
           Some (i # rest) \<Rightarrow> (i, pl\<lparr>idle := (idle pl)(ep \<mapsto> rest)\<rparr>)
         | _ \<Rightarrow> (new_id, pl\<lparr>conns := (conns pl)(new_id \<mapsto> BackendConn mem n ep)\<rparr>))
      in if active pl' i \<noteq> None then None
         else Some (i, pl'\<lparr>active := (active pl')(i \<mapsto> ep)\<rparr>))"

definition put_conn :: "conn_id \<Rightarrow> BackendConn \<Rightarrow> BackendConnPool \<Rightarrow> BackendConnPool" where
  "put_conn i b pl = pl\<lparr>conns := (conns pl)(i \<mapsto> b)\<rparr>"

text \<open>\<open>max_idle\<close> is \<^verbatim>\<open>worker_max_idle_backends()\<close>; the list is what \<^verbatim>\<open>Close\<close> asks for.\<close>

definition pool_Release :: "size_t \<Rightarrow> conn_id \<Rightarrow> BackendConnPool \<Rightarrow> (BackendConnPool \<times> conn_act list) option" where
  "pool_Release max_idle i pl =
     (case active pl i of
        None \<Rightarrow> Some (pl, [])
      | Some ep \<Rightarrow> do {
          let pl = pl\<lparr>active := (active pl)(i := None)\<rparr>;
          b \<leftarrow> conns pl i;
          if \<not> recyclable b then
            let (b', acts) = Close b in Some (put_conn i b' pl, acts)
          else case idle pl ep of
            None \<Rightarrow> do {
              b' \<leftarrow> conn_Reset b;
              Some ((put_conn i b' pl)\<lparr>idle := (idle pl)(ep \<mapsto> [i])\<rparr>, [])
            }
          | Some q \<Rightarrow>
              if of_nat (length q) \<ge> max_idle then
                let (b', acts) = Close b in Some (put_conn i b' pl, acts)
              else do {
                b' \<leftarrow> conn_Reset b;
                Some ((put_conn i b' pl)\<lparr>idle := (idle pl)(ep \<mapsto> q @ [i])\<rparr>, [])
              }
        })"

section \<open>The invariant\<close>

text \<open>A connection as a new owner expects it: nothing of an earlier reply is left.\<close>

definition clean :: "BackendConn \<Rightarrow> bool" where
  "clean b \<longleftrightarrow> \<not> no_recycle b \<and> \<not> aborted b \<and> \<not> is_reading_reply b \<and> \<not> has_read_some_reply b
     \<and> \<not> reply_recv_complete b \<and> processed_offset (buffer b) = 0 \<and> received_offset (buffer b) = 0
     \<and> parsed_offset (buffer b) = 0 \<and> recycle_lock_count (buffer b) = 0"

definition idle_ok :: "BackendConnPool \<Rightarrow> Endpoint \<Rightarrow> conn_id list \<Rightarrow> bool" where
  "idle_ok pl ep q \<longleftrightarrow> distinct q \<and> (\<forall>i\<in>set q. active pl i = None
     \<and> (\<exists>b. conns pl i = Some b \<and> remote_endpoint b = ep \<and> clean b))"

text \<open>What an owner has to keep of a connection it uses: its endpoint, and that an abort marks it.\<close>

definition active_ok :: "BackendConnPool \<Rightarrow> conn_id \<Rightarrow> Endpoint \<Rightarrow> bool" where
  "active_ok pl i ep \<longleftrightarrow> (\<exists>b. conns pl i = Some b \<and> remote_endpoint b = ep \<and> (aborted b \<longrightarrow> no_recycle b))"

definition pool_inv :: "size_t \<Rightarrow> BackendConnPool \<Rightarrow> bool" where
  "pool_inv max_idle pl \<longleftrightarrow>
     (\<forall>ep q. idle pl ep = Some q \<longrightarrow> idle_ok pl ep q \<and> length q \<le> max 1 (unat max_idle))
     \<and> (\<forall>i ep. active pl i = Some ep \<longrightarrow> active_ok pl i ep)"

lemma idleD: "pool_inv mx pl \<Longrightarrow> idle pl ep = Some q \<Longrightarrow> idle_ok pl ep q \<and> length q \<le> max 1 (unat mx)"
  by (simp add: pool_inv_def)

lemma activeD: "pool_inv mx pl \<Longrightarrow> active pl i = Some ep \<Longrightarrow> active_ok pl i ep"
  by (simp add: pool_inv_def)

lemma pool_invI:
  assumes "\<And>ep q. idle pl ep = Some q \<Longrightarrow> idle_ok pl ep q"
    and "\<And>ep q. idle pl ep = Some q \<Longrightarrow> length q \<le> max 1 (unat mx)"
    and "\<And>i ep. active pl i = Some ep \<Longrightarrow> active_ok pl i ep"
  shows "pool_inv mx pl"
  using assms by (simp add: pool_inv_def)

lemma pool_inv0: "pool_inv max_idle pool0"
  by (simp add: pool_inv_def pool0_def)

lemma clean_BackendConn: "clean (BackendConn mem n ep)"
  by (simp add: clean_def BackendConn_def ReadBuffer_def)

lemma clean_Reset: "conn_Reset b = Some b' \<Longrightarrow> \<not> aborted b \<Longrightarrow> clean b' \<and> remote_endpoint b' = remote_endpoint b"
  by (auto simp: conn_Reset_def clean_def buffer_Reset_def split: if_splits)

lemma idle_conn: "idle_ok pl ep q \<Longrightarrow> i \<in> set q \<Longrightarrow>
    active pl i = None \<and> (\<exists>b. conns pl i = Some b \<and> remote_endpoint b = ep \<and> clean b)"
  by (simp add: idle_ok_def)

lemma idle_unique:
  assumes "pool_inv mx pl" "idle pl ep = Some q" "i \<in> set q" "idle pl ep' = Some q'" "i \<in> set q'"
  shows "ep = ep'"
  using idle_conn [of pl ep q i] idle_conn [of pl ep' q' i] idleD [OF assms(1)] assms(2-5) by fastforce

text \<open>Replacing a connection that is not idle, or dropping it from the active ones, keeps the queues.\<close>

lemma idle_ok_other:
  assumes "idle_ok pl ep q" and "i \<notin> set q"
    and "\<And>j. j \<noteq> i \<Longrightarrow> active pl' j = active pl j" "\<And>j. j \<noteq> i \<Longrightarrow> conns pl' j = conns pl j"
  shows "idle_ok pl' ep q"
proof -
  have "active pl' j = active pl j" "conns pl' j = conns pl j" if "j \<in> set q" for j
    using that assms(2-4) by metis+
  with assms(1) show ?thesis by (simp add: idle_ok_def)
qed

lemma Allocate_spec:
  assumes inv: "pool_inv mx pl" and new: "conns pl new_id = None"
  shows "\<exists>i pl'. Allocate new_id mem n ep pl = Some (i, pl') \<and> pool_inv mx pl'
    \<and> active pl i = None \<and> active pl' = (active pl)(i \<mapsto> ep)
    \<and> (\<exists>b. conns pl' i = Some b \<and> clean b \<and> remote_endpoint b = ep)
    \<and> (\<forall>j. active pl j \<noteq> None \<longrightarrow> conns pl' j = conns pl j)"
proof (cases "\<exists>i rest. idle pl ep = Some (i # rest)")
  case True
  then obtain i rest where q: "idle pl ep = Some (i # rest)" by blast
  note iq = idleD [OF inv q]
  then obtain b where b: "active pl i = None" "conns pl i = Some b" "remote_endpoint b = ep" "clean b"
    using idle_conn [of pl ep "i # rest" i] by auto
  let ?pl = "pl\<lparr>idle := (idle pl)(ep \<mapsto> rest), active := (active pl)(i \<mapsto> ep)\<rparr>"
  have al: "Allocate new_id mem n ep pl = Some (i, ?pl)"
    using q b by (simp add: Allocate_def)
  have "pool_inv mx ?pl"
  proof (rule pool_invI)
    fix e q' assume q': "idle ?pl e = Some q'"
    have "i \<notin> set q' \<and> (e = ep \<longrightarrow> q' = rest) \<and> (e \<noteq> ep \<longrightarrow> idle pl e = Some q')"
      using q' iq idle_unique [OF inv q, of i e q'] by (auto simp: idle_ok_def split: if_splits)
    moreover have "idle_ok pl ep rest" using iq by (simp add: idle_ok_def)
    ultimately have "idle_ok pl e q'" "i \<notin> set q'"
      using idleD [OF inv, of e q'] by (cases "e = ep", auto)
    then show "idle_ok ?pl e q'" by (rule idle_ok_other) simp_all
    show "length q' \<le> max 1 (unat mx)"
      using q' iq idleD [OF inv, of e q'] by (auto split: if_splits)
  next
    fix j e assume "active ?pl j = Some e"
    then show "active_ok ?pl j e"
      using activeD [OF inv, of j e] b by (auto simp: active_ok_def clean_def split: if_splits)
  qed
  with al b show ?thesis by auto
next
  case False
  let ?pl = "pl\<lparr>conns := (conns pl)(new_id \<mapsto> BackendConn mem n ep), active := (active pl)(new_id \<mapsto> ep)\<rparr>"
  have act: "conns pl j \<noteq> None" if "active pl j = Some e" for j e
    using activeD [OF inv that] by (auto simp: active_ok_def)
  have na: "active pl new_id = None" using act [of new_id] new by (cases "active pl new_id") fastforce+
  have al: "Allocate new_id mem n ep pl = Some (new_id, ?pl)"
    using False na by (auto simp: Allocate_def split: option.split list.split)
  have "pool_inv mx ?pl"
  proof (rule pool_invI)
    fix e q' assume "idle ?pl e = Some q'"
    then have q': "idle pl e = Some q'" by simp
    then have "new_id \<notin> set q'" using idleD [OF inv q'] idle_conn new by fastforce
    then show "idle_ok ?pl e q'"
      using idleD [OF inv q'] by (intro idle_ok_other [of pl e q' new_id ?pl]) simp_all
    show "length q' \<le> max 1 (unat mx)" using idleD [OF inv q'] by simp
  next
    fix j e assume "active ?pl j = Some e"
    then show "active_ok ?pl j e"
      using activeD [OF inv, of j e] by (auto simp: active_ok_def BackendConn_def split: if_splits)
  qed
  with al na new act show ?thesis
    using clean_BackendConn [of mem n ep] by (auto simp: BackendConn_def)
qed

lemma Release_spec:
  assumes inv: "pool_inv mx pl"
  shows "\<exists>pl' acts. pool_Release mx i pl = Some (pl', acts) \<and> pool_inv mx pl'
    \<and> active pl' = (active pl)(i := None) \<and> (\<forall>j. j \<noteq> i \<longrightarrow> conns pl' j = conns pl j)"
proof (cases "active pl i")
  case None
  with inv show ?thesis by (auto simp: pool_Release_def fun_upd_idem)
next
  case (Some ep)
  then obtain b where b: "conns pl i = Some b" "remote_endpoint b = ep" "aborted b \<longrightarrow> no_recycle b"
    using activeD [OF inv Some] by (auto simp: active_ok_def)
  have notidle: "i \<notin> set q" if "idle pl e = Some q" for e q
    using idleD [OF inv that] idle_conn [of pl e q i] Some by auto
  let ?drop = "\<lambda>b'. put_conn i b' (pl\<lparr>active := (active pl)(i := None)\<rparr>)"
  have keep: "idle_ok (?drop b') e q" if "idle pl e = Some q" for b' e q
    using idleD [OF inv that] notidle [OF that]
    by (intro idle_ok_other [of pl e q i "?drop b'"]) (simp_all add: put_conn_def)
  have act: "active_ok (?drop b') j e" if "active (?drop b') j = Some e" for b' j e
    using that activeD [OF inv, of j e] by (auto simp: active_ok_def put_conn_def split: if_splits)
  show ?thesis
  proof (cases "recyclable b \<and> (\<forall>q. idle pl ep = Some q \<longrightarrow> of_nat (length q) < mx)")
    case False
    then have "pool_Release mx i pl = Some (?drop (fst (Close b)), snd (Close b))"
      using Some b by (auto simp: pool_Release_def Let_def not_less split: option.split prod.split)
    moreover have "pool_inv mx (?drop (fst (Close b)))"
      using keep act idleD [OF inv] by (intro pool_invI) (simp_all add: put_conn_def)
    ultimately show ?thesis by (simp add: put_conn_def)
  next
    case True
    then have rec: "\<not> no_recycle b" "\<not> aborted b" using b by (auto simp: recyclable_def)
    then obtain b' where b': "conn_Reset b = Some b'" by (simp add: conn_Reset_def)
    then have cl: "clean b'" "remote_endpoint b' = ep" using clean_Reset b rec by auto
    define q where "q = (case idle pl ep of None \<Rightarrow> [i] | Some q \<Rightarrow> q @ [i])"
    let ?pl = "(?drop b')\<lparr>idle := (idle pl)(ep \<mapsto> q)\<rparr>"
    have r: "pool_Release mx i pl = Some (?pl, [])"
      using Some b True b' by (auto simp: pool_Release_def Let_def q_def not_le put_conn_def split: option.split)
    have len: "length q \<le> max 1 (unat mx)"
    proof (cases "idle pl ep")
      case (Some q0)
      with True have lt: "of_nat (length q0) < mx" by blast
      have "length q0 \<le> max 1 (unat mx)" using idleD [OF inv Some] by simp
      then have "length q0 < 2 ^ 64" using unat_size_t [of mx] by (auto simp: max_def split: if_splits)
      with lt have "length q0 < unat mx" by (simp add: word_less_nat_alt unat_of_nat_size_t)
      with Some show ?thesis by (simp add: q_def)
    qed (simp add: q_def)
    have qok: "idle_ok ?pl ep q"
    proof (cases "idle pl ep")
      case (Some q0)
      then have "idle_ok ?pl ep q0"
        using idleD [OF inv Some] notidle [OF Some]
        by (intro idle_ok_other [of pl ep q0 i ?pl]) (simp_all add: put_conn_def)
      with Some notidle [OF Some] cl show ?thesis by (auto simp: q_def idle_ok_def put_conn_def)
    qed (use cl in \<open>auto simp: q_def idle_ok_def put_conn_def\<close>)
    have "pool_inv mx ?pl"
    proof (rule pool_invI)
      fix e q' assume q': "idle ?pl e = Some q'"
      show "idle_ok ?pl e q'"
      proof (cases "e = ep")
        case False
        with q' have "idle pl e = Some q'" by simp
        from keep [OF this] show ?thesis by (simp add: idle_ok_def)
      qed (use q' qok in simp)
      show "length q' \<le> max 1 (unat mx)"
        using q' len idleD [OF inv, of e q'] by (auto split: if_splits)
    next
      fix j e assume "active ?pl j = Some e"
      then show "active_ok ?pl j e" using act [of b' j e] by (simp add: active_ok_def)
    qed
    with r show ?thesis by (auto simp: put_conn_def)
  qed
qed

section \<open>The contract of a pool\<close>

text \<open>
  What the owners of connections rely on: acquiring gives a connection that nobody has, in the state
  \<open>fit\<close>; releasing one takes it away from its owner and from nobody else; an owner may change only what
  it has.
\<close>

locale exclusive_pool =
  fixes inv :: "'s \<Rightarrow> bool"
    and owner :: "'s \<Rightarrow> nat \<Rightarrow> 'e option"
    and fit :: "'s \<Rightarrow> 'e \<Rightarrow> nat \<Rightarrow> bool"
    and acquire :: "'e \<Rightarrow> 's \<Rightarrow> (nat \<times> 's) option"
    and release :: "nat \<Rightarrow> 's \<Rightarrow> 's option"
    and touch :: "nat \<Rightarrow> 'b \<Rightarrow> 's \<Rightarrow> 's"
  assumes acquire_ok: "inv s \<Longrightarrow> \<exists>i s'. acquire e s = Some (i, s') \<and> inv s' \<and> owner s i = None
      \<and> owner s' = (owner s)(i \<mapsto> e) \<and> fit s' e i"
    and release_ok: "inv s \<Longrightarrow> \<exists>s'. release i s = Some s' \<and> inv s' \<and> owner s' = (owner s)(i := None)"
    and touch_ok: "inv s \<Longrightarrow> inv (touch i b s) \<and> owner (touch i b s) = owner s"
begin

text \<open>A history of calls; \<open>Inl e\<close> acquires, \<open>Inr (i, None)\<close> releases, \<open>Inr (i, Some b)\<close> changes.\<close>

fun run :: "('e + nat \<times> 'b option) list \<Rightarrow> 's \<Rightarrow> 's option" where
  "run [] s = Some s"
| "run (Inl e # ops) s = Option.bind (acquire e s) (\<lambda>(i, s'). run ops s')"
| "run (Inr (i, None) # ops) s = Option.bind (release i s) (run ops)"
| "run (Inr (i, Some b) # ops) s = run ops (touch i b s)"

lemma run_total: "inv s \<Longrightarrow> \<exists>s'. run ops s = Some s' \<and> inv s'"
proof (induction ops s rule: run.induct)
  case (2 e ops s)
  from acquire_ok [OF "2.prems", of e] obtain i s' where "acquire e s = Some (i, s')" "inv s'" by blast
  with "2.IH" show ?case by simp
next
  case (3 i ops s)
  from release_ok [OF "3.prems", of i] obtain s' where "release i s = Some s'" "inv s'" by blast
  with "3.IH" show ?case by simp
next
  case (4 i b ops s)
  with touch_ok show ?case by simp
qed simp

lemma acquire_after_run:
  assumes "inv s"
  shows "\<exists>s' i s''. run ops s = Some s' \<and> acquire e s' = Some (i, s'') \<and> owner s' i = None
    \<and> owner s'' = (owner s')(i \<mapsto> e) \<and> fit s'' e i \<and> inv s''"
  using run_total [OF assms, of ops] acquire_ok by blast

end

section \<open>The pool meets the contract\<close>

text \<open>A state of the worker: the next unused name of a connection, and the pool.\<close>

definition pool_state_inv :: "size_t \<Rightarrow> nat \<times> BackendConnPool \<Rightarrow> bool" where
  "pool_state_inv mx = (\<lambda>(nid, pl). pool_inv mx pl \<and> (\<forall>j\<ge>nid. conns pl j = None))"

definition pool_acquire :: "(nat \<Rightarrow> bytes) \<Rightarrow> size_t \<Rightarrow> Endpoint \<Rightarrow> nat \<times> BackendConnPool \<Rightarrow> (nat \<times> nat \<times> BackendConnPool) option" where
  "pool_acquire mem n ep = (\<lambda>(nid, pl). map_option (\<lambda>(i, pl'). (i, Suc nid, pl')) (Allocate nid (mem nid) n ep pl))"

definition pool_give_back :: "size_t \<Rightarrow> nat \<Rightarrow> nat \<times> BackendConnPool \<Rightarrow> (nat \<times> BackendConnPool) option" where
  "pool_give_back mx i = (\<lambda>(nid, pl). map_option (\<lambda>(pl', _). (nid, pl')) (pool_Release mx i pl))"

definition pool_touch :: "nat \<Rightarrow> BackendConn \<Rightarrow> nat \<times> BackendConnPool \<Rightarrow> nat \<times> BackendConnPool" where
  "pool_touch i b = (\<lambda>(nid, pl).
     (nid, if active pl i = Some (remote_endpoint b) \<and> (aborted b \<longrightarrow> no_recycle b) then put_conn i b pl else pl))"

definition pool_fit :: "nat \<times> BackendConnPool \<Rightarrow> Endpoint \<Rightarrow> nat \<Rightarrow> bool" where
  "pool_fit s ep i \<longleftrightarrow> (\<exists>b. conns (snd s) i = Some b \<and> clean b \<and> remote_endpoint b = ep)"

lemma Allocate_conns:
  "Allocate nid mem n ep pl = Some (i, pl') \<Longrightarrow> j \<noteq> nid \<Longrightarrow> conns pl' j = conns pl j"
  by (auto simp: Allocate_def Let_def split: option.splits list.splits if_splits)

lemma put_conn_inv:
  assumes "pool_inv mx pl" "active pl i = Some (remote_endpoint b)" "aborted b \<longrightarrow> no_recycle b"
  shows "pool_inv mx (put_conn i b pl)"
proof (rule pool_invI)
  fix ep q assume "idle (put_conn i b pl) ep = Some q"
  then have q: "idle pl ep = Some q" by (simp add: put_conn_def)
  then have "i \<notin> set q" using idleD [OF assms(1) q] idle_conn [of pl ep q i] assms(2) by auto
  then show "idle_ok (put_conn i b pl) ep q"
    using idleD [OF assms(1) q] by (intro idle_ok_other [of pl ep q i "put_conn i b pl"]) (simp_all add: put_conn_def)
  show "length q \<le> max 1 (unat mx)" using idleD [OF assms(1) q] by simp
next
  fix j ep assume "active (put_conn i b pl) j = Some ep"
  then show "active_ok (put_conn i b pl) j ep"
    using activeD [OF assms(1), of j ep] assms(2,3) by (auto simp: active_ok_def put_conn_def)
qed

interpretation conn_pool: exclusive_pool "pool_state_inv mx" "\<lambda>s. active (snd s)" pool_fit
  "pool_acquire mem n" "pool_give_back mx" pool_touch for mx mem n
proof unfold_locales
  fix s e assume inv: "pool_state_inv mx s"
  obtain nid pl where s: "s = (nid, pl)" by (cases s)
  have pi: "pool_inv mx pl" and fr: "\<forall>j\<ge>nid. conns pl j = None" using inv s by (auto simp: pool_state_inv_def)
  obtain i pl' where a: "Allocate nid (mem nid) n e pl = Some (i, pl')" "pool_inv mx pl'" "active pl i = None"
    "active pl' = (active pl)(i \<mapsto> e)" "\<exists>b. conns pl' i = Some b \<and> clean b \<and> remote_endpoint b = e"
    using Allocate_spec [OF pi, of nid "mem nid" n e] fr by auto
  have "\<forall>j\<ge>Suc nid. conns pl' j = None" using Allocate_conns [OF a(1)] fr by auto
  with a s show "\<exists>i s'. pool_acquire mem n e s = Some (i, s') \<and> pool_state_inv mx s' \<and> active (snd s) i = None
      \<and> active (snd s') = (active (snd s))(i \<mapsto> e) \<and> pool_fit s' e i"
    by (auto simp: pool_acquire_def pool_state_inv_def pool_fit_def)
next
  fix s i assume inv: "pool_state_inv mx s"
  obtain nid pl where s: "s = (nid, pl)" by (cases s)
  have pi: "pool_inv mx pl" and fr: "\<forall>j\<ge>nid. conns pl j = None" using inv s by (auto simp: pool_state_inv_def)
  obtain pl' acts where r: "pool_Release mx i pl = Some (pl', acts)" "pool_inv mx pl'"
    "active pl' = (active pl)(i := None)" "\<forall>j. j \<noteq> i \<longrightarrow> conns pl' j = conns pl j"
    using Release_spec [OF pi] by blast
  have "\<forall>j\<ge>nid. conns pl' j = None"
  proof (intro allI impI)
    fix j assume "nid \<le> j"
    then have "conns pl j = None" using fr by blast
    moreover have "conns pl' i = None" if "conns pl i = None"
    proof -
      have "active pl i = None"
        using activeD [OF pi, of i] that by (cases "active pl i") (auto simp: active_ok_def)
      with r(1) that show ?thesis by (simp add: pool_Release_def)
    qed
    ultimately show "conns pl' j = None" using r(4) by metis
  qed
  with r s show "\<exists>s'. pool_give_back mx i s = Some s' \<and> pool_state_inv mx s'
      \<and> active (snd s') = (active (snd s))(i := None)"
    by (auto simp: pool_give_back_def pool_state_inv_def)
next
  fix s i b assume inv: "pool_state_inv mx s"
  obtain nid pl where s: "s = (nid, pl)" by (cases s)
  show "pool_state_inv mx (pool_touch i b s) \<and> active (snd (pool_touch i b s)) = active (snd s)"
  proof (cases "active pl i = Some (remote_endpoint b) \<and> (aborted b \<longrightarrow> no_recycle b)")
    case True
    have "conns pl i \<noteq> None" using activeD [of mx pl i] inv s True by (auto simp: active_ok_def pool_state_inv_def)
    then have "i < nid" using inv s by (metis (mono_tags, lifting) case_prod_conv not_le pool_state_inv_def)
    with True inv s put_conn_inv [of mx pl i b] show ?thesis
      by (auto simp: pool_touch_def pool_state_inv_def put_conn_def)
  next
    case False
    then show ?thesis using inv s by (auto simp: pool_touch_def)
  qed
qed



end
