(* ===== verification/Reply_Parse.thy ===== *)
theory Reply_Parse
  imports Backend_Conn Redis_Protocol
begin

text \<open>
  How the commands find the end of a reply in the buffer of a backend connection: the simple replies of
  \<^verbatim>\<open>command.cc\<close>, the values of \<^verbatim>\<open>memc_get_command.cc\<close>, the counts of \<^verbatim>\<open>redis_del_command.cc\<close> and the
  arrays of \<^verbatim>\<open>redis_mget_command.cc\<close>.  A parser returns whether the data is acceptable, and the
  connection with the parsed bytes claimed and \<^verbatim>\<open>reply_recv_complete_\<close> set at the end of the reply.
\<close>

section \<open>Replies to errors of the backend\<close>

fun MemcErrorReply :: "ErrorCode \<Rightarrow> bytes" where
  "MemcErrorReply E_CONNECT = ''ERROR Backend Connect Error'' @ CRLF"
| "MemcErrorReply E_WRITE_QUERY = ''ERROR Backend Write Error'' @ CRLF"
| "MemcErrorReply E_READ_REPLY = ''ERROR Backend Read Error'' @ CRLF"
| "MemcErrorReply E_PROTOCOL = ''ERROR Backend Protocol Error'' @ CRLF"
| "MemcErrorReply E_BACKEND_CONNECT_TIMEOUT = ''ERROR Backend Connect Timeout'' @ CRLF"
| "MemcErrorReply E_BACKEND_WRITE_TIMEOUT = ''ERROR Backend Write Timeout'' @ CRLF"
| "MemcErrorReply E_BACKEND_READ_TIMEOUT = ''ERROR Backend Read Timeout'' @ CRLF"
| "MemcErrorReply _ = ''ERROR Backend Unknown Error'' @ CRLF"

fun RedisErrorReply :: "ErrorCode \<Rightarrow> bytes" where
  "RedisErrorReply E_CONNECT = ''-Backend Connect Error'' @ CRLF"
| "RedisErrorReply E_WRITE_QUERY = ''-Backend Write Error'' @ CRLF"
| "RedisErrorReply E_READ_REPLY = ''-Backend Read Error'' @ CRLF"
| "RedisErrorReply E_PROTOCOL = ''-Backend Protocol Error'' @ CRLF"
| "RedisErrorReply E_BACKEND_CONNECT_TIMEOUT = ''-Backend Connect Timeout'' @ CRLF"
| "RedisErrorReply E_BACKEND_WRITE_TIMEOUT = ''-Backend Write Timeout'' @ CRLF"
| "RedisErrorReply E_BACKEND_READ_TIMEOUT = ''-Backend Read Timeout'' @ CRLF"
| "RedisErrorReply _ = ''-Backend Unknown Error'' @ CRLF"

fun ErrorReply :: "ProtocolType \<Rightarrow> ErrorCode \<Rightarrow> bytes" where
  "ErrorReply REDIS ec = RedisErrorReply ec"
| "ErrorReply _ ec = MemcErrorReply ec"

section \<open>Simple replies\<close>

definition claim :: "size_t \<Rightarrow> BackendConn \<Rightarrow> BackendConn" where
  "claim n b = b\<lparr>buffer := update_parsed_bytes n (buffer b)\<rparr>"

definition ParseRedisSimpleReply :: "BackendConn \<Rightarrow> (bool \<times> BackendConn) option" where
  "ParseRedisSimpleReply b =
     (let buf = buffer b; n = unparsed_bytes buf; e = unparsed_data buf; m = data buf
      in if n = 0 then
           Some (True, if parsed_unreceived_bytes buf = 0 then set_reply_recv_complete b else b)
         else do {
           c \<leftarrow> rd m e;
           if c \<notin> {CHR '':'', CHR ''+'', CHR ''-'', CHR ''$''} then Some (False, b)
           else case memchr (drop e m) LF (unat n) of
             None \<Rightarrow> Some (True, b)
           | Some p \<Rightarrow>
               if c = CHR ''$'' then do {
                 bulk \<leftarrow> Bulk m e (unat n);
                 if present_size bulk < 0 then Some (False, b)
                 else if present_size bulk = 0 then Some (True, b)
                 else do {
                   done \<leftarrow> bulk_completed m bulk;
                   t \<leftarrow> total_size m bulk;
                   Some (True, claim t (if done then set_reply_recv_complete b else b))
                 }
               }
               else Some (True, claim (of_nat (p + 1)) (set_reply_recv_complete b))
         })"

definition ParseMemcSimpleReply :: "BackendConn \<Rightarrow> (bool \<times> BackendConn) option" where
  "ParseMemcSimpleReply b =
     (case memchr (drop (unparsed_data (buffer b)) (data (buffer b))) LF (unat (unparsed_bytes (buffer b))) of
        None \<Rightarrow> Some (True, b)
      | Some p \<Rightarrow> Some (True, set_reply_recv_complete (claim (of_nat (p + 1)) b)))"

definition ParseReply :: "ProtocolType \<Rightarrow> BackendConn \<Rightarrow> (bool \<times> BackendConn) option" where
  "ParseReply prot b = (if prot = REDIS then ParseRedisSimpleReply b else ParseMemcSimpleReply b)"

section \<open>The count of a DEL, EXISTS or TOUCH\<close>

text \<open>The total is an \<^verbatim>\<open>int\<close>: its overflow is undefined.\<close>

definition DelParseReply :: "int \<Rightarrow> BackendConn \<Rightarrow> (bool \<times> int \<times> BackendConn) option" where
  "DelParseReply tot b =
     (let buf = buffer b; n = unparsed_bytes buf; e = unparsed_data buf; m = data buf
      in if n = 0 then None
         else do {
           c \<leftarrow> rd m e;
           if c \<noteq> CHR '':'' then Some (False, tot, b)
           else case memchr (drop e m) LF (unat n) of
             None \<Rightarrow> Some (True, tot, b)
           | Some p \<Rightarrow> do {
               r \<leftarrow> stoi_ptr m (e + 1);
               case r of
                 None \<Rightarrow> Some (False, tot, b)
               | Some d \<Rightarrow>
                   if tot + d < - (2 ^ 31) \<or> tot + d \<ge> 2 ^ 31 then None
                   else Some (True, tot + d, set_reply_recv_complete (claim (of_nat (p + 1)) b))
             }
         })"

section \<open>The values of a memcached GET\<close>

text \<open>
  \<^verbatim>\<open>ParseReplyBodySize(data, end)\<close>: from the second character of the key to the second space.  The loop
  compares with \<^verbatim>\<open>p != end\<close>, so it runs on when the line is shorter than \<^verbatim>\<open>sizeof("VALUE ")\<close>.
  An exception of \<^verbatim>\<open>std::stoi\<close> leaves the function.
\<close>

fun body_size_scan :: "bytes \<Rightarrow> nat \<Rightarrow> nat \<Rightarrow> nat \<Rightarrow> size_t option" where
  "body_size_scan [] p end0 count = (if p = end0 then Some 0 else None)"
| "body_size_scan (c # cs) p end0 count =
     (if p = end0 then Some 0
      else if c = CHR '' '' \<and> count + 1 = 2 then do { r \<leftarrow> stoi_ptr cs 0; map_option word_of_int r }
      else body_size_scan cs (p + 1) end0 (if c = CHR '' '' then count + 1 else count))"

definition ParseReplyBodySize :: "bytes \<Rightarrow> nat \<Rightarrow> nat \<Rightarrow> size_t option" where
  "ParseReplyBodySize m e end0 = body_size_scan (drop (e + 7) m) (e + 7) end0 0"

text \<open>
  \<open>is_last\<close> says that the connection is \<^verbatim>\<open>last_backend_\<close>.  The loop does not advance when the size of an
  entry is 0 (a negative size in the reply): it may run forever, which is \<open>None\<close>.
\<close>

partial_function (option) memc_get_loop :: "bool \<Rightarrow> BackendConn \<Rightarrow> (bool \<times> BackendConn) option" where
  "memc_get_loop is_last b =
     (let buf = buffer b; n = unparsed_bytes buf; e = unparsed_data buf; m = data buf
      in if n = 0 then Some (True, b)
         else case memchr (drop e m) LF (unat n) of
           None \<Rightarrow> Some (True, b)
         | Some p \<Rightarrow> do {
             c \<leftarrow> rd m e;
             if c = CHR ''V'' then do {
               body \<leftarrow> ParseReplyBodySize m e (e + p);
               memc_get_loop is_last (claim (of_nat (p + 1) + body + 2) b)
             }
             else if take 5 (drop e m) = ''END'' @ CRLF \<and> n = 5 then
               Some (True,
                 let b = set_reply_recv_complete b
                 in if is_last then claim 5 b else b\<lparr>buffer := cut_received_tail 5 (buffer b)\<rparr>)
             else Some (False, b)
           })"

declare memc_get_loop.simps [code]

definition MemcGetParseReply :: "bool \<Rightarrow> BackendConn \<Rightarrow> (bool \<times> BackendConn) option" where
  "MemcGetParseReply = memc_get_loop"

section \<open>The array of an MGET\<close>

text \<open>
  The state beside the connection is \<^verbatim>\<open>reply_absent_bulks_\<close> of the subquery and the counter at the front of
  \<^verbatim>\<open>waiting_reply_queue_\<close>, which every iteration decrements and which ends the loop at 0.
\<close>

definition mget_step :: "BackendConn \<Rightarrow> size_t \<Rightarrow> (bool option \<times> BackendConn \<times> size_t) option" where
  "mget_step b absent =
     (let buf = buffer b; n = unparsed_bytes buf; e = unparsed_data buf; m = data buf
      in if absent = 0 then do {
           ba \<leftarrow> BulkArray m e (unat n);
           if parsed_size ba < 0 then Some (Some False, b, absent)
           else if parsed_size ba = 0 \<or> present_bulks ba = 0 then Some (Some True, b, absent)
           else do {
             b0 \<leftarrow> array_at ba 0;
             t0 \<leftarrow> total_size m b0;
             let skip = of_nat (raw_data b0 - array_data ba);
             let b = b\<lparr>buffer := update_processed_offset skip (update_parsed_bytes (skip + t0) buf)\<rparr>;
             tb \<leftarrow> total_bulks m ba;
             if tb = 0 then Some (Some False, b, absent)
             else do {
               let absent = tb - 1;
               done \<leftarrow> (if absent = 0 then array_completed m ba else Some False);
               Some (None, if done then set_reply_recv_complete b else b, absent)
             }
           }
         }
         else do {
           bulk \<leftarrow> Bulk m e (unat n);
           if present_size bulk < 0 then Some (Some False, b, absent)
           else if present_size bulk = 0 then Some (Some True, b, absent)
           else do {
             t \<leftarrow> total_size m bulk;
             let b = claim t b;
             let absent = absent - 1;
             done \<leftarrow> (if absent = 0 then bulk_completed m bulk else Some False);
             Some (None, if done then set_reply_recv_complete b else b, absent)
           }
         })"

function mget_loop :: "BackendConn \<Rightarrow> size_t \<Rightarrow> int \<Rightarrow> (bool \<times> BackendConn \<times> size_t \<times> int) option" where
  "mget_loop b absent cnt =
     (if unparsed_bytes (buffer b) = 0 then Some (True, b, absent, cnt)
      else do {
        (r, b, absent) \<leftarrow> mget_step b absent;
        case r of
          Some ret \<Rightarrow> Some (ret, b, absent, cnt)
        | None \<Rightarrow>
            if cnt \<le> 0 then None
            else if cnt = 1 then Some (True, b, absent, 0)
            else mget_loop b absent (cnt - 1)
      })"
  by pat_completeness auto

termination
  by (relation "measure (\<lambda>(b, absent, cnt). nat cnt)") auto

declare mget_loop.simps [simp del]

definition MgetParseReply :: "BackendConn \<Rightarrow> size_t \<Rightarrow> int \<Rightarrow> (bool \<times> BackendConn \<times> size_t \<times> int) option" where
  "MgetParseReply b absent cnt =
     (if unprocessed_bytes (buffer b) > 0 then
        Some (True,
          if parsed_unreceived_bytes (buffer b) = 0 \<and> absent = 0 then set_reply_recv_complete b else b,
          absent, cnt)
      else mget_loop b absent cnt)"

section \<open>A reply that stops the worker\<close>

lemma claim_0 [simp]: "claim 0 b = b"
  by (simp add: claim_def update_parsed_bytes_def)

text \<open>
  C40. The loop over the values of a memcached GET does not end when the size that the backend sends is negative and
  takes back exactly the line: the entry has 0 bytes modulo \<open>2 ^ 64\<close>, the parser stays where it is, and the worker, with all its
  clients, never returns from the reply.
\<close>

theorem get_reply_hangs:
  assumes "unparsed_bytes (buffer b) \<noteq> 0"
    and "memchr (drop (unparsed_data (buffer b)) (data (buffer b))) LF (unat (unparsed_bytes (buffer b))) = Some p"
    and "rd (data (buffer b)) (unparsed_data (buffer b)) = Some (CHR ''V'')"
    and "ParseReplyBodySize (data (buffer b)) (unparsed_data (buffer b)) (unparsed_data (buffer b) + p) = Some body"
    and "of_nat (p + 1) + body + 2 = 0"
  shows "MemcGetParseReply is_last b = None"
proof -
  have "b' \<noteq> b" if "memc_get_loop l b' = Some r" for l b' r
  proof (rule memc_get_loop.raw_induct [where P = "\<lambda>l b' r. b' \<noteq> b", OF _ that])
    fix f l b' r
    assume IH: "\<And>l b' r. f l b' = Some r \<Longrightarrow> b' \<noteq> b"
      and run: "(let buf = buffer b'; n = unparsed_bytes buf; e = unparsed_data buf; m = data buf
        in if n = 0 then Some (True, b')
           else case memchr (drop e m) LF (unat n) of
             None \<Rightarrow> Some (True, b')
           | Some p \<Rightarrow> Option.bind (rd m e) (\<lambda>c.
               if c = CHR ''V'' then Option.bind (ParseReplyBodySize m e (e + p))
                 (\<lambda>body. f l (claim (of_nat (p + 1) + body + 2) b'))
               else if take 5 (drop e m) = ''END'' @ CRLF \<and> n = 5 then
                 Some (True,
                   let b' = set_reply_recv_complete b'
                   in if l then claim 5 b' else b'\<lparr>buffer := cut_received_tail 5 (buffer b')\<rparr>)
               else Some (False, b'))) = Some r"
    show "b' \<noteq> b"
    proof
      assume "b' = b"
      with run assms have "f l b = Some r" by (simp add: Let_def)
      then show False using IH by blast
    qed
  qed
  then show ?thesis
    by (cases "memc_get_loop is_last b") (auto simp: MemcGetParseReply_def)
qed

definition negative_reply :: BackendConn where
  "negative_reply =
     (BackendConn (''VALUE k 0 -17'' @ CRLF @ [NUL]) 16 Endpoint0)
       \<lparr>buffer := update_received_bytes 15 (ReadBuffer (''VALUE k 0 -17'' @ CRLF @ [NUL]) 16)\<rparr>"

theorem get_reply_hangs_witness: "MemcGetParseReply True negative_reply = None"
proof (rule get_reply_hangs)
  let ?b = "buffer negative_reply"
  have m: "data ?b = ''VALUE k 0 -17'' @ CRLF @ [NUL]" and u: "unparsed_bytes ?b = 15" "unparsed_data ?b = 0"
    by (simp_all add: negative_reply_def update_received_bytes_def ReadBuffer_def unparsed_bytes_def unparsed_data_def)
  show "unparsed_bytes ?b \<noteq> 0" by (simp add: u)
  show "memchr (drop (unparsed_data ?b) (data ?b)) LF (unat (unparsed_bytes ?b)) = Some 14" by (simp add: m u)
  show "rd (data ?b) (unparsed_data ?b) = Some (CHR ''V'')" by (simp add: m u)
  show "ParseReplyBodySize (data ?b) (unparsed_data ?b) (unparsed_data ?b + 14) = Some (- 17)"
    unfolding m u by code_simp
  show "of_nat (14 + 1) + (- 17 :: size_t) + 2 = 0" by simp
qed

end
