(* ===== verification/Command_World.thy ===== *)
theory Command_World
  imports Backend_Pool Reply_Parse Key_Locator
begin

text \<open>
  The state that the commands of one client work on: the fields of \<^verbatim>\<open>ClientConnection\<close>
  (\<^verbatim>\<open>client_conn.h\<close>), the commands of its queue with the fields of their classes, and what they reach of
  the worker (\<^verbatim>\<open>WorkerContext\<close>: key locator, connection pool).

  Commands are named by numbers.  A command is destroyed when the last shared pointer to it goes: it is
  in the queue (\<open>active_cmd_queue\<close>), or a function up the call stack holds it (\<open>held\<close>: the lambda of
  \<^verbatim>\<open>WeakBind\<close> and the local variables of the read handler).  Operations on sockets and timers are appended
  to \<open>ops\<close>.  The counters of \<^verbatim>\<open>g_stats_\<close> are shared by all workers; the state holds the values that this
  worker sees.
\<close>

section \<open>Commands\<close>

type_synonym segment = "ptr \<times> size_t"

text \<open>\<^verbatim>\<open>MemcGetCommand::Subquery\<close> and the fields of \<^verbatim>\<open>MemcGetCommand\<close>.\<close>

record GetSubquery =
  get_backend :: conn_id
  get_segments :: "segment list"

record MemcGetCommand =
  get_subqueries :: "(Endpoint \<times> GetSubquery) list"
  get_waiting :: "conn_id list"
  last_backend :: "conn_id option"
  completed_backends :: size_t
  received_reply_backends :: "conn_id list"

text \<open>\<^verbatim>\<open>RedisMgetCommand::Subquery\<close> and the fields of \<^verbatim>\<open>RedisMgetCommand\<close>.\<close>

record MgetSubquery =
  mget_backend :: conn_id
  key_count :: size_t
  query_prefix :: bytes
  mget_segments :: "segment list"
  reply_absent_bulks :: size_t

record RedisMgetCommand =
  reply_prefix :: bytes
  mget_subqueries :: "(Endpoint \<times> MgetSubquery) list"
  mget_waiting :: "(conn_id \<times> int) list"

text \<open>
  What the subqueries of MSET and DEL have in common.  The subqueries of an MSET are objects that
  \<^verbatim>\<open>waiting_subqueries_\<close>, \<^verbatim>\<open>pending_subqueries_\<close> and \<^verbatim>\<open>tail_query_\<close> share, so they are in a store of their own.
  \<^verbatim>\<open>pending_subqueries_\<close> is ordered by addresses in the code; here by the time of insertion.
\<close>

record Subquery =
  sub_backend :: conn_id
  keys_count :: size_t
  sub_segments :: "segment list"

datatype Phase = INIT_SEND_QUERY | SENDING_MORE_QUERY | READING_MORE_QUERY | READING_REPLY

record MsetSubquery = Subquery +
  phase :: Phase
  sub_recv_complete :: bool

record RedisMsetCommand =
  mset_unparsed_bulks :: size_t
  mset_store :: "nat \<rightharpoonup> MsetSubquery"
  mset_next :: nat
  mset_waiting :: "(Endpoint \<times> nat) list"
  mset_pending :: "(conn_id \<times> nat) list"
  tail_query :: "nat option"

record DelSubquery = Subquery +
  del_phase :: nat

record RedisDelCommand =
  cmd_name :: bytes
  del_unparsed_bulks :: size_t
  del_waiting :: "(Endpoint \<times> DelSubquery) list"
  del_pending :: "(conn_id \<times> DelSubquery) list"
  total_del_count :: int

datatype CommandData =
    RedisBasic
  | MemcBasic
  | RedisSet (unparsed_bulks: size_t) (set_recv_complete: bool)
  | MemcSet (set_recv_complete: bool)
  | Error_Command bytes
  | Stats_Command bytes
  | MemcGet MemcGetCommand
  | RedisMget RedisMgetCommand
  | RedisMset RedisMsetCommand
  | RedisDel RedisDelCommand

record Command =
  cmd_data :: CommandData
  cmd_protocol :: ProtocolType
  replying_backend :: "conn_id option"
  has_written_some_reply :: bool
  cmd_writing_reply :: bool

definition Command :: "CommandData \<Rightarrow> ProtocolType \<Rightarrow> conn_id option \<Rightarrow> Command" where
  "Command d prot b =
     \<lparr>cmd_data = d, cmd_protocol = prot, replying_backend = b, has_written_some_reply = False,
      cmd_writing_reply = False\<rparr>"

section \<open>The client and its worker\<close>

text \<open>
  A client write names the command that \<^verbatim>\<open>WeakBind\<close> bound to the completion, and the connection.
\<close>

datatype op =
    Conn_Op conn_id conn_act
  | Client_Read nat size_t
  | Client_Write ptr size_t cmd_id "conn_id option"
  | Client_Arm timer int
  | Client_Cancel timer
  | Client_Close

record World =
  conf :: Config
  key_locator :: KeyLocator
  pool :: BackendConnPool
  next_conn :: conn_id
  conn_mem :: "conn_id \<Rightarrow> bytes"
  conn_size :: size_t
  alive_since :: int
  stats :: "counter \<Rightarrow> int"
  client_buffer :: read_buffer
  is_reading_query :: bool
  is_writing_reply :: bool
  client_aborted :: bool
  active_cmd_queue :: "cmd_id list"
  cmds :: "cmd_id \<rightharpoonup> Command"
  next_cmd :: cmd_id
  held :: "cmd_id list"
  ops :: "op list"

definition log_ops :: "op list \<Rightarrow> World \<Rightarrow> World" where
  "log_ops os w = w\<lparr>ops := ops w @ os\<rparr>"

text \<open>
  The counters are atomic and wrap around; those of connections are \<^verbatim>\<open>int\<close>, the others
  \<^verbatim>\<open>long long\<close>. The constructors count a connection; the destructors, which count it down again,
  run when the last shared pointer goes and are not modelled.
\<close>

definition counter_width :: "counter \<Rightarrow> nat" where
  "counter_width k = (if k \<in> {Client_Conns, Backend_Conns} then 32 else 64)"

definition count_up :: "counter \<Rightarrow> size_t \<Rightarrow> World \<Rightarrow> World" where
  "count_up k n w = w\<lparr>stats := (stats w)(k := signed_take_bit (counter_width k - 1) (stats w k + uint n))\<rparr>"

fun count_act :: "conn_act \<Rightarrow> World \<Rightarrow> World" where
  "count_act (Count k n) w = count_up k n w"
| "count_act _ w = w"

definition emit :: "conn_id \<Rightarrow> conn_act list \<Rightarrow> World \<Rightarrow> World" where
  "emit i acts w = fold count_act acts (log_ops (map (Conn_Op i) acts) w)"

definition conn_call :: "conn_id \<Rightarrow> (BackendConn \<Rightarrow> BackendConn \<times> conn_act list) \<Rightarrow> World \<Rightarrow> World option" where
  "conn_call i f w = do {
     b \<leftarrow> conns (pool w) i;
     let (b', acts) = f b;
     Some (emit i acts (w\<lparr>pool := put_conn i b' (pool w)\<rparr>))
   }"

definition conn_upd :: "conn_id \<Rightarrow> (BackendConn \<Rightarrow> BackendConn option) \<Rightarrow> World \<Rightarrow> World option" where
  "conn_upd i f w = do {
     b \<leftarrow> conns (pool w) i;
     b' \<leftarrow> f b;
     Some (w\<lparr>pool := put_conn i b' (pool w)\<rparr>)
   }"

definition conn_buf :: "conn_id \<Rightarrow> (read_buffer \<Rightarrow> read_buffer option) \<Rightarrow> World \<Rightarrow> World option" where
  "conn_buf i f = conn_upd i (\<lambda>b. map_option (\<lambda>buf. b\<lparr>buffer := buf\<rparr>) (f (buffer b)))"

definition client_buf :: "(read_buffer \<Rightarrow> read_buffer option) \<Rightarrow> World \<Rightarrow> World option" where
  "client_buf f w = map_option (\<lambda>buf. w\<lparr>client_buffer := buf\<rparr>) (f (client_buffer w))"

definition lock_client :: "World \<Rightarrow> World" where
  "lock_client w = w\<lparr>client_buffer := inc_recycle_lock (client_buffer w)\<rparr>"

definition cmd_upd :: "cmd_id \<Rightarrow> (Command \<Rightarrow> Command) \<Rightarrow> World \<Rightarrow> World option" where
  "cmd_upd i f w = map_option (\<lambda>c. w\<lparr>cmds := (cmds w)(i \<mapsto> f c)\<rparr>) (cmds w i)"

definition set_data :: "cmd_id \<Rightarrow> CommandData \<Rightarrow> World \<Rightarrow> World option" where
  "set_data i d = cmd_upd i (\<lambda>c. c\<lparr>cmd_data := d\<rparr>)"

definition set_replying :: "cmd_id \<Rightarrow> conn_id option \<Rightarrow> World \<Rightarrow> World option" where
  "set_replying i b = cmd_upd i (\<lambda>c. c\<lparr>replying_backend := b\<rparr>)"

text \<open>\<^verbatim>\<open>backend_pool()->Allocate(ep)\<close> and \<^verbatim>\<open>backend_pool()->Release(backend)\<close>.\<close>

definition pool_allocate :: "Endpoint \<Rightarrow> World \<Rightarrow> (conn_id \<times> World) option" where
  "pool_allocate ep w = do {
     (i, pl) \<leftarrow> Allocate (next_conn w) (conn_mem w (next_conn w)) (conn_size w) ep (pool w);
     let w = w\<lparr>pool := pl\<rparr>;
     Some (i, if i = next_conn w then count_up Backend_Conns 1 (w\<lparr>next_conn := Suc i\<rparr>) else w)
   }"

definition pool_release :: "conn_id \<Rightarrow> World \<Rightarrow> World option" where
  "pool_release i w = do {
     (pl, acts) \<leftarrow> pool_Release (worker_max_idle_backends (conf w)) i (pool w);
     Some (emit i acts (w\<lparr>pool := pl\<rparr>))
   }"

fun foldM :: "('a \<Rightarrow> 's \<Rightarrow> 's option) \<Rightarrow> 'a list \<Rightarrow> 's \<Rightarrow> 's option" where
  "foldM f [] s = Some s"
| "foldM f (x # xs) s = do { s \<leftarrow> f x s; foldM f xs s }"

section \<open>The end of a command\<close>

text \<open>The destructors; those of MSET and DEL assert that one subquery is left unless the client aborted.\<close>

fun owned_backends :: "Command \<Rightarrow> conn_id list" where
  "owned_backends c = (case cmd_data c of
     Error_Command _ \<Rightarrow> []
   | Stats_Command _ \<Rightarrow> []
   | MemcGet g \<Rightarrow> map (get_backend \<circ> snd) (get_subqueries g)
   | RedisMget g \<Rightarrow> map (mget_backend \<circ> snd) (mget_subqueries g)
   | RedisMset d \<Rightarrow> map fst (mset_pending d)
   | RedisDel d \<Rightarrow> map fst (del_pending d)
   | _ \<Rightarrow> (case replying_backend c of None \<Rightarrow> [] | Some b \<Rightarrow> [b]))"

definition dtor_assert :: "Command \<Rightarrow> World \<Rightarrow> bool" where
  "dtor_assert c w \<longleftrightarrow> (case cmd_data c of
     RedisMset d \<Rightarrow> length (mset_pending d) = 1 \<or> client_aborted w
   | RedisDel d \<Rightarrow> length (del_pending d) = 1 \<or> client_aborted w
   | _ \<Rightarrow> True)"

definition destroy :: "cmd_id \<Rightarrow> World \<Rightarrow> World option" where
  "destroy i w = do {
     c \<leftarrow> cmds w i;
     if \<not> dtor_assert c w then None
     else do {
       w \<leftarrow> foldM pool_release (owned_backends c) w;
       Some (w\<lparr>cmds := (cmds w)(i := None)\<rparr>)
     }
   }"

definition drop_ref :: "cmd_id \<Rightarrow> World \<Rightarrow> World option" where
  "drop_ref i w =
     (if cmds w i \<noteq> None \<and> i \<notin> set (active_cmd_queue w) \<and> i \<notin> set (held w)
      then destroy i w else Some w)"

text \<open>A callback or a local variable keeps a command until the function that holds it is done.\<close>

definition hold :: "cmd_id \<Rightarrow> World \<Rightarrow> World" where
  "hold i w = w\<lparr>held := i # held w\<rparr>"

definition unhold :: "cmd_id \<Rightarrow> World \<Rightarrow> World option" where
  "unhold i w = drop_ref i (w\<lparr>held := remove1 i (held w)\<rparr>)"

section \<open>The methods of the client connection that commands call\<close>

definition UpdateTimer :: "timer \<Rightarrow> World \<Rightarrow> World" where
  "UpdateTimer t w =
     (if client_aborted w then w
      else log_ops [Client_Arm t
        (if t = Read_Timer \<and> unparsed_received_bytes (client_buffer w) = 0
         then client_idle_timeout (conf w) else socket_rw_timeout (conf w))] w)"

definition AsyncRead :: "World \<Rightarrow> World" where
  "AsyncRead w =
     (let w = UpdateTimer Read_Timer (lock_client (w\<lparr>is_reading_query := True\<rparr>))
      in log_ops [Client_Read (free_space_begin (client_buffer w)) (free_space_size (client_buffer w))] w)"

definition TryReadMoreQuery :: "World \<Rightarrow> World" where
  "TryReadMoreQuery w =
     (if is_reading_query w \<or> \<not> has_much_free_space (client_buffer w) then w else AsyncRead w)"

definition WriteReply :: "ptr \<Rightarrow> size_t \<Rightarrow> cmd_id \<Rightarrow> conn_id option \<Rightarrow> World \<Rightarrow> World option" where
  "WriteReply p n cmd conn w =
     (if is_writing_reply w then None
      else Some (log_ops [Client_Write p n cmd conn]
             (UpdateTimer Write_Timer (w\<lparr>is_writing_reply := True\<rparr>))))"

text \<open>\<^verbatim>\<open>active_cmd_queue_.front()\<close> of an empty queue is undefined.\<close>

definition IsFirstCommand :: "cmd_id \<Rightarrow> World \<Rightarrow> bool option" where
  "IsFirstCommand i w = (case active_cmd_queue w of [] \<Rightarrow> None | j # _ \<Rightarrow> Some (i = j))"

definition client_Abort :: "World \<Rightarrow> World option" where
  "client_Abort w =
     (if client_aborted w then Some w
      else foldM drop_ref (active_cmd_queue w)
             (log_ops [Client_Cancel Read_Timer, Client_Cancel Write_Timer, Client_Close]
                (w\<lparr>client_aborted := True, active_cmd_queue := []\<rparr>)))"

section \<open>Replying to the client\<close>

definition TryWriteReply :: "cmd_id \<Rightarrow> conn_id \<Rightarrow> World \<Rightarrow> World option" where
  "TryWriteReply i k w = do {
     c \<leftarrow> cmds w i;
     b \<leftarrow> conns (pool w) k;
     let n = unprocessed_bytes (buffer b);
     if \<not> cmd_writing_reply c \<and> n > 0 then do {
       w \<leftarrow> cmd_upd i (\<lambda>c. c\<lparr>cmd_writing_reply := True, has_written_some_reply := True\<rparr>) w;
       w \<leftarrow> conn_buf k (\<lambda>b. Some (inc_recycle_lock b)) w;
       w \<leftarrow> WriteReply (Backend_Buffer k, unprocessed_data (buffer b)) n i (Some k) w;
       conn_buf k (update_processed_bytes n) w
     }
     else Some w
   }"

end
