(* ===== verification/Command_Create.thy ===== *)
theory Command_Create
  imports Command_World
begin

text \<open>
  From received bytes to commands: the tables of command names and \<^verbatim>\<open>CreateCommand\<close> of \<^verbatim>\<open>command.cc\<close>, and
  the constructors of the command classes, which choose the backends and cut the query into the
  segments of the subqueries.  \<open>m\<close> is the memory of the client's buffer, positions in it are pointers.
\<close>

section \<open>Command names\<close>

datatype RedisCommandType =
  RCT_BASIC | RCT_SET | RCT_MSET | RCT_MGET | RCT_DEL | RCT_YARMSTATS | RCT_UNSUPPORTED

definition redis_command_names :: "(string \<times> RedisCommandType) list" where
  "redis_command_names =
     [(''get'', RCT_BASIC), (''getset'', RCT_BASIC), (''getrange'', RCT_BASIC), (''ttl'', RCT_BASIC),
      (''incr'', RCT_BASIC), (''incrby'', RCT_BASIC), (''incrbyfloat'', RCT_BASIC), (''decr'', RCT_BASIC),
      (''decrby'', RCT_BASIC), (''strlen'', RCT_BASIC),
      (''set'', RCT_SET), (''append'', RCT_SET), (''setrange'', RCT_SET), (''setnx'', RCT_SET),
      (''psetex'', RCT_SET), (''setex'', RCT_SET),
      (''mset'', RCT_MSET), (''mget'', RCT_MGET),
      (''del'', RCT_DEL), (''exists'', RCT_DEL), (''touch'', RCT_DEL),
      (''yarmstats'', RCT_YARMSTATS)]"

definition GetRedisCommandType :: "bytes \<Rightarrow> bulk \<Rightarrow> RedisCommandType option" where
  "GetRedisCommandType m b = do {
     name \<leftarrow> payload m b;
     Some (case map_of redis_command_names (map tolower name) of
             Some t \<Rightarrow> t | None \<Rightarrow> RCT_UNSUPPORTED)
   }"

datatype MemcCommandType = MCT_GET | MCT_SET | MCT_BASIC | MCT_YARMSTATS | MCT_UNSUPPORTED

definition memc_command_names :: "(string \<times> MemcCommandType) list" where
  "memc_command_names =
     [(''get'', MCT_GET), (''gets'', MCT_GET),
      (''set'', MCT_SET), (''add'', MCT_SET), (''replace'', MCT_SET), (''append'', MCT_SET),
      (''prepend'', MCT_SET), (''cas'', MCT_SET),
      (''delete'', MCT_BASIC), (''incr'', MCT_BASIC), (''decr'', MCT_BASIC), (''touch'', MCT_BASIC),
      (''yarmstats'', MCT_YARMSTATS)]"

definition GetMemcCommandType :: "bytes \<Rightarrow> nat \<Rightarrow> nat \<Rightarrow> MemcCommandType option" where
  "GetMemcCommandType m off n = do {
     line \<leftarrow> rd_block m off n;
     let name = (case memchr line (CHR '' '') n of None \<Rightarrow> line | Some p \<Rightarrow> take p line);
     Some (case map_of memc_command_names name of Some t \<Rightarrow> t | None \<Rightarrow> MCT_UNSUPPORTED)
   }"

section \<open>Allocation and segments\<close>

definition new_command :: "Command \<Rightarrow> World \<Rightarrow> cmd_id \<times> World" where
  "new_command c w = (next_cmd w, w\<lparr>cmds := (cmds w)(next_cmd w \<mapsto> c), next_cmd := Suc (next_cmd w)\<rparr>)"

text \<open>\<^verbatim>\<open>key_locator()->Locate(bulk.payload_data(), bulk.payload_size(), ProtocolType::REDIS)\<close>.\<close>

definition locate_bulk :: "World \<Rightarrow> bytes \<Rightarrow> bulk \<Rightarrow> Endpoint option" where
  "locate_bulk w m b = do {
     q \<leftarrow> payload_data m b;
     n \<leftarrow> payload_size m b;
     Locate (conf w) (key_locator w) (drop q m) n REDIS
   }"

text \<open>An entry of a \<^verbatim>\<open>std::map\<close> changed in place.\<close>

definition adjust :: "'k \<Rightarrow> ('v \<Rightarrow> 'v) \<Rightarrow> ('k \<times> 'v) list \<Rightarrow> ('k \<times> 'v) list" where
  "adjust k f = map (\<lambda>(k', v). (k', if k' = k then f v else v))"

text \<open>\<^verbatim>\<open>segments_.back().second += n\<close>; \<^verbatim>\<open>back()\<close> of an empty list is undefined.\<close>

definition grow_last :: "size_t \<Rightarrow> segment list \<Rightarrow> segment list option" where
  "grow_last n segs =
     (if segs = [] then None
      else Some (butlast segs @ [(fst (last segs), snd (last segs) + n)]))"

text \<open>The tail of \<^verbatim>\<open>PushSubquery\<close>: an adjacent piece extends the last segment.\<close>

definition add_segment :: "ptr \<Rightarrow> size_t \<Rightarrow> segment list \<Rightarrow> segment list option" where
  "add_segment p n segs =
     (if segs = [] then None
      else if ptr_add (fst (last segs)) (snd (last segs)) = p then grow_last n segs
      else Some (segs @ [(p, n)]))"

definition push_key :: "ptr \<Rightarrow> size_t \<Rightarrow> 'a Subquery_scheme \<Rightarrow> 'a Subquery_scheme option" where
  "push_key p n q =
     map_option (\<lambda>segs. q\<lparr>keys_count := keys_count q + 1, sub_segments := segs\<rparr>)
       (add_segment p n (sub_segments q))"

section \<open>Commands for one backend\<close>

definition RedisBasicCommand :: "bytes \<Rightarrow> bulk_array \<Rightarrow> World \<Rightarrow> (Command \<times> World) option" where
  "RedisBasicCommand m ba w = do {
     key \<leftarrow> array_at ba 1;
     ep \<leftarrow> locate_bulk w m key;
     (k, w) \<leftarrow> pool_allocate ep w;
     Some (Command RedisBasic REDIS (Some k), w)
   }"

definition RedisSetCommand :: "bytes \<Rightarrow> bulk_array \<Rightarrow> World \<Rightarrow> (Command \<times> World) option" where
  "RedisSetCommand m ba w = do {
     absent \<leftarrow> absent_bulks m ba;
     key \<leftarrow> array_at ba 1;
     ep \<leftarrow> locate_bulk w m key;
     (k, w) \<leftarrow> pool_allocate ep w;
     Some (Command (RedisSet absent False) REDIS (Some k), w)
   }"

text \<open>The position of the first character with a property; the loops of the constructors have no bound.\<close>

fun find_char :: "(char \<Rightarrow> bool) \<Rightarrow> bytes \<Rightarrow> nat \<Rightarrow> nat option" where
  "find_char P [] p = None"
| "find_char P (c # cs) p = (if P c then Some p else find_char P cs (Suc p))"

definition MemcBasicCommand :: "bytes \<Rightarrow> nat \<Rightarrow> World \<Rightarrow> (Command \<times> World) option" where
  "MemcBasicCommand m off w = do {
     sp \<leftarrow> find_char (\<lambda>c. c = CHR '' '') (drop off m) off;
     let p = sp + 1;
     q \<leftarrow> find_char (\<lambda>c. c = CHR '' '' \<or> c = CR) (drop (p + 1) m) (p + 1);
     ep \<leftarrow> Locate (conf w) (key_locator w) (drop p m) (of_nat (q - p)) MEMCACHED;
     (k, w) \<leftarrow> pool_allocate ep w;
     Some (Command MemcBasic MEMCACHED (Some k), w)
   }"

text \<open>\<^verbatim>\<open>while(*(p - 1) != ' ') --p;\<close>\<close>

fun after_space :: "bytes \<Rightarrow> nat \<Rightarrow> nat option" where
  "after_space m 0 = None"
| "after_space m (Suc p) = do { c \<leftarrow> rd m p; if c = CHR '' '' then Some (Suc p) else after_space m p }"

text \<open>\<^verbatim>\<open>std::atoi(p)\<close>: the number has to end inside of the allocation.\<close>

definition atoi_ptr :: "bytes \<Rightarrow> nat \<Rightarrow> int option" where
  "atoi_ptr m p =
     (let r = dropWhile isspace (drop p m);
          ds = (case r of [] \<Rightarrow> [] | c # r' \<Rightarrow> if c = CHR ''-'' \<or> c = CHR ''+'' then r' else r)
      in if dropWhile isdigit ds = [] then None else Some (atoi (drop p m)))"

definition memc_set_ParseQuery :: "bytes \<Rightarrow> nat \<Rightarrow> nat \<Rightarrow> World \<Rightarrow> (size_t \<times> conn_id \<times> World) option" where
  "memc_set_ParseQuery m off len w = do {
     sp \<leftarrow> find_char (\<lambda>c. c = CHR '' '') (drop off m) off;
     let p = sp + 1;
     q \<leftarrow> find_char (\<lambda>c. c = CHR '' '') (drop (p + 1) m) (p + 1);
     ep \<leftarrow> Locate (conf w) (key_locator w) (drop p m) (of_nat (q - p)) MEMCACHED;
     (k, w) \<leftarrow> pool_allocate ep w;
     p \<leftarrow> after_space m (off + len - 2);
     v \<leftarrow> atoi_ptr m p;
     if v + 2 \<ge> 2 ^ 31 then None else Some (word_of_int (v + 2), k, w)
   }"

definition MemcSetCommand :: "bytes \<Rightarrow> nat \<Rightarrow> nat \<Rightarrow> World \<Rightarrow> (size_t \<times> Command \<times> World) option" where
  "MemcSetCommand m off len w = do {
     (body, k, w) \<leftarrow> memc_set_ParseQuery m off len w;
     Some (body, Command (MemcSet False) MEMCACHED (Some k), w)
   }"

section \<open>The memcached GET\<close>

text \<open>One key: the characters from \<open>p - 1\<close> (the space before it) up to \<open>q\<close>.\<close>

definition get_push_key ::
  "bytes \<Rightarrow> nat \<Rightarrow> nat \<Rightarrow> (Endpoint \<times> GetSubquery) list \<Rightarrow> World \<Rightarrow> ((Endpoint \<times> GetSubquery) list \<times> World) option" where
  "get_push_key m p q subs w = do {
     ep \<leftarrow> Locate (conf w) (key_locator w) (drop p m) (of_nat (q - p)) MEMCACHED;
     (subs, w) \<leftarrow>
       (case map_of subs ep of
          Some _ \<Rightarrow> Some (subs, w)
        | None \<Rightarrow> do {
            (k, w) \<leftarrow> pool_allocate ep (lock_client w);
            Some (map_emplace ep \<lparr>get_backend = k, get_segments = [((Const_Data ''get'', 0), 3)]\<rparr> subs, w)
          });
     Some (adjust ep
       (\<lambda>s. s\<lparr>get_segments := get_segments s @ [((Client_Buffer, p - 1), of_nat (1 + q - p))]\<rparr>) subs, w)
   }"

lemma find_char_ge: "find_char P cs p = Some q \<Longrightarrow> p \<le> q"
  by (induction P cs p rule: find_char.induct) (auto split: if_splits)

function get_keys ::
  "bytes \<Rightarrow> nat \<Rightarrow> nat \<Rightarrow> (Endpoint \<times> GetSubquery) list \<Rightarrow> World \<Rightarrow> ((Endpoint \<times> GetSubquery) list \<times> World) option" where
  "get_keys m p lim subs w =
     (if p < lim then do {
        q \<leftarrow> find_char (\<lambda>c. c = CHR '' '' \<or> c = CR) (drop p m) p;
        (subs, w) \<leftarrow> get_push_key m p q subs w;
        get_keys m (q + 1) lim subs w
      }
      else Some (subs, w))"
  by pat_completeness auto

termination
  by (relation "measure (\<lambda>(m, p, lim, subs, w). lim - p)") (auto dest: find_char_ge)

declare get_keys.simps [simp del]

definition MemcGetCommand :: "bytes \<Rightarrow> nat \<Rightarrow> nat \<Rightarrow> World \<Rightarrow> (Command \<times> World) option" where
  "MemcGetCommand m off len w = do {
     (subs, w) \<leftarrow> get_keys m (off + 4) (off + len - 2) [] w;
     let subs = map (\<lambda>(ep, s). (ep, s\<lparr>get_segments := get_segments s @ [((Const_Data CRLF, 0), 2)]\<rparr>)) subs;
     Some (Command (MemcGet \<lparr>get_subqueries = subs, get_waiting = [], last_backend = None,
                             completed_backends = 0, received_reply_backends = []\<rparr>) MEMCACHED None, w)
   }"

section \<open>MGET\<close>

text \<open>
  The body of the constructor's loop.  \<open>last_ep\<close> is \<^verbatim>\<open>last_endpoint\<close>, which starts as the default
  \<^verbatim>\<open>Endpoint()\<close>.
\<close>

type_synonym mget_keys =
  "(Endpoint \<times> MgetSubquery) list \<times> (conn_id \<times> int) list \<times> Endpoint"

definition mget_queue_key :: "conn_id \<Rightarrow> (conn_id \<times> int) list \<Rightarrow> (conn_id \<times> int) list" where
  "mget_queue_key k waiting =
     (if waiting = [] \<or> fst (last waiting) \<noteq> k then waiting @ [(k, 1)]
      else butlast waiting @ [(k, snd (last waiting) + 1)])"

definition mget_add_key :: "Endpoint \<Rightarrow> ptr \<Rightarrow> size_t \<Rightarrow> mget_keys \<times> World \<Rightarrow> (mget_keys \<times> World) option" where
  "mget_add_key ep p t st = do {
     let ((subs, waiting, last_ep), w) = st;
     (subs, w) \<leftarrow>
       (case map_of subs ep of
          Some _ \<Rightarrow> Some (subs, w)
        | None \<Rightarrow> do {
            (k, w) \<leftarrow> pool_allocate ep (lock_client w);
            Some (map_emplace ep \<lparr>mget_backend = k, key_count = 0, query_prefix = [], mget_segments = [],
                                   reply_absent_bulks = 0\<rparr> subs, w)
          });
     sub \<leftarrow> map_of subs ep;
     segs \<leftarrow> (if last_ep = ep then grow_last t (mget_segments sub)
             else Some (mget_segments sub @ [(p, t)]));
     Some ((adjust ep (\<lambda>s. s\<lparr>key_count := key_count s + 1, mget_segments := segs\<rparr>) subs,
            mget_queue_key (mget_backend sub) waiting, ep), w)
   }"

definition mget_push_key :: "bytes \<Rightarrow> bulk_array \<Rightarrow> nat \<Rightarrow> mget_keys \<times> World \<Rightarrow> (mget_keys \<times> World) option" where
  "mget_push_key m ba i st = do {
     bulk \<leftarrow> array_at ba i;
     ep \<leftarrow> locate_bulk (snd st) m bulk;
     t \<leftarrow> total_size m bulk;
     mget_add_key ep (Client_Buffer, raw_data bulk) t st
   }"

definition RedisMgetCommand :: "bytes \<Rightarrow> bulk_array \<Rightarrow> World \<Rightarrow> (Command \<times> World) option" where
  "RedisMgetCommand m ba w = do {
     tot \<leftarrow> total_bulks m ba;
     ((subs, waiting, _), w) \<leftarrow> foldM (mget_push_key m ba) [1..<unat tot] (([], [], Endpoint0), w);
     Some (Command (RedisMget \<lparr>reply_prefix = SerializePrefix (int32 (uint (tot - 1))),
                               mget_subqueries = subs, mget_waiting = waiting\<rparr>) REDIS None, w)
   }"

section \<open>MSET\<close>

definition mset_PushSubquery ::
  "Endpoint \<Rightarrow> ptr \<Rightarrow> size_t \<Rightarrow> RedisMsetCommand \<times> World \<Rightarrow> (RedisMsetCommand \<times> World) option" where
  "mset_PushSubquery ep p n st =
     (let (d, w) = st
      in case map_of (mset_waiting d) ep of
           None \<Rightarrow> do {
             (k, w) \<leftarrow> pool_allocate ep (lock_client w);
             let s = mset_next d;
             Some (d\<lparr>mset_store := (mset_store d)(s \<mapsto>
                       \<lparr>sub_backend = k, keys_count = 1, sub_segments = [(p, n)],
                        phase = INIT_SEND_QUERY, sub_recv_complete = False\<rparr>),
                     mset_next := Suc s, mset_waiting := map_emplace ep s (mset_waiting d),
                     tail_query := Some s\<rparr>, w)
           }
         | Some s \<Rightarrow> do {
             q \<leftarrow> mset_store d s;
             q \<leftarrow> push_key p n q;
             Some (d\<lparr>mset_store := (mset_store d)(s \<mapsto> q), tail_query := Some s\<rparr>, w)
           })"

text \<open>
  The loops over the pairs of a key and a value, in the constructor and in \<^verbatim>\<open>ProcessUnparsedPart\<close>. The
  two sizes are added as \<^verbatim>\<open>int\<close>s, where an overflow is undefined.
\<close>

definition int_sum :: "int \<Rightarrow> int \<Rightarrow> int option" where
  "int_sum x y = (if x + y < - (2 ^ 31) \<or> 2 ^ 31 \<le> x + y then None else Some (x + y))"

fun mset_push_pairs :: "bytes \<Rightarrow> bulk list \<Rightarrow> RedisMsetCommand \<times> World \<Rightarrow> (RedisMsetCommand \<times> World) option" where
  "mset_push_pairs m (k # v # rest) st = do {
     ep \<leftarrow> locate_bulk (snd st) m k;
     n \<leftarrow> int_sum (present_size k) (present_size v);
     st \<leftarrow> mset_PushSubquery ep (Client_Buffer, raw_data k) (word_of_int n) st;
     mset_push_pairs m rest st
   }"
| "mset_push_pairs m _ st = Some st"

definition RedisMsetCommand :: "bytes \<Rightarrow> bulk_array \<Rightarrow> World \<Rightarrow> (Command \<times> World) option" where
  "RedisMsetCommand m ba w = do {
     absent \<leftarrow> absent_bulks m ba;
     let d = \<lparr>mset_unparsed_bulks = absent + absent mod 2, mset_store = Map.empty, mset_next = 0,
              mset_waiting = [], mset_pending = [], tail_query = None\<rparr>;
     (d, w) \<leftarrow> mset_push_pairs m (drop 1 (items ba)) (d, w);
     Some (Command (RedisMset d) REDIS None, w)
   }"

section \<open>DEL, EXISTS and TOUCH\<close>

definition del_PushSubquery ::
  "Endpoint \<Rightarrow> ptr \<Rightarrow> size_t \<Rightarrow> RedisDelCommand \<times> World \<Rightarrow> (RedisDelCommand \<times> World) option" where
  "del_PushSubquery ep p n st =
     (let (d, w) = st
      in case map_of (del_waiting d) ep of
           None \<Rightarrow> do {
             (k, w) \<leftarrow> pool_allocate ep (lock_client w);
             Some (d\<lparr>del_waiting := map_emplace ep
                       \<lparr>sub_backend = k, keys_count = 1, sub_segments = [(p, n)], del_phase = 0\<rparr>
                       (del_waiting d)\<rparr>, w)
           }
         | Some q \<Rightarrow> do {
             q \<leftarrow> push_key p n q;
             Some (d\<lparr>del_waiting := adjust ep (\<lambda>_. q) (del_waiting d)\<rparr>, w)
           })"

definition del_push_key :: "bytes \<Rightarrow> bulk \<Rightarrow> RedisDelCommand \<times> World \<Rightarrow> (RedisDelCommand \<times> World) option" where
  "del_push_key m b st = do {
     ep \<leftarrow> locate_bulk (snd st) m b;
     del_PushSubquery ep (Client_Buffer, raw_data b) (word_of_int (present_size b)) st
   }"

text \<open>The loop of the constructor leaves out the last key when it is not complete.\<close>

fun del_push_keys :: "bytes \<Rightarrow> bulk list \<Rightarrow> RedisDelCommand \<times> World \<Rightarrow> (RedisDelCommand \<times> World) option" where
  "del_push_keys m [] st = Some st"
| "del_push_keys m [b] st = do {
     done \<leftarrow> bulk_completed m b;
     if done then del_push_key m b st
     else Some ((fst st)\<lparr>del_unparsed_bulks := del_unparsed_bulks (fst st) + 1\<rparr>, snd st)
   }"
| "del_push_keys m (b # bs) st = do { st \<leftarrow> del_push_key m b st; del_push_keys m bs st }"

definition RedisDelCommand :: "bytes \<Rightarrow> bulk_array \<Rightarrow> World \<Rightarrow> (Command \<times> World) option" where
  "RedisDelCommand m ba w = do {
     absent \<leftarrow> absent_bulks m ba;
     name \<leftarrow> array_at ba 0;
     name \<leftarrow> payload m name;
     let d = \<lparr>cmd_name = map tolower name, del_unparsed_bulks = absent, del_waiting = [],
              del_pending = [], total_del_count = 0\<rparr>;
     (d, w) \<leftarrow> del_push_keys m (drop 1 (items ba)) (d, w);
     Some (Command (RedisDel d) REDIS None, w)
   }"

section \<open>Answers of the proxy itself\<close>

definition ErrorCommand :: "bytes \<Rightarrow> Command" where
  "ErrorCommand msg = Command (Error_Command msg) NONE None"

definition stats_text :: "World \<Rightarrow> bytes" where
  "stats_text w =
     ''alive_since='' @ int_dec (alive_since w)
     @ '',client_conns='' @ int_dec (stats w Client_Conns)
     @ '',backend_conns='' @ int_dec (stats w Backend_Conns)
     @ '',bytes_from_clients='' @ int_dec (stats w Bytes_From_Clients)
     @ '',bytes_to_clients='' @ int_dec (stats w Bytes_To_Clients)
     @ '',bytes_from_backends='' @ int_dec (stats w Bytes_From_Backends)
     @ '',bytes_to_backends='' @ int_dec (stats w Bytes_To_Backends)
     @ '',client_read_timeouts='' @ int_dec (stats w Client_Read_Timeouts)
     @ '',client_write_timeouts='' @ int_dec (stats w Client_Write_Timeouts)
     @ '',backend_connect_errors='' @ int_dec (stats w Backend_Connect_Errors)
     @ '',backend_connect_timeouts='' @ int_dec (stats w Backend_Connect_Timeouts)
     @ '',backend_read_timeouts='' @ int_dec (stats w Backend_Read_Timeouts)
     @ '',backend_write_timeouts='' @ int_dec (stats w Backend_Write_Timeouts)
     @ CRLF"

definition StatsCommand :: "ProtocolType \<Rightarrow> World \<Rightarrow> Command" where
  "StatsCommand prot w =
     Command (Stats_Command ((if prot = REDIS then ''+'' else '''') @ stats_text w)) prot None"

section \<open>CreateCommand\<close>

text \<open>
  The result: the bytes parsed (0 when more data is needed) and the command, if one was made.  \<open>made\<close>
  registers a new command.
\<close>

type_synonym created = "size_t \<times> cmd_id option \<times> World"

definition made :: "size_t \<Rightarrow> Command \<times> World \<Rightarrow> created" where
  "made n cw = (let (i, w) = new_command (fst cw) (snd cw) in (n, Some i, w))"

definition need_more :: "World \<Rightarrow> created option" where
  "need_more w = Some (0, None, w)"

definition create_redis :: "bytes \<Rightarrow> nat \<Rightarrow> nat \<Rightarrow> World \<Rightarrow> created option" where
  "create_redis m off sz w = do {
     ba \<leftarrow> BulkArray m off sz;
     tot \<leftarrow> total_bulks m ba;
     if tot = 0 then do {
       text \<leftarrow> rd_block m off sz;
       Some (made (of_nat sz) (ErrorCommand (''-ERR Bulk Array Parse Error:['' @ text @ '']'' @ CRLF), w))
     }
     else if present_bulks ba = 0 then need_more w
     else do {
       name \<leftarrow> array_at ba 0;
       absent \<leftarrow> absent_size m name;
       if absent > 0 then need_more w
       else do {
         t \<leftarrow> GetRedisCommandType m name;
         case t of
           RCT_BASIC \<Rightarrow> do {
             full \<leftarrow> array_completed m ba;
             if \<not> full then need_more w
             else do {
               cw \<leftarrow> RedisBasicCommand m ba w;
               n \<leftarrow> array_total_size m ba;
               Some (made n cw)
             }
           }
         | RCT_SET \<Rightarrow>
             if present_bulks ba < 2 then need_more w
             else do {
               key \<leftarrow> array_at ba 1;
               done \<leftarrow> bulk_completed m key;
               if \<not> done then need_more w
               else do {
                 cw \<leftarrow> RedisSetCommand m ba w;
                 Some (made (word_of_int (parsed_size ba)) cw)
               }
             }
         | RCT_MSET \<Rightarrow>
             if present_bulks ba < 3 then need_more w
             else do {
               cw \<leftarrow> RedisMsetCommand m ba w;
               tail \<leftarrow> array_back ba;
               n \<leftarrow> (if present_bulks ba mod 2 = 0 then total_size m tail else Some 0);
               Some (made (word_of_int (parsed_size ba) - n) cw)
             }
         | RCT_MGET \<Rightarrow> do {
             full \<leftarrow> array_completed m ba;
             if \<not> full then need_more w
             else do {
               cw \<leftarrow> RedisMgetCommand m ba w;
               n \<leftarrow> array_total_size m ba;
               Some (made n cw)
             }
           }
         | RCT_DEL \<Rightarrow>
             if present_bulks ba < 2 then need_more w
             else do {
               key \<leftarrow> array_at ba 1;
               done \<leftarrow> bulk_completed m key;
               if \<not> done then need_more w
               else do {
                 cw \<leftarrow> RedisDelCommand m ba w;
                 tail \<leftarrow> array_back ba;
                 done \<leftarrow> bulk_completed m tail;
                 n \<leftarrow> (if done then Some 0 else total_size m tail);
                 Some (made (word_of_int (parsed_size ba) - n) cw)
               }
             }
         | RCT_YARMSTATS \<Rightarrow> do {
             full \<leftarrow> array_completed m ba;
             if \<not> full then need_more w
             else do {
               n \<leftarrow> array_total_size m ba;
               Some (made n (StatsCommand REDIS w, w))
             }
           }
         | RCT_UNSUPPORTED \<Rightarrow> do {
             s \<leftarrow> to_string m name;
             Some (made (of_nat sz)
               (ErrorCommand (''-ERR YarmProxy unsupported redis command:['' @ s @ '']'' @ CRLF), w))
           }
       }
     }
   }"

definition create_memc :: "bytes \<Rightarrow> nat \<Rightarrow> nat \<Rightarrow> nat \<Rightarrow> World \<Rightarrow> created option" where
  "create_memc m off sz line w = do {
     t \<leftarrow> GetMemcCommandType m off line;
     text \<leftarrow> rd_block m off line;
     case t of
       MCT_GET \<Rightarrow> do {
         cw \<leftarrow> MemcGetCommand m off line w;
         Some (made (of_nat line) cw)
       }
     | MCT_SET \<Rightarrow> do {
         (body, c, w) \<leftarrow> MemcSetCommand m off line w;
         if body \<le> 2 then do {
           w \<leftarrow> foldM pool_release (owned_backends c) w;
           Some (made (of_nat line) (ErrorCommand (''ERR Protocol Error:['' @ text @ '']'' @ CRLF), w))
         }
         else Some (made (of_nat line + body) (c, w))
       }
     | MCT_BASIC \<Rightarrow> do {
         cw \<leftarrow> MemcBasicCommand m off w;
         Some (made (of_nat line) cw)
       }
     | MCT_YARMSTATS \<Rightarrow> Some (made (of_nat line) (StatsCommand MEMCACHED w, w))
     | MCT_UNSUPPORTED \<Rightarrow>
         Some (made (of_nat sz) (ErrorCommand (''YarmProxy Unsupported Request ['' @ text @ '']'' @ CRLF), w))
   }"

definition CreateCommand :: "nat \<Rightarrow> size_t \<Rightarrow> World \<Rightarrow> created option" where
  "CreateCommand off n w =
     (let m = data (client_buffer w); sz = unat n
      in case memchr (drop off m) LF sz of
           None \<Rightarrow>
             if n > conf_buffer_size (conf w) div 2 then do {
               c \<leftarrow> rd m off;
               text \<leftarrow> rd_block m off sz;
               Some (made n (ErrorCommand ((if c = CHR ''*'' then ''-'' else '''')
                 @ ''ERR Too long unparsable data:['' @ text @ '']'' @ CRLF), w))
             }
             else need_more w
         | Some p \<Rightarrow> do {
             c \<leftarrow> rd m off;
             if c = CHR ''*'' then create_redis m off sz w
             else create_memc m off sz (p + 1) w
           })"

end
