(* ===== verification/Command_Query.thy ===== *)
theory Command_Query
  imports Command_Create
begin

text \<open>
  How a command sends its query: \<^verbatim>\<open>StartWriteQuery\<close> and \<^verbatim>\<open>ContinueWriteQuery\<close> of every class, the
  parsing of the parts that arrive later (\<^verbatim>\<open>ParseUnparsedPart\<close>, \<^verbatim>\<open>ProcessUnparsedPart\<close>), and the
  predicates on the state of the query.  The virtual calls of the code are functions that distinguish
  the classes.
\<close>

section \<open>Predicates\<close>

definition query_parsing_complete :: "cmd_id \<Rightarrow> World \<Rightarrow> bool option" where
  "query_parsing_complete i w = do {
     c \<leftarrow> cmds w i;
     Some (case cmd_data c of
       RedisSet n _ \<Rightarrow> n = 0
     | RedisMset d \<Rightarrow> mset_unparsed_bulks d = 0
     | RedisDel d \<Rightarrow> del_unparsed_bulks d = 0
     | _ \<Rightarrow> True)
   }"

text \<open>\<^verbatim>\<open>tail_query_\<close> of an MSET is dereferenced without a test.\<close>

definition tail_subquery :: "RedisMsetCommand \<Rightarrow> MsetSubquery option" where
  "tail_subquery d = do { s \<leftarrow> tail_query d; mset_store d s }"

definition query_recv_complete :: "cmd_id \<Rightarrow> World \<Rightarrow> bool option" where
  "query_recv_complete i w = do {
     c \<leftarrow> cmds w i;
     case cmd_data c of
       RedisSet _ done \<Rightarrow> Some done
     | MemcSet done \<Rightarrow> Some done
     | RedisMset d \<Rightarrow> do { q \<leftarrow> tail_subquery d; Some (sub_recv_complete q \<and> mset_unparsed_bulks d = 0) }
     | RedisDel d \<Rightarrow> Some (del_unparsed_bulks d = 0)
     | _ \<Rightarrow> Some True
   }"

definition check_query_recv_complete :: "cmd_id \<Rightarrow> World \<Rightarrow> World option" where
  "check_query_recv_complete i w = do {
     c \<leftarrow> cmds w i;
     let received = (parsed_unreceived_bytes (client_buffer w) = 0);
     case cmd_data c of
       RedisSet n done \<Rightarrow> set_data i (RedisSet n (if received \<and> n = 0 then True else done)) w
     | MemcSet done \<Rightarrow> set_data i (MemcSet (if received then True else done)) w
     | _ \<Rightarrow> Some w
   }"

section \<open>Prefixes of subqueries\<close>

text \<open>The caches of the code hold the same text that is computed without them.\<close>

definition RedisMsetPrefix :: "size_t \<Rightarrow> bytes" where
  "RedisMsetPrefix n =
     (case map_of [(1, ''*3''), (2, ''*5''), (3, ''*7''), (4, ''*9'')] n of
        Some p \<Rightarrow> p
      | None \<Rightarrow> CHR ''*'' # nat_dec (unat (n * 2 + 1)))
     @ CRLF @ ''$4'' @ CRLF @ ''mset'' @ CRLF"

definition RedisDelPrefix :: "bytes \<Rightarrow> size_t \<Rightarrow> bytes option" where
  "RedisDelPrefix name n =
     (if name \<notin> {''del'', ''exists'', ''touch''} then None
      else Some (case (if name = ''del'' then map_of [(1, ''*2''), (2, ''*3''), (3, ''*4''), (4, ''*5'')] n else None) of
          Some p \<Rightarrow> p @ CRLF @ ''$3'' @ CRLF @ ''del'' @ CRLF
        | None \<Rightarrow> CHR ''*'' # nat_dec (unat (n + 1)) @ CRLF @ CHR ''$'' # nat_dec (length name) @ CRLF @ name @ CRLF))"

definition mget_query_prefix :: "size_t \<Rightarrow> bytes" where
  "mget_query_prefix n = SerializePrefix (int32 (uint (n + 1))) @ ''$4'' @ CRLF @ ''mget'' @ CRLF"

section \<open>StartWriteQuery\<close>

definition write_query :: "conn_id \<Rightarrow> segment \<Rightarrow> World \<Rightarrow> World option" where
  "write_query k seg = conn_call k (WriteQuery (fst seg) (snd seg))"

definition write_const :: "conn_id \<Rightarrow> bytes \<Rightarrow> World \<Rightarrow> World option" where
  "write_const k bs = write_query k ((Const_Data bs, 0), of_nat (length bs))"

definition set_callback :: "cmd_id \<Rightarrow> conn_id \<Rightarrow> World \<Rightarrow> World option" where
  "set_callback i k = conn_upd k (\<lambda>b. Some (SetReadWriteCallback i b))"

text \<open>\<^verbatim>\<open>WriteQuery(buffer()->unprocessed_data(), buffer()->unprocessed_bytes())\<close> under a recycle lock.\<close>

definition forward_query :: "conn_id \<Rightarrow> World \<Rightarrow> World option" where
  "forward_query k w =
     (let w = lock_client w; buf = client_buffer w
      in write_query k ((Client_Buffer, unprocessed_data buf), unprocessed_bytes buf) w)"

definition base_StartWriteQuery :: "cmd_id \<Rightarrow> World \<Rightarrow> World option" where
  "base_StartWriteQuery i w = do {
     c \<leftarrow> cmds w i;
     k \<leftarrow> replying_backend c;
     w \<leftarrow> check_query_recv_complete i w;
     w \<leftarrow> set_callback i k w;
     forward_query k w
   }"

text \<open>\<^verbatim>\<open>StartWriteReply\<close> of an error, of the statistics and of MGET.\<close>

definition message_StartWriteReply :: "cmd_id \<Rightarrow> bytes \<Rightarrow> World \<Rightarrow> World option" where
  "message_StartWriteReply i msg = WriteReply (Const_Data msg, 0) (of_nat (length msg)) i None"

definition message_StartWriteQuery :: "cmd_id \<Rightarrow> bytes \<Rightarrow> World \<Rightarrow> World option" where
  "message_StartWriteQuery i msg w = do {
     first \<leftarrow> IsFirstCommand i w;
     if first then message_StartWriteReply i msg w else Some w
   }"

definition get_start_subquery :: "cmd_id \<Rightarrow> GetSubquery \<Rightarrow> World \<Rightarrow> World option" where
  "get_start_subquery i s w = do {
     w \<leftarrow> set_callback i (get_backend s) w;
     case get_segments s of [] \<Rightarrow> None | seg # _ \<Rightarrow> write_query (get_backend s) seg w
   }"

definition mget_start_subquery :: "cmd_id \<Rightarrow> MgetSubquery \<Rightarrow> World \<Rightarrow> World option" where
  "mget_start_subquery i s w = do {
     w \<leftarrow> set_callback i (mget_backend s) w;
     write_const (mget_backend s) (mget_query_prefix (key_count s)) w
   }"

definition mget_StartWriteQuery :: "cmd_id \<Rightarrow> RedisMgetCommand \<Rightarrow> World \<Rightarrow> World option" where
  "mget_StartWriteQuery i g w = do {
     w \<leftarrow> foldM (mget_start_subquery i \<circ> snd) (mget_subqueries g) w;
     w \<leftarrow> set_data i (RedisMget (g\<lparr>mget_subqueries :=
            map (\<lambda>(ep, s). (ep, s\<lparr>query_prefix := mget_query_prefix (key_count s),
                                  mget_segments := ((Const_Data [], 0), 0) # mget_segments s\<rparr>))
                (mget_subqueries g)\<rparr>)) w;
     message_StartWriteQuery i (reply_prefix g) w
   }"

text \<open>\<^verbatim>\<open>pending_subqueries_[backend] = query\<close>.\<close>

definition map_assign :: "'k \<Rightarrow> 'v \<Rightarrow> ('k \<times> 'v) list \<Rightarrow> ('k \<times> 'v) list" where
  "map_assign k v m = (if map_of m k = None then m @ [(k, v)] else adjust k (\<lambda>_. v) m)"

definition map_erase :: "'k \<Rightarrow> ('k \<times> 'v) list \<Rightarrow> ('k \<times> 'v) list" where
  "map_erase k m = filter (\<lambda>(k', _). k' \<noteq> k) m"

definition mset_activate :: "cmd_id \<Rightarrow> nat \<Rightarrow> RedisMsetCommand \<times> World \<Rightarrow> (RedisMsetCommand \<times> World) option" where
  "mset_activate i s st = do {
     let (d, w) = st;
     q \<leftarrow> mset_store d s;
     let k = sub_backend q;
     w \<leftarrow> set_callback i k w;
     let all_here = (tail_query d \<noteq> Some s \<or> parsed_unreceived_bytes (client_buffer w) = 0);
     let q = (if all_here then q\<lparr>sub_recv_complete := True\<rparr> else q);
     w \<leftarrow> write_const k (RedisMsetPrefix (keys_count q)) w;
     Some (d\<lparr>mset_store := (mset_store d)(s \<mapsto> q), mset_pending := map_assign k s (mset_pending d)\<rparr>, w)
   }"

definition mset_ActivateWaitingSubquery :: "cmd_id \<Rightarrow> RedisMsetCommand \<times> World \<Rightarrow> (RedisMsetCommand \<times> World) option" where
  "mset_ActivateWaitingSubquery i st = do {
     (d, w) \<leftarrow> foldM (mset_activate i \<circ> snd) (mset_waiting (fst st)) st;
     Some (d\<lparr>mset_waiting := []\<rparr>, w)
   }"

text \<open>\<^verbatim>\<open>tail_query_->query_recv_complete_ = true\<close> when nothing that was parsed is still to come.\<close>

definition mset_mark_tail :: "World \<Rightarrow> RedisMsetCommand \<Rightarrow> RedisMsetCommand option" where
  "mset_mark_tail w d = do {
     s \<leftarrow> tail_query d;
     q \<leftarrow> mset_store d s;
     Some (if parsed_unreceived_bytes (client_buffer w) = 0
           then d\<lparr>mset_store := (mset_store d)(s \<mapsto> q\<lparr>sub_recv_complete := True\<rparr>)\<rparr> else d)
   }"

definition mset_StartWriteQuery :: "cmd_id \<Rightarrow> RedisMsetCommand \<Rightarrow> World \<Rightarrow> World option" where
  "mset_StartWriteQuery i d w = do {
     d \<leftarrow> mset_mark_tail w d;
     (d, w) \<leftarrow> mset_ActivateWaitingSubquery i (d, w);
     set_data i (RedisMset d) w
   }"

definition del_activate :: "cmd_id \<Rightarrow> DelSubquery \<Rightarrow> RedisDelCommand \<times> World \<Rightarrow> (RedisDelCommand \<times> World) option" where
  "del_activate i q st = do {
     let (d, w) = st;
     let k = sub_backend q;
     w \<leftarrow> set_callback i k w;
     prefix \<leftarrow> RedisDelPrefix (cmd_name d) (keys_count q);
     w \<leftarrow> write_const k prefix w;
     Some (d\<lparr>del_pending := map_assign k q (del_pending d)\<rparr>, w)
   }"

definition del_ActivateWaitingSubquery :: "cmd_id \<Rightarrow> RedisDelCommand \<times> World \<Rightarrow> (RedisDelCommand \<times> World) option" where
  "del_ActivateWaitingSubquery i st = do {
     (d, w) \<leftarrow> foldM (del_activate i \<circ> snd) (del_waiting (fst st)) st;
     Some (d\<lparr>del_waiting := []\<rparr>, w)
   }"

definition StartWriteQuery :: "cmd_id \<Rightarrow> World \<Rightarrow> (bool \<times> World) option" where
  "StartWriteQuery i w = do {
     c \<leftarrow> cmds w i;
     w \<leftarrow> (case cmd_data c of
         Error_Command msg \<Rightarrow> message_StartWriteQuery i msg w
       | Stats_Command msg \<Rightarrow> message_StartWriteQuery i msg w
       | MemcGet g \<Rightarrow> foldM (get_start_subquery i \<circ> snd) (get_subqueries g) w
       | RedisMget g \<Rightarrow> mget_StartWriteQuery i g w
       | RedisMset d \<Rightarrow> mset_StartWriteQuery i d w
       | RedisDel d \<Rightarrow> do {
           (d, w) \<leftarrow> del_ActivateWaitingSubquery i (d, w);
           set_data i (RedisDel d) w
         }
       | _ \<Rightarrow> base_StartWriteQuery i w);
     Some (False, w)
   }"

section \<open>ContinueWriteQuery\<close>

definition base_ContinueWriteQuery :: "cmd_id \<Rightarrow> World \<Rightarrow> (bool \<times> World) option" where
  "base_ContinueWriteQuery i w = do {
     w \<leftarrow> check_query_recv_complete i w;
     c \<leftarrow> cmds w i;
     k \<leftarrow> replying_backend c;
     b \<leftarrow> conns (pool w) k;
     if conn_error b then do {
       done \<leftarrow> query_recv_complete i w;
       if \<not> done then Some (True, w)
       else do {
         first \<leftarrow> IsFirstCommand i w;
         w \<leftarrow> (if first then TryWriteReply i k w else Some w);
         Some (False, w)
       }
     }
     else do {
       w \<leftarrow> forward_query k w;
       Some (False, w)
     }
   }"

definition mset_ContinueWriteQuery :: "cmd_id \<Rightarrow> RedisMsetCommand \<Rightarrow> World \<Rightarrow> (bool \<times> World) option" where
  "mset_ContinueWriteQuery i d w = do {
     d \<leftarrow> mset_mark_tail w d;
     w \<leftarrow> set_data i (RedisMset d) w;
     q \<leftarrow> tail_subquery d;
     let k = sub_backend q;
     b \<leftarrow> conns (pool w) k;
     if conn_error b then
       if \<not> sub_recv_complete q then Some (True, w)
       else if mset_unparsed_bulks d = 0 \<and> mset_waiting d = [] \<and> length (mset_pending d) = 1 then do {
         first \<leftarrow> IsFirstCommand i w;
         w \<leftarrow> (if first then TryWriteReply i k w else set_replying i (Some k) w);
         Some (False, w)
       }
       else do {
         w \<leftarrow> set_data i (RedisMset (d\<lparr>mset_pending := map_erase k (mset_pending d)\<rparr>)) w;
         w \<leftarrow> pool_release k w;
         Some (False, w)
       }
     else if phase q \<noteq> READING_MORE_QUERY then None
     else do {
       w \<leftarrow> forward_query k w;
       Some (False, w)
     }
   }"

text \<open>The classes whose queries are complete when they are created assert that they are not called.\<close>

definition ContinueWriteQuery :: "cmd_id \<Rightarrow> World \<Rightarrow> (bool \<times> World) option" where
  "ContinueWriteQuery i w = do {
     c \<leftarrow> cmds w i;
     case cmd_data c of
       RedisBasic \<Rightarrow> None
     | MemcBasic \<Rightarrow> None
     | MemcGet _ \<Rightarrow> None
     | RedisMget _ \<Rightarrow> None
     | RedisDel _ \<Rightarrow> None
     | RedisMset d \<Rightarrow> mset_ContinueWriteQuery i d w
     | _ \<Rightarrow> base_ContinueWriteQuery i w
   }"

section \<open>Parts of a query that arrive later\<close>

text \<open>\<^verbatim>\<open>RedisSetCommand::ParseUnparsedPart\<close>: every iteration takes one of the missing bulks.\<close>

function set_parse_loop :: "size_t \<Rightarrow> read_buffer \<Rightarrow> (bool \<times> size_t \<times> read_buffer) option" where
  "set_parse_loop n buf =
     (if n > 0 \<and> unparsed_received_bytes buf > 0 then do {
        b \<leftarrow> Bulk (data buf) (unparsed_data buf) (unat (unparsed_received_bytes buf));
        if present_size b < 0 then Some (False, n, buf)
        else if present_size b = 0 then Some (True, n, buf)
        else do {
          t \<leftarrow> total_size (data buf) b;
          set_parse_loop (n - 1) (update_parsed_bytes t buf)
        }
      }
      else Some (True, n, buf))"
  by pat_completeness auto

termination
  by (relation "measure (\<lambda>(n, buf). unat n)") (auto simp: unat_minus_one word_gt_0 unat_gt_0)

declare set_parse_loop.simps [simp del]

definition ParseUnparsedPart :: "cmd_id \<Rightarrow> World \<Rightarrow> (bool \<times> World) option" where
  "ParseUnparsedPart i w = do {
     c \<leftarrow> cmds w i;
     case cmd_data c of
       RedisSet n done \<Rightarrow> do {
         (ok, n, buf) \<leftarrow> set_parse_loop n (client_buffer w);
         w \<leftarrow> set_data i (RedisSet n done) (w\<lparr>client_buffer := buf\<rparr>);
         Some (ok, w)
       }
     | _ \<Rightarrow> Some (True, w)
   }"

text \<open>The bulks that have arrived, \<^verbatim>\<open>ParseBulkItems(unparsed_data(), unparsed_received_bytes(), unparsed_bulks_)\<close>.\<close>

definition new_bulks :: "size_t \<Rightarrow> World \<Rightarrow> (int \<times> bulk list) option" where
  "new_bulks n w =
     (let buf = client_buffer w
      in ParseBulkItems (data buf) (unparsed_data buf) (unat (unparsed_received_bytes buf)) n)"

text \<open>\<^verbatim>\<open>parsed_bytes -= new_bulks.back().total_size(); new_bulks.pop_back();\<close>\<close>

definition drop_back :: "bytes \<Rightarrow> int \<Rightarrow> bulk list \<Rightarrow> (int \<times> bulk list) option" where
  "drop_back m parsed bs = do {
     t \<leftarrow> total_size m (last bs);
     Some (int32 (parsed - uint t), butlast bs)
   }"

definition read_if_unlocked :: "World \<Rightarrow> World" where
  "read_if_unlocked w = (if recycle_locked (client_buffer w) then w else TryReadMoreQuery w)"

definition mset_ProcessUnparsedPart :: "cmd_id \<Rightarrow> RedisMsetCommand \<Rightarrow> World \<Rightarrow> (bool \<times> World) option" where
  "mset_ProcessUnparsedPart i d w = do {
     let m = data (client_buffer w);
     (parsed, bs) \<leftarrow> new_bulks (mset_unparsed_bulks d) w;
     if parsed < 0 then Some (False, w)
     else do {
       (parsed, bs) \<leftarrow> (if odd (length bs) then drop_back m parsed bs else Some (parsed, bs));
       if bs = [] then Some (True, read_if_unlocked w)
       else do {
         (d, w) \<leftarrow> mset_push_pairs m bs (d, w);
         t \<leftarrow> total_size m (last bs);
         w \<leftarrow> client_buf (update_processed_bytes (word_of_int parsed - t + word_of_int (present_size (last bs)))) w;
         w \<leftarrow> client_buf (\<lambda>b. Some (update_parsed_bytes (word_of_int parsed) b)) w;
         (d, w) \<leftarrow> mset_ActivateWaitingSubquery i
                     (d\<lparr>mset_unparsed_bulks := mset_unparsed_bulks d - of_nat (length bs)\<rparr>, w);
         w \<leftarrow> set_data i (RedisMset d) w;
         Some (True, w)
       }
     }
   }"

definition del_ProcessUnparsedPart :: "cmd_id \<Rightarrow> RedisDelCommand \<Rightarrow> World \<Rightarrow> (bool \<times> World) option" where
  "del_ProcessUnparsedPart i d w = do {
     let m = data (client_buffer w);
     (parsed, bs) \<leftarrow> new_bulks (del_unparsed_bulks d) w;
     if parsed < 0 then Some (False, w)
     else do {
       done \<leftarrow> (if bs = [] then Some True else bulk_completed m (last bs));
       (parsed, bs) \<leftarrow> (if done then Some (parsed, bs) else drop_back m parsed bs);
       if bs = [] then Some (True, read_if_unlocked w)
       else do {
         (d, w) \<leftarrow> foldM (del_push_key m) bs
                     (d\<lparr>del_unparsed_bulks := del_unparsed_bulks d - of_nat (length bs)\<rparr>, w);
         w \<leftarrow> client_buf (update_processed_bytes (word_of_int parsed)) w;
         w \<leftarrow> client_buf (\<lambda>b. Some (update_parsed_bytes (word_of_int parsed) b)) w;
         (d, w) \<leftarrow> del_ActivateWaitingSubquery i (d, w);
         w \<leftarrow> set_data i (RedisDel d) w;
         Some (True, w)
       }
     }
   }"

definition ProcessUnparsedPart :: "cmd_id \<Rightarrow> World \<Rightarrow> (bool \<times> World) option" where
  "ProcessUnparsedPart i w = do {
     c \<leftarrow> cmds w i;
     case cmd_data c of
       RedisMset d \<Rightarrow> mset_ProcessUnparsedPart i d w
     | RedisDel d \<Rightarrow> del_ProcessUnparsedPart i d w
     | _ \<Rightarrow> Some (True, w)
   }"

end
