(* ===== verification/Command_Frame.thy ===== *)
theory Command_Frame
  imports Command_Query
begin

text \<open>
  What the operations of the commands leave alone.  \<open>same_client\<close> relates the state before and after an
  operation that neither changes the queue of commands nor aborts the client.
\<close>

named_theorems frame \<open>operations that keep the queue\<close>
named_theorems quiet_ops \<open>operations that are quiet\<close>

definition same_client :: "World \<Rightarrow> World \<Rightarrow> bool" where
  "same_client w w' \<longleftrightarrow>
     active_cmd_queue w' = active_cmd_queue w \<and> held w' = held w \<and> client_aborted w' = client_aborted w
     \<and> conf w' = conf w \<and> key_locator w' = key_locator w"

lemma same_client_refl [simp, intro!]: "same_client w w"
  by (simp add: same_client_def)

lemma same_client_trans [trans]: "same_client a b \<Longrightarrow> same_client b c \<Longrightarrow> same_client a c"
  by (simp add: same_client_def)

lemma same_client_upd [simp]:
  "same_client w (w'\<lparr>pool := x1\<rparr>) = same_client w w'"
  "same_client w (w'\<lparr>next_conn := x2\<rparr>) = same_client w w'"
  "same_client w (w'\<lparr>client_buffer := x3\<rparr>) = same_client w w'"
  "same_client w (w'\<lparr>cmds := x4\<rparr>) = same_client w w'"
  "same_client w (w'\<lparr>next_cmd := x5\<rparr>) = same_client w w'"
  "same_client w (w'\<lparr>ops := x6\<rparr>) = same_client w w'"
  "same_client w (w'\<lparr>is_reading_query := x7\<rparr>) = same_client w w'"
  "same_client w (w'\<lparr>is_writing_reply := x8\<rparr>) = same_client w w'"
  "same_client w (w'\<lparr>stats := x9\<rparr>) = same_client w w'"
  by (simp_all add: same_client_def)

lemma same_client_upd_left [simp]:
  "same_client (w\<lparr>pool := x1\<rparr>) w' = same_client w w'"
  "same_client (w\<lparr>next_conn := x2\<rparr>) w' = same_client w w'"
  "same_client (w\<lparr>client_buffer := x3\<rparr>) w' = same_client w w'"
  "same_client (w\<lparr>cmds := x4\<rparr>) w' = same_client w w'"
  "same_client (w\<lparr>ops := x6\<rparr>) w' = same_client w w'"
  "same_client (w\<lparr>is_writing_reply := x8\<rparr>) w' = same_client w w'"
  "same_client (lock_client w) w' = same_client w w'"
  by (simp_all add: same_client_def lock_client_def)

lemma same_client_log_ops [simp]: "same_client w (log_ops os w') = same_client w w'"
  by (simp add: log_ops_def)

lemma same_client_count_act [simp]: "same_client w (count_act a w') = same_client w w'"
  by (cases a) (simp_all add: count_up_def)

lemma same_client_emit [simp]: "same_client w (emit i acts w') = same_client w w'"
proof -
  have "same_client w (fold count_act acts w') = same_client w w'" for w'
    by (induction acts arbitrary: w') simp_all
  then show ?thesis by (simp add: emit_def)
qed

lemma same_client_lock [simp]: "same_client w (lock_client w') = same_client w w'"
  by (simp add: lock_client_def)

lemma same_client_UpdateTimer [simp]: "same_client w (UpdateTimer t w') = same_client w w'"
  by (simp add: UpdateTimer_def)

lemma same_client_AsyncRead [simp]: "same_client w (AsyncRead w') = same_client w w'"
  by (simp add: AsyncRead_def Let_def)

lemma same_client_TryReadMoreQuery [simp]: "same_client w (TryReadMoreQuery w') = same_client w w'"
  by (simp add: TryReadMoreQuery_def)

lemma same_client_read_if_unlocked [simp]: "same_client w (read_if_unlocked w') = same_client w w'"
  by (simp add: read_if_unlocked_def)

lemma same_client_sym: "same_client a b \<Longrightarrow> same_client b a"
  by (simp add: same_client_def)

lemma same_client_left [simp]:
  "same_client (TryReadMoreQuery w) w' = same_client w w'"
  "same_client (read_if_unlocked w) w' = same_client w w'"
  "same_client (emit i acts w) w' = same_client w w'"
  using same_client_TryReadMoreQuery [of w w] same_client_read_if_unlocked [of w w]
    same_client_emit [of w i acts w]
  unfolding same_client_def by auto

section \<open>Operations that leave the client's side alone\<close>

fun is_client_write :: "op \<Rightarrow> bool" where
  "is_client_write (Client_Write _ _ _ _) = True"
| "is_client_write _ = False"

definition writes :: "World \<Rightarrow> op list" where
  "writes w = filter is_client_write (ops w)"

definition quiet :: "World \<Rightarrow> World \<Rightarrow> bool" where
  "quiet w w' \<longleftrightarrow>
     same_client w w' \<and> dom (cmds w') = dom (cmds w) \<and> next_cmd w' = next_cmd w
     \<and> is_writing_reply w' = is_writing_reply w \<and> writes w' = writes w"

lemma quiet_refl [simp, intro!]: "quiet w w"
  by (auto simp: quiet_def intro: same_client_trans same_client_sym)

lemma quiet_same_client: "quiet w w' \<Longrightarrow> same_client w w'"
  by (simp add: quiet_def)

lemma quiet_trans [trans]: "quiet a b \<Longrightarrow> quiet b c \<Longrightarrow> quiet a c"
  by (auto simp: quiet_def intro: same_client_trans same_client_sym)

lemma quiet_sym: "quiet a b \<Longrightarrow> quiet b a"
  by (auto simp: quiet_def intro: same_client_trans same_client_sym)

lemma quiet_upd [simp]:
  "quiet w (w'\<lparr>pool := x1\<rparr>) = quiet w w'"
  "quiet w (w'\<lparr>next_conn := x2\<rparr>) = quiet w w'"
  "quiet w (w'\<lparr>client_buffer := x3\<rparr>) = quiet w w'"
  "quiet w (w'\<lparr>is_reading_query := x7\<rparr>) = quiet w w'"
  "quiet w (w'\<lparr>stats := x9\<rparr>) = quiet w w'"
  by (simp_all add: quiet_def writes_def)

lemma quiet_upd_left [simp]:
  "quiet (w\<lparr>pool := x1\<rparr>) w' = quiet w w'"
  "quiet (w\<lparr>next_conn := x2\<rparr>) w' = quiet w w'"
  "quiet (w\<lparr>client_buffer := x3\<rparr>) w' = quiet w w'"
  "quiet (w\<lparr>is_reading_query := x7\<rparr>) w' = quiet w w'"
  "quiet (w\<lparr>stats := x9\<rparr>) w' = quiet w w'"
  by (simp_all add: quiet_def writes_def same_client_def)

lemma quiet_cmds [simp]: "cmds w i = Some c \<Longrightarrow> quiet w (w\<lparr>cmds := (cmds w)(i \<mapsto> c')\<rparr>)"
  by (auto simp: quiet_def writes_def)

lemma quiet_log: "filter is_client_write os = [] \<Longrightarrow> quiet w (log_ops os w') = quiet w w'"
  by (simp add: quiet_def writes_def log_ops_def)

lemma quiet_count_act [simp]: "quiet w (count_act a w') = quiet w w'"
  by (cases a) (simp_all add: count_up_def)

lemma quiet_count_up [simp]: "quiet w (count_up k n w') = quiet w w'"
  by (simp add: count_up_def)

lemma quiet_emit [simp]: "quiet w (emit i acts w') = quiet w w'"
proof -
  have "quiet w (fold count_act acts w') = quiet w w'" for w'
    by (induction acts arbitrary: w') simp_all
  moreover have "filter is_client_write (map (Conn_Op i) acts) = []"
    by (induction acts) simp_all
  ultimately show ?thesis by (simp add: emit_def quiet_log)
qed

lemma quiet_lock [simp]: "quiet w (lock_client w') = quiet w w'"
  by (simp add: lock_client_def)

lemma quiet_UpdateTimer [simp]: "quiet w (UpdateTimer t w') = quiet w w'"
  by (simp add: UpdateTimer_def quiet_log)

lemma quiet_AsyncRead [simp]: "quiet w (AsyncRead w') = quiet w w'"
  by (simp add: AsyncRead_def Let_def quiet_log)

lemma quiet_TryReadMoreQuery [simp]: "quiet w (TryReadMoreQuery w') = quiet w w'"
  by (simp add: TryReadMoreQuery_def)

lemma quiet_read_if_unlocked [simp]: "quiet w (read_if_unlocked w') = quiet w w'"
  by (simp add: read_if_unlocked_def)

lemma quiet_left [simp]:
  "quiet (lock_client w) w' = quiet w w'"
  "quiet (TryReadMoreQuery w) w' = quiet w w'"
  "quiet (read_if_unlocked w) w' = quiet w w'"
  "quiet (emit i acts w) w' = quiet w w'"
  "quiet (count_up k n w) w' = quiet w w'"
  using quiet_lock [of w w] quiet_TryReadMoreQuery [of w w] quiet_read_if_unlocked [of w w]
    quiet_emit [of w i acts w] quiet_count_up [of w k n w]
  unfolding quiet_def same_client_def by auto

lemma quiet_conn_call [quiet_ops]: "conn_call k f w = Some w' \<Longrightarrow> quiet w w'"
  by (auto simp: conn_call_def bind_eq_Some_conv split_def Let_def)

lemma quiet_conn_upd [quiet_ops]: "conn_upd k f w = Some w' \<Longrightarrow> quiet w w'"
  by (auto simp: conn_upd_def bind_eq_Some_conv)

lemma quiet_conn_buf [quiet_ops]: "conn_buf k f w = Some w' \<Longrightarrow> quiet w w'"
  by (auto simp: conn_buf_def dest: quiet_ops)

lemma quiet_client_buf [quiet_ops]: "client_buf f w = Some w' \<Longrightarrow> quiet w w'"
  by (auto simp: client_buf_def)

lemma quiet_cmd_upd [quiet_ops]: "cmd_upd i f w = Some w' \<Longrightarrow> quiet w w'"
  by (auto simp: cmd_upd_def)

lemma quiet_set_data [quiet_ops]: "set_data i d w = Some w' \<Longrightarrow> quiet w w'"
  by (auto simp: set_data_def dest: quiet_ops)

lemma quiet_set_replying [quiet_ops]: "set_replying i b w = Some w' \<Longrightarrow> quiet w w'"
  by (auto simp: set_replying_def dest: quiet_ops)

lemma pool_allocate_shape:
  assumes "pool_allocate ep w = Some (k, w')"
  shows "\<exists>pl c. Allocate (next_conn w) (conn_mem w (next_conn w)) (conn_size w) ep (pool w) = Some (k, pl)
    \<and> w' = w\<lparr>pool := pl, next_conn := (if k = next_conn w then Suc k else next_conn w), stats := c\<rparr>"
proof -
  obtain pl where pl: "Allocate (next_conn w) (conn_mem w (next_conn w)) (conn_size w) ep (pool w) = Some (k, pl)"
      "w' = (if k = next_conn w then count_up Backend_Conns 1 (w\<lparr>pool := pl, next_conn := Suc k\<rparr>) else w\<lparr>pool := pl\<rparr>)"
    using assms by (auto simp: pool_allocate_def bind_eq_Some_conv Let_def)
  then show ?thesis
    by (intro exI [of _ pl] exI [of _ "stats w'"]) (simp add: count_up_def)
qed

lemma quiet_pool_allocate [quiet_ops]: "pool_allocate ep w = Some (k, w') \<Longrightarrow> quiet w w'"
  by (auto dest!: pool_allocate_shape)

lemma quiet_pool_release [quiet_ops]: "pool_release k w = Some w' \<Longrightarrow> quiet w w'"
  by (auto simp: pool_release_def bind_eq_Some_conv)

lemma foldM_rel:
  assumes "foldM f xs s = Some s'" and "\<And>x s s'. x \<in> set xs \<Longrightarrow> f x s = Some s' \<Longrightarrow> R s s'"
    and "\<And>s. R s s" and "\<And>a b c. R a b \<Longrightarrow> R b c \<Longrightarrow> R a c"
  shows "R s s'"
  using assms(1,2)
proof (induction xs arbitrary: s)
  case Nil
  then show ?case using assms(3) by simp
next
  case (Cons x xs)
  then obtain t where t: "f x s = Some t" "foldM f xs t = Some s'"
    by (auto simp: bind_eq_Some_conv)
  then have "R s t" "R t s'" using Cons by auto
  then show ?case by (rule assms(4))
qed

lemma quiet_foldM:
  assumes "foldM f xs w = Some w'" and "\<And>x w w'. f x w = Some w' \<Longrightarrow> quiet w w'"
  shows "quiet w w'"
  using assms(1) by (rule foldM_rel) (auto intro: assms(2) quiet_trans)

lemma quiet_foldM_snd:
  assumes "foldM f xs st = Some st'" and "\<And>x st st'. f x st = Some st' \<Longrightarrow> quiet (snd st) (snd st')"
  shows "quiet (snd st) (snd st')"
  by (rule foldM_rel [where R = "\<lambda>a b. quiet (snd a) (snd b)", OF assms(1)])
    (auto intro: assms(2) quiet_trans)

lemma quiet_release_all [quiet_ops]: "foldM pool_release ks w = Some w' \<Longrightarrow> quiet w w'"
  by (erule quiet_foldM) (rule quiet_ops)

subsection \<open>Sending queries\<close>

lemma quiet_write_query [quiet_ops]: "write_query k seg w = Some w' \<Longrightarrow> quiet w w'"
  by (auto simp: write_query_def dest: quiet_ops)

lemma quiet_write_const [quiet_ops]: "write_const k bs w = Some w' \<Longrightarrow> quiet w w'"
  by (auto simp: write_const_def dest: quiet_ops)

lemma quiet_set_callback [quiet_ops]: "set_callback i k w = Some w' \<Longrightarrow> quiet w w'"
  by (auto simp: set_callback_def dest: quiet_ops)

lemma quiet_forward_query [quiet_ops]: "forward_query k w = Some w' \<Longrightarrow> quiet w w'"
  by (auto simp: forward_query_def Let_def dest!: quiet_ops intro: quiet_trans)

lemma quiet_check [quiet_ops]:
  assumes "check_query_recv_complete i w = Some w'"
  shows "quiet w w'"
proof -
  obtain c where "cmds w i = Some c"
    using assms by (auto simp: check_query_recv_complete_def bind_eq_Some_conv)
  with assms show ?thesis
    by (cases "cmd_data c") (auto simp: check_query_recv_complete_def Let_def dest: quiet_ops)
qed

lemma quiet_base_StartWriteQuery [quiet_ops]: "base_StartWriteQuery i w = Some w' \<Longrightarrow> quiet w w'"
  by (auto simp: base_StartWriteQuery_def bind_eq_Some_conv dest!: quiet_ops intro: quiet_trans)

lemma quiet_get_start [quiet_ops]: "get_start_subquery i s w = Some w' \<Longrightarrow> quiet w w'"
  by (cases "get_segments s")
    (auto simp: get_start_subquery_def bind_eq_Some_conv dest!: quiet_ops intro: quiet_trans)

lemma quiet_get_StartWriteQuery [quiet_ops]:
  "foldM (get_start_subquery i \<circ> snd) subs w = Some w' \<Longrightarrow> quiet w w'"
  by (erule quiet_foldM) (auto dest: quiet_ops)

lemma quiet_mget_start [quiet_ops]: "mget_start_subquery i s w = Some w' \<Longrightarrow> quiet w w'"
  by (auto simp: mget_start_subquery_def bind_eq_Some_conv dest!: quiet_ops intro: quiet_trans)

lemma quiet_mget_starts [quiet_ops]:
  "foldM (mget_start_subquery i \<circ> snd) subs w = Some w' \<Longrightarrow> quiet w w'"
  by (erule quiet_foldM) (auto dest: quiet_ops)

lemma quiet_mset_activate [quiet_ops]: "mset_activate i s (d, w) = Some (d', w') \<Longrightarrow> quiet w w'"
  by (auto simp: mset_activate_def bind_eq_Some_conv Let_def dest!: quiet_ops intro: quiet_trans)

lemma quiet_mset_Activate [quiet_ops]:
  "mset_ActivateWaitingSubquery i (d, w) = Some (d', w') \<Longrightarrow> quiet w w'"
  by (auto simp: mset_ActivateWaitingSubquery_def bind_eq_Some_conv dest!: quiet_foldM_snd dest: quiet_ops)

lemma quiet_mset_StartWriteQuery [quiet_ops]: "mset_StartWriteQuery i d w = Some w' \<Longrightarrow> quiet w w'"
  by (auto simp: mset_StartWriteQuery_def bind_eq_Some_conv dest!: quiet_ops intro: quiet_trans)

lemma quiet_del_activate [quiet_ops]: "del_activate i s (d, w) = Some (d', w') \<Longrightarrow> quiet w w'"
  by (auto simp: del_activate_def bind_eq_Some_conv Let_def dest!: quiet_ops intro: quiet_trans)

lemma quiet_del_Activate [quiet_ops]:
  "del_ActivateWaitingSubquery i (d, w) = Some (d', w') \<Longrightarrow> quiet w w'"
  by (auto simp: del_ActivateWaitingSubquery_def bind_eq_Some_conv dest!: quiet_foldM_snd dest: quiet_ops)

section \<open>Creating commands\<close>

lemma quiet_RedisBasicCommand [quiet_ops]: "RedisBasicCommand m ba w = Some (c, w') \<Longrightarrow> quiet w w'"
  by (auto simp: RedisBasicCommand_def bind_eq_Some_conv dest: quiet_ops)

lemma quiet_RedisSetCommand [quiet_ops]: "RedisSetCommand m ba w = Some (c, w') \<Longrightarrow> quiet w w'"
  by (auto simp: RedisSetCommand_def bind_eq_Some_conv dest: quiet_ops)

lemma quiet_MemcBasicCommand [quiet_ops]: "MemcBasicCommand m off w = Some (c, w') \<Longrightarrow> quiet w w'"
  by (auto simp: MemcBasicCommand_def bind_eq_Some_conv Let_def dest: quiet_ops)

lemma quiet_MemcSetCommand [quiet_ops]: "MemcSetCommand m off len w = Some (n, c, w') \<Longrightarrow> quiet w w'"
  by (auto simp: MemcSetCommand_def memc_set_ParseQuery_def bind_eq_Some_conv Let_def split: if_split_asm dest: quiet_ops)

lemma quiet_get_push_key [quiet_ops]: "get_push_key m p q subs w = Some (subs', w') \<Longrightarrow> quiet w w'"
  by (auto simp: get_push_key_def bind_eq_Some_conv split: option.split_asm dest!: quiet_ops)

lemma quiet_get_keys [quiet_ops]: "get_keys m p lim subs w = Some (subs', w') \<Longrightarrow> quiet w w'"
proof (induction m p lim subs w rule: get_keys.induct)
  case (1 m p lim subs w)
  show ?case
  proof (cases "p < lim")
    case True
    then obtain q subs1 w1 where "find_char (\<lambda>c. c = CHR '' '' \<or> c = CR) (drop p m) p = Some q"
        "get_push_key m p q subs w = Some (subs1, w1)" "get_keys m (q + 1) lim subs1 w1 = Some (subs', w')"
      using 1(2) by (subst (asm) get_keys.simps) (auto simp: bind_eq_Some_conv)
    then show ?thesis using 1(1) [OF True] by (blast intro: quiet_get_push_key quiet_trans)
  next
    case False
    then show ?thesis using 1(2) by (simp add: get_keys.simps)
  qed
qed

lemma quiet_MemcGetCommand [quiet_ops]: "MemcGetCommand m off len w = Some (c, w') \<Longrightarrow> quiet w w'"
  by (auto simp: MemcGetCommand_def bind_eq_Some_conv Let_def dest: quiet_ops)

lemma quiet_mget_push_key: "mget_push_key m ba i (s, w) = Some (s', w') \<Longrightarrow> quiet w w'"
  by (cases s) (auto simp: mget_push_key_def mget_add_key_def bind_eq_Some_conv Let_def split: option.split_asm dest!: quiet_ops)

lemma quiet_RedisMgetCommand [quiet_ops]:
  assumes "RedisMgetCommand m ba w = Some (c, w')"
  shows "quiet w w'"
proof -
  obtain tot :: size_t and s where f: "foldM (mget_push_key m ba) [Suc 0..<unat tot] (([], [], Endpoint0), w) = Some (s, w')"
    using assms by (auto simp: RedisMgetCommand_def bind_eq_Some_conv)
  let ?R = "\<lambda>(x :: mget_keys \<times> World) (y :: mget_keys \<times> World). quiet (snd x) (snd y)"
  have "?R (([], [], Endpoint0), w) (s, w')"
    by (rule foldM_rel [where R = ?R, OF f]) (auto intro: quiet_mget_push_key quiet_trans)
  then show ?thesis by simp
qed

lemma quiet_mset_PushSubquery [quiet_ops]:
  "mset_PushSubquery ep p n (d, w) = Some (d', w') \<Longrightarrow> quiet w w'"
  by (auto simp: mset_PushSubquery_def bind_eq_Some_conv Let_def split: option.split_asm dest!: quiet_ops)

lemma quiet_mset_push_pairs [quiet_ops]:
  "mset_push_pairs m bs (d, w) = Some (d', w') \<Longrightarrow> quiet w w'"
proof (induction m bs "(d, w)" arbitrary: d w rule: mset_push_pairs.induct)
  case (1 m k v rest d w)
  then show ?case
    by (auto simp: bind_eq_Some_conv) (metis quiet_mset_PushSubquery quiet_trans surj_pair)
qed auto

lemma quiet_RedisMsetCommand [quiet_ops]: "RedisMsetCommand m ba w = Some (c, w') \<Longrightarrow> quiet w w'"
  by (auto simp: RedisMsetCommand_def bind_eq_Some_conv Let_def dest: quiet_ops)

lemma quiet_del_PushSubquery [quiet_ops]:
  "del_PushSubquery ep p n (d, w) = Some (d', w') \<Longrightarrow> quiet w w'"
  by (auto simp: del_PushSubquery_def bind_eq_Some_conv Let_def split: option.split_asm dest!: quiet_ops)

lemma quiet_del_push_key [quiet_ops]: "del_push_key m b (d, w) = Some (d', w') \<Longrightarrow> quiet w w'"
  by (auto simp: del_push_key_def bind_eq_Some_conv dest: quiet_ops)

lemma quiet_del_push_keys [quiet_ops]:
  "del_push_keys m bs (d, w) = Some (d', w') \<Longrightarrow> quiet w w'"
proof (induction m bs "(d, w)" arbitrary: d w rule: del_push_keys.induct)
  case (3 m b b' bs d w)
  then show ?case
    by (auto simp: bind_eq_Some_conv) (metis quiet_del_push_key quiet_trans surj_pair)
qed (auto simp: bind_eq_Some_conv split: if_split_asm dest: quiet_ops)

lemma quiet_RedisDelCommand [quiet_ops]: "RedisDelCommand m ba w = Some (c, w') \<Longrightarrow> quiet w w'"
  by (auto simp: RedisDelCommand_def bind_eq_Some_conv Let_def dest: quiet_ops)


section \<open>Operations that write or end commands\<close>

lemmas quiet_frame [frame] = quiet_ops [THEN quiet_same_client]

lemma frame_foldM:
  assumes "foldM f xs w = Some w'" and "\<And>x w w'. f x w = Some w' \<Longrightarrow> same_client w w'"
  shows "same_client w w'"
  using assms(1) by (rule foldM_rel) (auto intro: assms(2) same_client_trans)

lemma frame_destroy [frame]: "destroy i w = Some w' \<Longrightarrow> same_client w w'"
  by (auto simp: destroy_def bind_eq_Some_conv split: if_split_asm dest!: quiet_same_client [OF quiet_release_all])

lemma frame_drop_ref [frame]: "drop_ref i w = Some w' \<Longrightarrow> same_client w w'"
  by (auto simp: drop_ref_def split: if_split_asm dest: frame)

lemma frame_WriteReply [frame]: "WriteReply p n i k w = Some w' \<Longrightarrow> same_client w w'"
  by (auto simp: WriteReply_def split: if_split_asm)

lemma frame_TryWriteReply [frame]: "TryWriteReply i k w = Some w' \<Longrightarrow> same_client w w'"
  by (auto simp: TryWriteReply_def bind_eq_Some_conv Let_def split: if_split_asm
      dest!: quiet_cmd_upd [THEN quiet_same_client] quiet_conn_buf [THEN quiet_same_client] frame_WriteReply
      intro: same_client_trans)

lemma frame_message_StartWriteReply [frame]: "message_StartWriteReply i msg w = Some w' \<Longrightarrow> same_client w w'"
  by (auto simp: message_StartWriteReply_def dest: frame)

lemma frame_message_StartWriteQuery [frame]: "message_StartWriteQuery i msg w = Some w' \<Longrightarrow> same_client w w'"
  by (auto simp: message_StartWriteQuery_def bind_eq_Some_conv split: if_split_asm dest: frame)

lemma frame_mget_StartWriteQuery [frame]:
  assumes "mget_StartWriteQuery i g w = Some w'"
  shows "same_client w w'"
proof -
  obtain w1 w2 where w: "foldM (mget_start_subquery i \<circ> snd) (mget_subqueries g) w = Some w1"
      "set_data i w2 w1 = Some w' \<or> (\<exists>w3. set_data i w2 w1 = Some w3 \<and> message_StartWriteQuery i (reply_prefix g) w3 = Some w')"
    using assms by (auto simp: mget_StartWriteQuery_def bind_eq_Some_conv)
  have "same_client w w1" by (rule frame_foldM [OF w(1)]) (auto dest: frame)
  with w(2) show ?thesis
    by (auto dest!: quiet_same_client [OF quiet_set_data] frame_message_StartWriteQuery intro: same_client_trans)
qed

lemma frame_StartWriteQuery [frame]:
  assumes "StartWriteQuery i w = Some (b, w')"
  shows "same_client w w'"
proof -
  obtain c where "cmds w i = Some c"
    using assms by (auto simp: StartWriteQuery_def bind_eq_Some_conv)
  with assms show ?thesis
    by (cases "cmd_data c")
      (auto simp: StartWriteQuery_def bind_eq_Some_conv
        dest!: quiet_same_client [OF quiet_base_StartWriteQuery] quiet_same_client [OF quiet_mset_StartWriteQuery]
          quiet_same_client [OF quiet_del_Activate] quiet_same_client [OF quiet_set_data]
          quiet_same_client [OF quiet_get_StartWriteQuery] frame_message_StartWriteQuery frame_mget_StartWriteQuery
        intro: same_client_trans)
qed

section \<open>The result of CreateCommand\<close>

text \<open>Either nothing happened on the client's side, or exactly one command was added.\<close>

definition created_from :: "World \<Rightarrow> cmd_id option \<Rightarrow> World \<Rightarrow> bool" where
  "created_from w r w' \<longleftrightarrow>
     (case r of
        None \<Rightarrow> quiet w w'
      | Some i \<Rightarrow> i = next_cmd w \<and>
          (\<exists>w1 c. quiet w w1 \<and> w' = w1\<lparr>cmds := (cmds w1)(i \<mapsto> c), next_cmd := Suc i\<rparr>))"

lemma created_made:
  assumes "made n (c, w1) = (k, r, w')" and "quiet w w1"
  shows "created_from w r w'"
proof -
  from assms(2) have "next_cmd w1 = next_cmd w" by (simp add: quiet_def)
  with assms show ?thesis
    by (auto simp: made_def new_command_def Let_def created_from_def intro!: exI [of _ w1])
qed

lemma created_need_more: "need_more w = Some (n, r, w') \<Longrightarrow> created_from w r w'"
  by (auto simp: need_more_def created_from_def)

lemma created_same_client: "created_from w r w' \<Longrightarrow> same_client w w'"
  by (auto simp: created_from_def dest: quiet_same_client split: option.split_asm)

lemma quiet_MemcSet_release:
  "MemcSetCommand m off len w = Some (n, c, w1) \<Longrightarrow> foldM pool_release ks w1 = Some w2 \<Longrightarrow> quiet w w2"
  by (blast intro: quiet_MemcSetCommand quiet_release_all quiet_trans)

lemmas quiet_ctors = quiet_RedisBasicCommand quiet_RedisSetCommand quiet_MemcBasicCommand
  quiet_MemcGetCommand quiet_RedisMgetCommand quiet_RedisMsetCommand quiet_RedisDelCommand

lemma created_create_redis:
  assumes "create_redis m off sz w = Some (n, r, w')"
  shows "created_from w r w'"
proof (cases "\<exists>ba tot. BulkArray m off sz = Some ba \<and> total_bulks m ba = Some tot \<and> tot \<noteq> 0 \<and> present_bulks ba \<noteq> 0")
  case False
  with assms show ?thesis
    by (auto simp: create_redis_def bind_eq_Some_conv split: if_split_asm dest!: quiet_ctors intro: created_need_more created_made)
next
  case True
  then obtain ba tot where ba: "BulkArray m off sz = Some ba" "total_bulks m ba = Some tot" "tot \<noteq> 0"
      "present_bulks ba \<noteq> 0" by blast
  with assms obtain name absent where n: "array_at ba 0 = Some name" "absent_size m name = Some absent"
    by (auto simp: create_redis_def bind_eq_Some_conv)
  show ?thesis
  proof (cases "absent > 0")
    case True
    with assms ba n show ?thesis by (auto simp: create_redis_def dest!: quiet_ctors intro: created_need_more created_made)
  next
    case False
    with assms ba n obtain t where "GetRedisCommandType m name = Some t"
      by (auto simp: create_redis_def bind_eq_Some_conv)
    with assms ba n False show ?thesis
      by (cases t) (auto simp: create_redis_def bind_eq_Some_conv odd_iff_mod_2_eq_one [symmetric] split: if_split_asm
          dest!: quiet_ctors intro: created_need_more created_made)
  qed
qed

lemma created_create_memc:
  assumes "create_memc m off sz line w = Some (n, r, w')"
  shows "created_from w r w'"
proof -
  obtain t where "GetMemcCommandType m off line = Some t"
    using assms by (auto simp: create_memc_def bind_eq_Some_conv)
  with assms show ?thesis
    by (cases t) (auto simp: create_memc_def bind_eq_Some_conv split: if_split_asm
        dest!: quiet_ctors intro: quiet_MemcSet_release quiet_MemcSetCommand created_need_more created_made)
qed

lemma created_CreateCommand: "CreateCommand off n w = Some (k, r, w') \<Longrightarrow> created_from w r w'"
  by (auto simp: CreateCommand_def Let_def bind_eq_Some_conv split: option.split_asm if_split_asm
      intro: created_create_redis created_create_memc created_need_more created_made)

lemma frame_CreateCommand [frame]: "CreateCommand off n w = Some (k, r, w') \<Longrightarrow> same_client w w'"
  by (blast dest: created_CreateCommand created_same_client)

end
