(* ===== verification/Client_Queue.thy ===== *)
theory Client_Queue
  imports Command_Frame
begin

text \<open>
  The queue of the commands of a client: \<^verbatim>\<open>ProcessUnparsedQuery\<close> makes commands of the received bytes
  and appends them, \<^verbatim>\<open>RotateReplyingCommand\<close> removes the first command when its reply is written and
  starts the reply of the next one.  A GET of memcached whose backends have nothing more to send is
  finished inside of its \<^verbatim>\<open>StartWriteReply\<close> and rotates the queue again.
\<close>

section \<open>New commands\<close>

definition kPipelineActiveLimit :: nat where
  "kPipelineActiveLimit = 16"

text \<open>\<open>process_one\<close> is the body of the loop; the flag says that it goes on.\<close>

definition process_one :: "World \<Rightarrow> (bool \<times> World) option" where
  "process_one w = do {
     (n, cmd, w) \<leftarrow> CreateCommand (unprocessed_data (client_buffer w)) (received_bytes (client_buffer w)) w;
     if n = 0 then do {
       let w = TryReadMoreQuery w;
       w \<leftarrow> (case cmd of None \<Rightarrow> Some w | Some i \<Rightarrow> drop_ref i w);
       Some (False, w)
     }
     else do {
       w \<leftarrow> client_buf (\<lambda>b. Some (update_parsed_bytes n b)) w;
       i \<leftarrow> cmd;
       (no_callback, w) \<leftarrow> StartWriteQuery i (w\<lparr>active_cmd_queue := active_cmd_queue w @ [i]\<rparr>);
       w \<leftarrow> client_buf (\<lambda>b. update_processed_bytes (unprocessed_bytes b) b) w;
       parsed \<leftarrow> query_parsing_complete i w;
       if parsed_unreceived_bytes (client_buffer w) > 0 \<or> \<not> parsed
       then Some (False, if no_callback then TryReadMoreQuery w else w)
       else Some (True, w)
     }
   }"

lemma process_one_queue:
  assumes "process_one w = Some (go, w')"
  shows "(\<not> go \<and> same_client w w') \<or>
    (\<exists>i w1 w2. same_client w w1 \<and> w2 = w1\<lparr>active_cmd_queue := active_cmd_queue w @ [i]\<rparr> \<and> same_client w2 w')"
proof -
  obtain n cmd w1 where c:
      "CreateCommand (unprocessed_data (client_buffer w)) (received_bytes (client_buffer w)) w = Some (n, cmd, w1)"
    using assms by (auto simp: process_one_def bind_eq_Some_conv)
  then have s: "same_client w w1" by (rule frame)
  show ?thesis
  proof (cases "n = 0")
    case True
    with assms c s show ?thesis
      by (cases cmd) (auto simp: process_one_def bind_eq_Some_conv Let_def
          dest!: frame intro: same_client_trans dest: same_client_trans)
  next
    case False
    with assms c obtain wp i nc w2 w3 where w:
        "client_buf (\<lambda>b. Some (update_parsed_bytes n b)) w1 = Some wp"
        "StartWriteQuery i (wp\<lparr>active_cmd_queue := active_cmd_queue wp @ [i]\<rparr>) = Some (nc, w2)"
        "client_buf (\<lambda>b. update_processed_bytes (unprocessed_bytes b) b) w2 = Some w3"
        "w' = w3 \<or> w' = TryReadMoreQuery w3"
      by (auto simp: process_one_def bind_eq_Some_conv split: if_split_asm)
    have "same_client w wp" using s w(1) by (blast intro: frame same_client_trans)
    moreover from this have "active_cmd_queue wp = active_cmd_queue w" by (simp add: same_client_def)
    moreover have "same_client (wp\<lparr>active_cmd_queue := active_cmd_queue wp @ [i]\<rparr>) w3"
      using w(2,3) by (blast intro: frame same_client_trans)
    with w(4) have "same_client (wp\<lparr>active_cmd_queue := active_cmd_queue wp @ [i]\<rparr>) w'" by auto
    ultimately show ?thesis by auto
  qed
qed

lemma process_one_longer:
  "process_one w = Some (True, w') \<Longrightarrow> length (active_cmd_queue w') = Suc (length (active_cmd_queue w))"
  by (drule process_one_queue) (auto simp: same_client_def)

function ProcessUnparsedQuery :: "World \<Rightarrow> World option" where
  "ProcessUnparsedQuery w =
     (if length (active_cmd_queue w) < kPipelineActiveLimit \<and> unparsed_received_bytes (client_buffer w) > 0 then do {
        (go, w) \<leftarrow> process_one w;
        if go then ProcessUnparsedQuery w else Some w
      }
      else Some w)"
  by pat_completeness auto

termination
  by (relation "measure (\<lambda>w. kPipelineActiveLimit - length (active_cmd_queue w))")
    (auto dest!: process_one_longer)

declare ProcessUnparsedQuery.simps [simp del]

section \<open>The next reply\<close>

definition get_waiting_of :: "cmd_id \<Rightarrow> World \<Rightarrow> conn_id list" where
  "get_waiting_of i w =
     (case cmds w i of
        Some c \<Rightarrow> (case cmd_data c of MemcGet g \<Rightarrow> get_waiting g | _ \<Rightarrow> [])
      | None \<Rightarrow> [])"

text \<open>\<^verbatim>\<open>StartWriteReply\<close> of the commands that have one replying backend.\<close>

definition base_StartWriteReply :: "cmd_id \<Rightarrow> World \<Rightarrow> World option" where
  "base_StartWriteReply i w = do {
     c \<leftarrow> cmds w i;
     done \<leftarrow> query_recv_complete i w;
     if done then (case replying_backend c of None \<Rightarrow> Some w | Some k \<Rightarrow> TryWriteReply i k w)
     else Some w
   }"

text \<open>\<^verbatim>\<open>RotateReplyingCommand\<close> up to \<^verbatim>\<open>pop_front\<close>, which is undefined on an empty queue.\<close>

definition pop_command :: "World \<Rightarrow> World option" where
  "pop_command w =
     (case active_cmd_queue w of
        [] \<Rightarrow> None
      | i # q \<Rightarrow>
          let w = (if q = [] then TryReadMoreQuery w else w)
          in drop_ref i (w\<lparr>active_cmd_queue := q\<rparr>))"

text \<open>\<^verbatim>\<open>RotateReplyingCommand\<close> after \<^verbatim>\<open>StartWriteReply\<close>; \<^verbatim>\<open>back()\<close> of an empty queue is undefined.\<close>

definition resume_reading :: "World \<Rightarrow> World option" where
  "resume_reading w =
     (if active_cmd_queue w = [] then None
      else do {
        done \<leftarrow> query_recv_complete (last (active_cmd_queue w)) w;
        if \<not> done then Some (read_if_unlocked w) else ProcessUnparsedQuery w
      })"

lemma pop_command_queue:
  assumes "pop_command w = Some w'"
  shows "active_cmd_queue w \<noteq> [] \<and> active_cmd_queue w' = tl (active_cmd_queue w)
    \<and> client_aborted w' = client_aborted w \<and> held w' = held w"
proof (cases "active_cmd_queue w")
  case (Cons i q)
  have f: "active_cmd_queue (TryReadMoreQuery w) = active_cmd_queue w \<and> held (TryReadMoreQuery w) = held w
      \<and> client_aborted (TryReadMoreQuery w) = client_aborted w"
    using same_client_TryReadMoreQuery [of w w] by (simp add: same_client_def)
  with Cons assms show ?thesis
    by (auto simp: pop_command_def Let_def same_client_def split: if_split_asm dest!: frame)
qed (use assms in \<open>simp add: pop_command_def\<close>)

lemma set_data_Some: "set_data i d w = Some w' \<Longrightarrow> \<exists>c. cmds w i = Some c \<and> w' = w\<lparr>cmds := (cmds w)(i \<mapsto> c\<lparr>cmd_data := d\<rparr>)\<rparr>"
  by (auto simp: set_data_def cmd_upd_def)

text \<open>
  The calls between the client and its first command.  \<^verbatim>\<open>NextBackendStartReply\<close> and
  \<^verbatim>\<open>RotateReplyingBackend\<close> are those of \<^verbatim>\<open>MemcGetCommand\<close>.
\<close>

function RotateReplyingCommand :: "World \<Rightarrow> World option"
  and StartWriteReply :: "cmd_id \<Rightarrow> World \<Rightarrow> World option"
  and get_NextBackendStartReply :: "cmd_id \<Rightarrow> World \<Rightarrow> World option"
  and get_RotateReplyingBackend :: "cmd_id \<Rightarrow> World \<Rightarrow> World option" where
  "RotateReplyingCommand w = do {
     w \<leftarrow> pop_command w;
     case active_cmd_queue w of
       [] \<Rightarrow> Some w
     | j # _ \<Rightarrow> do { w \<leftarrow> StartWriteReply j w; resume_reading w }
   }"
| "StartWriteReply i w = do {
     c \<leftarrow> cmds w i;
     case cmd_data c of
       Error_Command msg \<Rightarrow> message_StartWriteReply i msg w
     | Stats_Command msg \<Rightarrow> message_StartWriteReply i msg w
     | RedisMget g \<Rightarrow> message_StartWriteReply i (reply_prefix g) w
     | MemcGet _ \<Rightarrow> get_NextBackendStartReply i w
     | _ \<Rightarrow> base_StartWriteReply i w
   }"
| "get_NextBackendStartReply i w = do {
     c \<leftarrow> cmds w i;
     case cmd_data c of
       MemcGet g \<Rightarrow>
         (case get_waiting g of
            [] \<Rightarrow> set_replying i None w
          | k # ks \<Rightarrow> do {
              w \<leftarrow> set_data i (MemcGet (g\<lparr>get_waiting := ks\<rparr>)) w;
              b \<leftarrow> conns (pool w) k;
              if finished b then get_RotateReplyingBackend i w
              else do { w \<leftarrow> TryWriteReply i k w; set_replying i (Some k) w }
            })
     | _ \<Rightarrow> None
   }"
| "get_RotateReplyingBackend i w = do {
     c \<leftarrow> cmds w i;
     case cmd_data c of
       MemcGet g \<Rightarrow> do {
         let n = completed_backends g + 1;
         w \<leftarrow> set_data i (MemcGet (g\<lparr>completed_backends := n\<rparr>)) w;
         if n < of_nat (length (get_subqueries g)) then get_NextBackendStartReply i w
         else RotateReplyingCommand w
       }
     | _ \<Rightarrow> None
   }"
  by pat_completeness auto

termination
proof (relation "inv_image (less_than <*lex*> less_than <*lex*> less_than)
    (\<lambda>x. case x of
       Inl (Inl w) \<Rightarrow> (length (active_cmd_queue w), 0, 0)
     | Inl (Inr (i, w)) \<Rightarrow> (length (active_cmd_queue w), length (get_waiting_of i w), 3)
     | Inr (Inl (i, w)) \<Rightarrow> (length (active_cmd_queue w), length (get_waiting_of i w), 1)
     | Inr (Inr (i, w)) \<Rightarrow> (length (active_cmd_queue w), length (get_waiting_of i w), 2 :: nat))",
    goal_cases)
  case (2 w w1 j q)
  then show ?case using pop_command_queue [of w w1] by (cases "active_cmd_queue w") auto
qed (auto dest!: set_data_Some simp: get_waiting_of_def split: option.splits CommandData.splits)

declare RotateReplyingCommand.simps [simp del] StartWriteReply.simps [simp del]
  get_NextBackendStartReply.simps [simp del] get_RotateReplyingBackend.simps [simp del]

end
