(* ===== verification/Command_Reply.thy ===== *)
theory Command_Reply
  imports Client_Queue
begin

text \<open>
  The callbacks of the commands: a query or a part of it has been written to a backend
  (\<^verbatim>\<open>OnWriteQueryFinished\<close>), a reply has arrived (\<^verbatim>\<open>OnBackendReplyReceived\<close>), a part of a reply has been
  written to the client (\<^verbatim>\<open>OnWriteReplyFinished\<close>), and what they do on errors.  \<open>i\<close> is the command, \<open>k\<close>
  the connection.
\<close>

section \<open>Operations on the connection\<close>

definition set_reply_data :: "conn_id \<Rightarrow> bytes \<Rightarrow> bool \<Rightarrow> World \<Rightarrow> World option" where
  "set_reply_data k bs parsed = conn_upd k (SetReplyData bs parsed)"

definition mark_failed :: "conn_id \<Rightarrow> World \<Rightarrow> World option" where
  "mark_failed k = conn_upd k (\<lambda>b. Some (set_no_recycle (set_reply_recv_complete b)))"

definition dec_client_lock :: "World \<Rightarrow> World option" where
  "dec_client_lock = client_buf dec_recycle_lock"

definition parse_with :: "conn_id \<Rightarrow> (BackendConn \<Rightarrow> (bool \<times> BackendConn) option) \<Rightarrow> World \<Rightarrow> (bool \<times> World) option" where
  "parse_with k f w = do {
     b \<leftarrow> conns (pool w) k;
     (ok, b) \<leftarrow> f b;
     Some (ok, w\<lparr>pool := put_conn k b (pool w)\<rparr>)
   }"

section \<open>The base class\<close>

definition BackendErrorRecoverable :: "cmd_id \<Rightarrow> conn_id \<Rightarrow> World \<Rightarrow> bool option" where
  "BackendErrorRecoverable i k w = do {
     c \<leftarrow> cmds w i;
     b \<leftarrow> conns (pool w) k;
     Some (case cmd_data c of
       MemcGet _ \<Rightarrow> \<not> has_read_some_reply b
     | RedisMget _ \<Rightarrow> \<not> has_read_some_reply b
     | _ \<Rightarrow> \<not> has_written_some_reply c)
   }"

definition base_OnBackendRecoverableError :: "cmd_id \<Rightarrow> conn_id \<Rightarrow> ErrorCode \<Rightarrow> World \<Rightarrow> World option" where
  "base_OnBackendRecoverableError i k ec w = do {
     c \<leftarrow> cmds w i;
     ok \<leftarrow> BackendErrorRecoverable i k w;
     if \<not> ok then None
     else do {
       w \<leftarrow> set_reply_data k (ErrorReply (cmd_protocol c) ec) True w;
       w \<leftarrow> mark_failed k w;
       done \<leftarrow> query_recv_complete i w;
       if done then do {
         first \<leftarrow> IsFirstCommand i w;
         if first then TryWriteReply i k w else Some w
       }
       else Some (read_if_unlocked w)
     }
   }"

definition base_OnWriteQueryFinished :: "cmd_id \<Rightarrow> conn_id \<Rightarrow> ErrorCode \<Rightarrow> World \<Rightarrow> World option" where
  "base_OnWriteQueryFinished i k ec w =
     (if ec \<noteq> E_SUCCESS then do {
        ok \<leftarrow> BackendErrorRecoverable i k w;
        if \<not> ok then client_Abort w
        else do {
          w \<leftarrow> dec_client_lock w;
          base_OnBackendRecoverableError i k ec w
        }
      }
      else do {
        w \<leftarrow> dec_client_lock w;
        done \<leftarrow> query_recv_complete i w;
        if done then conn_call k ReadReply w else Some (read_if_unlocked w)
      })"

definition base_OnBackendReplyReceived :: "cmd_id \<Rightarrow> conn_id \<Rightarrow> ErrorCode \<Rightarrow> World \<Rightarrow> World option" where
  "base_OnBackendReplyReceived i k ec w = do {
     c \<leftarrow> cmds w i;
     (ok, w) \<leftarrow> (if ec = E_SUCCESS then parse_with k (ParseReply (cmd_protocol c)) w else Some (True, w));
     let ec = (if ok then ec else E_PROTOCOL);
     if ec \<noteq> E_SUCCESS then do {
       rec \<leftarrow> BackendErrorRecoverable i k w;
       if \<not> rec then client_Abort w else base_OnBackendRecoverableError i k ec w
     }
     else do {
       first \<leftarrow> IsFirstCommand i w;
       w \<leftarrow> (if first then TryWriteReply i k w else Some w);
       conn_call k TryReadMoreReply w
     }
   }"

text \<open>\<^verbatim>\<open>RotateReplyingBackend\<close> of a command with one backend.\<close>

definition base_RotateReplyingBackend :: "cmd_id \<Rightarrow> World \<Rightarrow> World option" where
  "base_RotateReplyingBackend i w = do {
     done \<leftarrow> query_recv_complete i w;
     if done then RotateReplyingCommand w else None
   }"

definition RotateReplyingBackend :: "cmd_id \<Rightarrow> World \<Rightarrow> World option" where
  "RotateReplyingBackend i w = do {
     c \<leftarrow> cmds w i;
     case cmd_data c of
       MemcGet _ \<Rightarrow> get_RotateReplyingBackend i w
     | _ \<Rightarrow> base_RotateReplyingBackend i w
   }"

text \<open>The common part of \<^verbatim>\<open>OnWriteReplyFinished\<close>: the write is over, the buffer of the backend unlocked.\<close>

definition reply_written :: "cmd_id \<Rightarrow> conn_id \<Rightarrow> World \<Rightarrow> World option" where
  "reply_written i k w = do {
     c \<leftarrow> cmds w i;
     if \<not> cmd_writing_reply c then None
     else do {
       w \<leftarrow> cmd_upd i (\<lambda>c. c\<lparr>cmd_writing_reply := False\<rparr>) w;
       conn_buf k dec_recycle_lock w
     }
   }"

definition base_OnWriteReplyFinished :: "cmd_id \<Rightarrow> conn_id \<Rightarrow> ErrorCode \<Rightarrow> World \<Rightarrow> World option" where
  "base_OnWriteReplyFinished i k ec w =
     (if ec \<noteq> E_SUCCESS then client_Abort w
      else do {
        w \<leftarrow> reply_written i k w;
        b \<leftarrow> conns (pool w) k;
        if finished b then do {
          done \<leftarrow> query_recv_complete i w;
          if recycle_locked (buffer b) \<or> \<not> done then None
          else RotateReplyingBackend i w
        }
        else do {
          w \<leftarrow> conn_call k TryReadMoreReply w;
          TryWriteReply i k w
        }
      })"

section \<open>GET of memcached\<close>

definition the_get :: "cmd_id \<Rightarrow> World \<Rightarrow> MemcGetCommand option" where
  "the_get i w = do {
     c \<leftarrow> cmds w i;
     case cmd_data c of MemcGet g \<Rightarrow> Some g | _ \<Rightarrow> None
   }"

definition TryMarkLastBackend :: "cmd_id \<Rightarrow> conn_id \<Rightarrow> World \<Rightarrow> World option" where
  "TryMarkLastBackend i k w = do {
     g \<leftarrow> the_get i w;
     if k \<in> set (received_reply_backends g) then Some w
     else do {
       let rs = received_reply_backends g @ [k];
       set_data i (MemcGet (g\<lparr>received_reply_backends := rs,
         last_backend := (if length rs = length (get_subqueries g) then Some k else last_backend g)\<rparr>)) w
     }
   }"

definition TryActivateReplyingBackend :: "cmd_id \<Rightarrow> conn_id \<Rightarrow> World \<Rightarrow> (bool \<times> World) option" where
  "TryActivateReplyingBackend i k w = do {
     c \<leftarrow> cmds w i;
     case replying_backend c of
       None \<Rightarrow> do { w \<leftarrow> set_replying i (Some k) w; Some (True, w) }
     | Some k' \<Rightarrow> Some (k = k', w)
   }"

definition get_BackendReadyToReply :: "cmd_id \<Rightarrow> conn_id \<Rightarrow> World \<Rightarrow> World option" where
  "get_BackendReadyToReply i k w = do {
     first \<leftarrow> IsFirstCommand i w;
     (replying, w) \<leftarrow> (if first then TryActivateReplyingBackend i k w else Some (False, w));
     if replying then do {
       b \<leftarrow> conns (pool w) k;
       if finished b then get_RotateReplyingBackend i w else TryWriteReply i k w
     }
     else do {
       g \<leftarrow> the_get i w;
       if k \<in> set (get_waiting g) then Some w
       else set_data i (MemcGet (g\<lparr>get_waiting := get_waiting g @ [k]\<rparr>)) w
     }
   }"

definition get_OnBackendRecoverableError :: "cmd_id \<Rightarrow> conn_id \<Rightarrow> ErrorCode \<Rightarrow> World \<Rightarrow> World option" where
  "get_OnBackendRecoverableError i k ec w = do {
     w \<leftarrow> TryMarkLastBackend i k w;
     g \<leftarrow> the_get i w;
     w \<leftarrow> (if last_backend g = Some k then
            set_reply_data k (if length (get_subqueries g) > 1 then ''END'' @ CRLF else MemcErrorReply ec) True w
          else Some w);
     w \<leftarrow> mark_failed k w;
     get_BackendReadyToReply i k w
   }"

definition get_OnWriteQueryFinished :: "cmd_id \<Rightarrow> conn_id \<Rightarrow> ErrorCode \<Rightarrow> World \<Rightarrow> World option" where
  "get_OnWriteQueryFinished i k ec w =
     (if ec \<noteq> E_SUCCESS then
        if ec = E_CONNECT then do {
          w \<leftarrow> get_OnBackendRecoverableError i k ec w;
          dec_client_lock w
        }
        else client_Abort w
      else do {
        g \<leftarrow> the_get i w;
        b \<leftarrow> conns (pool w) k;
        s \<leftarrow> map_of (get_subqueries g) (remote_endpoint b);
        if get_segments s = [] then None
        else do {
          let segs = tl (get_segments s);
          w \<leftarrow> set_data i (MemcGet (g\<lparr>get_subqueries :=
                 adjust (remote_endpoint b) (\<lambda>s. s\<lparr>get_segments := segs\<rparr>) (get_subqueries g)\<rparr>)) w;
          case segs of
            seg # _ \<Rightarrow> write_query (get_backend s) seg w
          | [] \<Rightarrow> do { w \<leftarrow> dec_client_lock w; conn_call k ReadReply w }
        }
      })"

definition get_OnBackendReplyReceived :: "cmd_id \<Rightarrow> conn_id \<Rightarrow> ErrorCode \<Rightarrow> World \<Rightarrow> World option" where
  "get_OnBackendReplyReceived i k ec w = do {
     w \<leftarrow> TryMarkLastBackend i k w;
     g \<leftarrow> the_get i w;
     (ok, w) \<leftarrow> (if ec = E_SUCCESS then parse_with k (MemcGetParseReply (last_backend g = Some k)) w else Some (True, w));
     let ec = (if ok then ec else E_PROTOCOL);
     if ec \<noteq> E_SUCCESS then do {
       rec \<leftarrow> BackendErrorRecoverable i k w;
       if \<not> rec then client_Abort w else get_OnBackendRecoverableError i k ec w
     }
     else do {
       w \<leftarrow> get_BackendReadyToReply i k w;
       conn_call k TryReadMoreReply w
     }
   }"

section \<open>MGET\<close>

definition the_mget :: "cmd_id \<Rightarrow> World \<Rightarrow> RedisMgetCommand option" where
  "the_mget i w = do {
     c \<leftarrow> cmds w i;
     case cmd_data c of RedisMget g \<Rightarrow> Some g | _ \<Rightarrow> None
   }"

text \<open>\<^verbatim>\<open>ParseReply\<close> works on the subquery of the connection's endpoint and on the counter at the front.\<close>

definition mget_parse :: "cmd_id \<Rightarrow> conn_id \<Rightarrow> World \<Rightarrow> (bool \<times> World) option" where
  "mget_parse i k w = do {
     g \<leftarrow> the_mget i w;
     b \<leftarrow> conns (pool w) k;
     let ep = remote_endpoint b;
     s \<leftarrow> map_of (mget_subqueries g) ep;
     case mget_waiting g of
       [] \<Rightarrow> None
     | (k', cnt) # rest \<Rightarrow> do {
         (ok, b, absent, cnt) \<leftarrow> MgetParseReply b (reply_absent_bulks s) cnt;
         w \<leftarrow> set_data i (RedisMget (g\<lparr>
                mget_subqueries := adjust ep (\<lambda>s. s\<lparr>reply_absent_bulks := absent\<rparr>) (mget_subqueries g),
                mget_waiting := (k', cnt) # rest\<rparr>)) w;
         Some (ok, w\<lparr>pool := put_conn k b (pool w)\<rparr>)
       }
   }"

definition mget_BackendReadyToReply :: "cmd_id \<Rightarrow> conn_id \<Rightarrow> World \<Rightarrow> World option" where
  "mget_BackendReadyToReply i k w = do {
     first \<leftarrow> IsFirstCommand i w;
     if \<not> first then Some w
     else do {
       g \<leftarrow> the_mget i w;
       case mget_waiting g of
         [] \<Rightarrow> client_Abort w
       | (k', _) # _ \<Rightarrow>
           if reply_prefix g \<noteq> [] \<or> k \<noteq> k' then Some w
           else do {
             w \<leftarrow> set_replying i (Some k) w;
             (ok, w) \<leftarrow> mget_parse i k w;
             if \<not> ok then client_Abort w
             else do {
               b \<leftarrow> conns (pool w) k;
               if unprocessed_bytes (buffer b) = 0 then conn_call k TryReadMoreReply w
               else TryWriteReply i k w
             }
           }
     }
   }"

definition ErrorReplyBody :: "size_t \<Rightarrow> bytes" where
  "ErrorReplyBody keys =
     CHR ''*'' # nat_dec (unat keys) @ CRLF @ concat (replicate (unat keys) (''$-1'' @ CRLF))"

definition mget_OnBackendRecoverableError :: "cmd_id \<Rightarrow> conn_id \<Rightarrow> World \<Rightarrow> World option" where
  "mget_OnBackendRecoverableError i k w = do {
     g \<leftarrow> the_mget i w;
     b \<leftarrow> conns (pool w) k;
     s \<leftarrow> map_of (mget_subqueries g) (remote_endpoint b);
     w \<leftarrow> set_reply_data k (ErrorReplyBody (key_count s)) False w;
     w \<leftarrow> conn_upd k (\<lambda>b. Some (set_no_recycle b)) w;
     mget_BackendReadyToReply i k w
   }"

definition mget_OnWriteQueryFinished :: "cmd_id \<Rightarrow> conn_id \<Rightarrow> ErrorCode \<Rightarrow> World \<Rightarrow> World option" where
  "mget_OnWriteQueryFinished i k ec w =
     (if ec \<noteq> E_SUCCESS then
        if ec = E_CONNECT then do {
          w \<leftarrow> mget_OnBackendRecoverableError i k w;
          dec_client_lock w
        }
        else client_Abort w
      else do {
        g \<leftarrow> the_mget i w;
        b \<leftarrow> conns (pool w) k;
        s \<leftarrow> map_of (mget_subqueries g) (remote_endpoint b);
        if mget_segments s = [] then None
        else do {
          let segs = tl (mget_segments s);
          w \<leftarrow> set_data i (RedisMget (g\<lparr>mget_subqueries :=
                 adjust (remote_endpoint b) (\<lambda>s. s\<lparr>mget_segments := segs\<rparr>) (mget_subqueries g)\<rparr>)) w;
          case segs of
            seg # _ \<Rightarrow> write_query (mget_backend s) seg w
          | [] \<Rightarrow> do { w \<leftarrow> dec_client_lock w; conn_call k ReadReply w }
        }
      })"

definition mget_OnBackendReplyReceived :: "cmd_id \<Rightarrow> conn_id \<Rightarrow> ErrorCode \<Rightarrow> World \<Rightarrow> World option" where
  "mget_OnBackendReplyReceived i k ec w =
     (if ec \<noteq> E_SUCCESS then do {
        c \<leftarrow> cmds w i;
        if replying_backend c = Some k then client_Abort w
        else mget_OnBackendRecoverableError i k w
      }
      else mget_BackendReadyToReply i k w)"

definition mget_NextBackendStartReply :: "cmd_id \<Rightarrow> World \<Rightarrow> World option" where
  "mget_NextBackendStartReply i w = do {
     g \<leftarrow> the_mget i w;
     if reply_prefix g \<noteq> [] then Some w
     else case mget_waiting g of
       [] \<Rightarrow> None
     | (k, _) # _ \<Rightarrow> do {
         b \<leftarrow> conns (pool w) k;
         if unparsed_bytes (buffer b) > 0 then mget_BackendReadyToReply i k w else Some w
       }
   }"

definition mget_RotateReplyingBackend :: "cmd_id \<Rightarrow> World \<Rightarrow> World option" where
  "mget_RotateReplyingBackend i w = do {
     g \<leftarrow> the_mget i w;
     if mget_waiting g = [] then RotateReplyingCommand w else mget_NextBackendStartReply i w
   }"

definition mget_OnWriteReplyFinished :: "cmd_id \<Rightarrow> conn_id option \<Rightarrow> ErrorCode \<Rightarrow> World \<Rightarrow> World option" where
  "mget_OnWriteReplyFinished i ko ec w =
     (if ec \<noteq> E_SUCCESS then client_Abort w
      else do {
        g \<leftarrow> the_mget i w;
        case ko of
          None \<Rightarrow> do {
            w \<leftarrow> set_data i (RedisMget (g\<lparr>reply_prefix := []\<rparr>)) w;
            mget_NextBackendStartReply i w
          }
        | Some k \<Rightarrow> do {
            w \<leftarrow> reply_written i k w;
            c \<leftarrow> cmds w i;
            case mget_waiting g of
              [] \<Rightarrow> None
            | (k', cnt) # rest \<Rightarrow>
                if k \<noteq> k' \<or> replying_backend c \<noteq> Some k then None
                else do {
                  b \<leftarrow> conns (pool w) k;
                  if parsed_unreceived_bytes (buffer b) = 0 then do {
                    w \<leftarrow> (if cnt = 0 then set_data i (RedisMget (g\<lparr>mget_waiting := rest\<rparr>)) w else Some w);
                    mget_RotateReplyingBackend i w
                  }
                  else conn_call k TryReadMoreReply w
                }
          }
      })"

section \<open>MSET\<close>

definition the_mset :: "cmd_id \<Rightarrow> World \<Rightarrow> RedisMsetCommand option" where
  "the_mset i w = do {
     c \<leftarrow> cmds w i;
     case cmd_data c of RedisMset d \<Rightarrow> Some d | _ \<Rightarrow> None
   }"

text \<open>The last reply is written to the client, now or when the command comes first; \<open>finish\<close> in MSET and DEL.\<close>

definition reply_or_wait :: "cmd_id \<Rightarrow> conn_id \<Rightarrow> World \<Rightarrow> World option" where
  "reply_or_wait i k w = do {
     first \<leftarrow> IsFirstCommand i w;
     if first then TryWriteReply i k w else set_replying i (Some k) w
   }"

definition mset_drop :: "cmd_id \<Rightarrow> conn_id \<Rightarrow> World \<Rightarrow> World option" where
  "mset_drop i k w = do {
     d \<leftarrow> the_mset i w;
     w \<leftarrow> set_data i (RedisMset (d\<lparr>mset_pending := map_erase k (mset_pending d)\<rparr>)) w;
     pool_release k w
   }"

definition mset_OnBackendRecoverableError :: "cmd_id \<Rightarrow> conn_id \<Rightarrow> ErrorCode \<Rightarrow> World \<Rightarrow> World option" where
  "mset_OnBackendRecoverableError i k ec w = do {
     ok \<leftarrow> BackendErrorRecoverable i k w;
     if \<not> ok then None
     else do {
       w \<leftarrow> set_reply_data k (RedisErrorReply ec) True w;
       w \<leftarrow> mark_failed k w;
       d \<leftarrow> the_mset i w;
       s \<leftarrow> map_of (mset_pending d) k;
       q \<leftarrow> mset_store d s;
       if sub_recv_complete q then
         if mset_unparsed_bulks d = 0 \<and> length (mset_pending d) = 1 then reply_or_wait i k w
         else mset_drop i k w
       else Some w
     }
   }"

text \<open>The bytes of a reply that is not forwarded.\<close>

definition discard_reply :: "conn_id \<Rightarrow> World \<Rightarrow> World option" where
  "discard_reply k w = do {
     b \<leftarrow> conns (pool w) k;
     if unparsed_bytes (buffer b) \<noteq> 0 then None
     else conn_buf k (\<lambda>buf. update_processed_bytes (unprocessed_bytes buf) buf) w
   }"

definition mset_OnBackendReplyReceived :: "cmd_id \<Rightarrow> conn_id \<Rightarrow> ErrorCode \<Rightarrow> World \<Rightarrow> World option" where
  "mset_OnBackendReplyReceived i k ec w = do {
     c \<leftarrow> cmds w i;
     (ok, w) \<leftarrow> (if ec \<noteq> E_SUCCESS then Some (False, w) else parse_with k (ParseReply (cmd_protocol c)) w);
     if \<not> ok then client_Abort w
     else do {
       b \<leftarrow> conns (pool w) k;
       d \<leftarrow> the_mset i w;
       if \<not> reply_recv_complete b then conn_call k TryReadMoreReply w
       else if mset_waiting d \<noteq> [] then None
       else if mset_unparsed_bulks d = 0 \<and> length (mset_pending d) = 1 then reply_or_wait i k w
       else do {
         w \<leftarrow> discard_reply k w;
         w \<leftarrow> mset_drop i k w;
         Some (if mset_unparsed_bulks d > 0 then read_if_unlocked w else w)
       }
     }
   }"

definition read_if_incomplete :: "cmd_id \<Rightarrow> World \<Rightarrow> World option" where
  "read_if_incomplete i w = do {
     done \<leftarrow> query_recv_complete i w;
     Some (if done then w else read_if_unlocked w)
   }"

definition mset_set_sub :: "cmd_id \<Rightarrow> nat \<Rightarrow> MsetSubquery \<Rightarrow> World \<Rightarrow> World option" where
  "mset_set_sub i s q w = do {
     d \<leftarrow> the_mset i w;
     set_data i (RedisMset (d\<lparr>mset_store := (mset_store d)(s \<mapsto> q)\<rparr>)) w
   }"

text \<open>The case \<^verbatim>\<open>READING_MORE_QUERY\<close>, into which \<^verbatim>\<open>SENDING_MORE_QUERY\<close> falls through.\<close>

definition mset_part_sent :: "cmd_id \<Rightarrow> conn_id \<Rightarrow> nat \<Rightarrow> MsetSubquery \<Rightarrow> World \<Rightarrow> World option" where
  "mset_part_sent i k s q w = do {
     w \<leftarrow> dec_client_lock w;
     w \<leftarrow> (if sub_recv_complete q then do {
            w \<leftarrow> mset_set_sub i s (q\<lparr>phase := READING_REPLY\<rparr>) w;
            conn_call k ReadReply w
          }
          else mset_set_sub i s q w);
     read_if_incomplete i w
   }"

definition mset_OnWriteQueryFinished :: "cmd_id \<Rightarrow> conn_id \<Rightarrow> ErrorCode \<Rightarrow> World \<Rightarrow> World option" where
  "mset_OnWriteQueryFinished i k ec w =
     (if ec \<noteq> E_SUCCESS then
        if ec = E_CONNECT then do {
          w \<leftarrow> mset_OnBackendRecoverableError i k ec w;
          w \<leftarrow> dec_client_lock w;
          read_if_incomplete i w
        }
        else client_Abort w
      else do {
        d \<leftarrow> the_mset i w;
        s \<leftarrow> map_of (mset_pending d) k;
        q \<leftarrow> mset_store d s;
        case phase q of
          INIT_SEND_QUERY \<Rightarrow> do {
            w \<leftarrow> mset_set_sub i s (q\<lparr>phase := SENDING_MORE_QUERY\<rparr>) w;
            case sub_segments q of [] \<Rightarrow> None | seg # _ \<Rightarrow> write_query (sub_backend q) seg w
          }
        | SENDING_MORE_QUERY \<Rightarrow>
            (case sub_segments q of
               [] \<Rightarrow> None
             | _ # segs \<Rightarrow> (case segs of
                   seg # _ \<Rightarrow> do {
                     w \<leftarrow> mset_set_sub i s (q\<lparr>sub_segments := segs\<rparr>) w;
                     write_query (sub_backend q) seg w
                   }
                 | [] \<Rightarrow> mset_part_sent i k s
                     (q\<lparr>sub_segments := [], phase := (if sub_recv_complete q then phase q else READING_MORE_QUERY)\<rparr>) w))
        | READING_MORE_QUERY \<Rightarrow> mset_part_sent i k s q w
        | READING_REPLY \<Rightarrow> None
      })"

section \<open>DEL, EXISTS and TOUCH\<close>

definition the_del :: "cmd_id \<Rightarrow> World \<Rightarrow> RedisDelCommand option" where
  "the_del i w = do {
     c \<leftarrow> cmds w i;
     case cmd_data c of RedisDel d \<Rightarrow> Some d | _ \<Rightarrow> None
   }"

text \<open>The count goes to the stream as a \<^verbatim>\<open>size_t\<close>.\<close>

definition SetBackendReplyCount :: "conn_id \<Rightarrow> size_t \<Rightarrow> World \<Rightarrow> World option" where
  "SetBackendReplyCount k n = set_reply_data k (CHR '':'' # nat_dec (unat n) @ CRLF) True"

definition del_drop :: "cmd_id \<Rightarrow> conn_id \<Rightarrow> World \<Rightarrow> World option" where
  "del_drop i k w = do {
     d \<leftarrow> the_del i w;
     w \<leftarrow> set_data i (RedisDel (d\<lparr>del_pending := map_erase k (del_pending d)\<rparr>)) w;
     pool_release k w
   }"

definition del_reply_count :: "cmd_id \<Rightarrow> conn_id \<Rightarrow> World \<Rightarrow> World option" where
  "del_reply_count i k w = do {
     d \<leftarrow> the_del i w;
     w \<leftarrow> SetBackendReplyCount k (word_of_int (total_del_count d)) w;
     reply_or_wait i k w
   }"

definition del_OnBackendRecoverableError :: "cmd_id \<Rightarrow> conn_id \<Rightarrow> World \<Rightarrow> World option" where
  "del_OnBackendRecoverableError i k w = do {
     w \<leftarrow> mark_failed k w;
     d \<leftarrow> the_del i w;
     if del_unparsed_bulks d = 0 \<and> length (del_pending d) = 1 then del_reply_count i k w
     else del_drop i k w
   }"

definition del_parse :: "cmd_id \<Rightarrow> conn_id \<Rightarrow> World \<Rightarrow> (bool \<times> World) option" where
  "del_parse i k w = do {
     d \<leftarrow> the_del i w;
     b \<leftarrow> conns (pool w) k;
     (ok, tot, b) \<leftarrow> DelParseReply (total_del_count d) b;
     w \<leftarrow> set_data i (RedisDel (d\<lparr>total_del_count := tot\<rparr>)) w;
     Some (ok, w\<lparr>pool := put_conn k b (pool w)\<rparr>)
   }"

definition del_OnBackendReplyReceived :: "cmd_id \<Rightarrow> conn_id \<Rightarrow> ErrorCode \<Rightarrow> World \<Rightarrow> World option" where
  "del_OnBackendReplyReceived i k ec w = do {
     (ok, w) \<leftarrow> (if ec \<noteq> E_SUCCESS then Some (False, w) else del_parse i k w);
     if \<not> ok then client_Abort w
     else do {
       b \<leftarrow> conns (pool w) k;
       d \<leftarrow> the_del i w;
       if \<not> reply_recv_complete b then conn_call k TryReadMoreReply w
       else if del_unparsed_bulks d = 0 \<and> length (del_pending d) = 1 then del_reply_count i k w
       else do {
         w \<leftarrow> discard_reply k w;
         w \<leftarrow> del_drop i k w;
         Some (if del_unparsed_bulks d > 0 then read_if_unlocked w else w)
       }
     }
   }"

definition del_set_sub :: "cmd_id \<Rightarrow> conn_id \<Rightarrow> DelSubquery \<Rightarrow> World \<Rightarrow> World option" where
  "del_set_sub i k q w = do {
     d \<leftarrow> the_del i w;
     set_data i (RedisDel (d\<lparr>del_pending := adjust k (\<lambda>_. q) (del_pending d)\<rparr>)) w
   }"

definition del_OnWriteQueryFinished :: "cmd_id \<Rightarrow> conn_id \<Rightarrow> ErrorCode \<Rightarrow> World \<Rightarrow> World option" where
  "del_OnWriteQueryFinished i k ec w =
     (if ec \<noteq> E_SUCCESS then
        if ec = E_CONNECT then do {
          w \<leftarrow> del_OnBackendRecoverableError i k w;
          w \<leftarrow> dec_client_lock w;
          read_if_incomplete i w
        }
        else client_Abort w
      else do {
        d \<leftarrow> the_del i w;
        q \<leftarrow> map_of (del_pending d) k;
        if del_phase q = 0 then do {
          w \<leftarrow> del_set_sub i k (q\<lparr>del_phase := 1\<rparr>) w;
          case sub_segments q of [] \<Rightarrow> None | seg # _ \<Rightarrow> write_query (sub_backend q) seg w
        }
        else if del_phase q = 1 then
          (case sub_segments q of
             [] \<Rightarrow> None
           | _ # segs \<Rightarrow> (case segs of
                 [] \<Rightarrow> do {
                   w \<leftarrow> dec_client_lock w;
                   w \<leftarrow> del_set_sub i k (q\<lparr>sub_segments := [], del_phase := 2\<rparr>) w;
                   conn_call k ReadReply w
                 }
               | seg # _ \<Rightarrow> do {
                   w \<leftarrow> del_set_sub i k (q\<lparr>sub_segments := segs\<rparr>) w;
                   write_query (sub_backend q) seg w
                 }))
        else None
      })"

section \<open>Virtual calls\<close>

definition OnWriteQueryFinished :: "cmd_id \<Rightarrow> conn_id \<Rightarrow> ErrorCode \<Rightarrow> World \<Rightarrow> World option" where
  "OnWriteQueryFinished i k ec w = do {
     c \<leftarrow> cmds w i;
     case cmd_data c of
       MemcGet _ \<Rightarrow> get_OnWriteQueryFinished i k ec w
     | RedisMget _ \<Rightarrow> mget_OnWriteQueryFinished i k ec w
     | RedisMset _ \<Rightarrow> mset_OnWriteQueryFinished i k ec w
     | RedisDel _ \<Rightarrow> del_OnWriteQueryFinished i k ec w
     | _ \<Rightarrow> base_OnWriteQueryFinished i k ec w
   }"

definition OnBackendReplyReceived :: "cmd_id \<Rightarrow> conn_id \<Rightarrow> ErrorCode \<Rightarrow> World \<Rightarrow> World option" where
  "OnBackendReplyReceived i k ec w = do {
     c \<leftarrow> cmds w i;
     case cmd_data c of
       Error_Command _ \<Rightarrow> None
     | Stats_Command _ \<Rightarrow> None
     | MemcGet _ \<Rightarrow> get_OnBackendReplyReceived i k ec w
     | RedisMget _ \<Rightarrow> mget_OnBackendReplyReceived i k ec w
     | RedisMset _ \<Rightarrow> mset_OnBackendReplyReceived i k ec w
     | RedisDel _ \<Rightarrow> del_OnBackendReplyReceived i k ec w
     | _ \<Rightarrow> base_OnBackendReplyReceived i k ec w
   }"

text \<open>A command that replied from a backend is called with that backend; a null pointer is undefined.\<close>

definition OnWriteReplyFinished :: "cmd_id \<Rightarrow> conn_id option \<Rightarrow> ErrorCode \<Rightarrow> World \<Rightarrow> World option" where
  "OnWriteReplyFinished i ko ec w = do {
     c \<leftarrow> cmds w i;
     case cmd_data c of
       Error_Command _ \<Rightarrow> (case ko of None \<Rightarrow> client_Abort w | Some _ \<Rightarrow> None)
     | Stats_Command _ \<Rightarrow> (case ko of None \<Rightarrow> RotateReplyingBackend i w | Some _ \<Rightarrow> None)
     | RedisMget _ \<Rightarrow> mget_OnWriteReplyFinished i ko ec w
     | _ \<Rightarrow> (case ko of None \<Rightarrow> None | Some k \<Rightarrow> base_OnWriteReplyFinished i k ec w)
   }"

end
