(* ===== verification/Client_Conn.thy ===== *)
theory Client_Conn
  imports Command_Reply
begin

text \<open>
  The event loop of a worker, for one client: the completion handlers of \<^verbatim>\<open>client_conn.cc\<close> and of the
  backend connections, with the callbacks they run.  An event completes one of the operations in \<open>ops\<close>;
  the environment (the kernel, the clients and the servers) chooses which, and with what outcome.
\<close>

section \<open>Callbacks\<close>

text \<open>
  The lambda of \<^verbatim>\<open>WeakBind\<close>: nothing happens when the command is gone, otherwise it is kept until the
  callback returns.
\<close>

definition run_callback :: "cmd_id \<Rightarrow> (World \<Rightarrow> World option) \<Rightarrow> World \<Rightarrow> World option" where
  "run_callback i f w =
     (if cmds w i = None then Some w
      else do { w \<leftarrow> f (hold i w); unhold i w })"

text \<open>What a handler of a backend connection asks for, in order.\<close>

definition query_sent :: "conn_id \<Rightarrow> ErrorCode \<Rightarrow> World \<Rightarrow> World option" where
  "query_sent k ec w = do {
     b \<leftarrow> conns (pool w) k;
     i \<leftarrow> callback_cmd b;
     run_callback i (OnWriteQueryFinished i k ec) w
   }"

definition reply_received :: "conn_id \<Rightarrow> ErrorCode \<Rightarrow> World \<Rightarrow> World option" where
  "reply_received k ec w = do {
     b \<leftarrow> conns (pool w) k;
     i \<leftarrow> callback_cmd b;
     run_callback i (OnBackendReplyReceived i k ec) w
   }"

fun run_act :: "conn_id \<Rightarrow> conn_act \<Rightarrow> World \<Rightarrow> World option" where
  "run_act k (QuerySent ec) w = query_sent k ec w"
| "run_act k (ReplyReceived ec) w = reply_received k ec w"
| "run_act k (ThenAbort ec) w = conn_call k (conn_Abort ec) w"
| "run_act k act w = Some (emit k [act] w)"

definition conn_event :: "conn_id \<Rightarrow> (BackendConn \<Rightarrow> (BackendConn \<times> conn_act list) option) \<Rightarrow> World \<Rightarrow> World option" where
  "conn_event k f w = do {
     b \<leftarrow> conns (pool w) k;
     (b, acts) \<leftarrow> f b;
     foldM (run_act k) acts (w\<lparr>pool := put_conn k b (pool w)\<rparr>)
   }"

section \<open>The client connection\<close>

definition StartRead :: "World \<Rightarrow> World" where
  "StartRead w = AsyncRead w"

datatype read_result = Eof | Read_Error | Received bytes

text \<open>What the socket read put into memory from position \<open>off\<close>.\<close>

definition mem_fill :: "nat \<Rightarrow> bytes \<Rightarrow> read_buffer \<Rightarrow> read_buffer" where
  "mem_fill off xs b = b\<lparr>data := take off (data b) @ xs @ drop (off + length xs) (data b)\<rparr>"

text \<open>The end of \<^verbatim>\<open>HandleRead\<close>, from \<^verbatim>\<open>process the big bulk arrays in redis query\<close> on.\<close>

definition read_rest :: "cmd_id \<Rightarrow> World \<Rightarrow> World option" where
  "read_rest i w = do {
     parsed \<leftarrow> query_parsing_complete i w;
     (ok, w) \<leftarrow> (if parsed then Some (True, w) else ProcessUnparsedPart i w);
     if \<not> ok then client_Abort w
     else do {
       parsed \<leftarrow> query_parsing_complete i w;
       if parsed then ProcessUnparsedQuery w else Some w
     }
   }"

text \<open>From \<^verbatim>\<open>parsed_unprocessed_bytes() > 0\<close> on.\<close>

definition send_parsed_part :: "cmd_id \<Rightarrow> World \<Rightarrow> World option" where
  "send_parsed_part i w = do {
     n \<leftarrow> parsed_unprocessed_bytes (client_buffer w);
     if n > 0 then do {
       (no_callback, w) \<leftarrow> ContinueWriteQuery i w;
       w \<leftarrow> client_buf (\<lambda>b. update_processed_bytes (unprocessed_bytes b) b) w;
       if parsed_unreceived_bytes (client_buffer w) > 0
       then Some (if no_callback then TryReadMoreQuery w else w)
       else read_rest i w
     }
     else read_rest i w
   }"

definition read_for_command :: "cmd_id \<Rightarrow> World \<Rightarrow> World option" where
  "read_for_command i w = do {
     done \<leftarrow> query_recv_complete i w;
     (ok, w) \<leftarrow> (if done then Some (True, w) else ParseUnparsedPart i w);
     if \<not> ok then client_Abort w else send_parsed_part i w
   }"

definition client_HandleRead :: "nat \<Rightarrow> read_result \<Rightarrow> World \<Rightarrow> World option" where
  "client_HandleRead off r w =
     (let w = log_ops [Client_Cancel Read_Timer] w
      in if client_aborted w then Some w
         else let w = w\<lparr>is_reading_query := False\<rparr>
         in case r of
              Eof \<Rightarrow> Some w
            | Read_Error \<Rightarrow> client_Abort w
            | Received xs \<Rightarrow> do {
                let w = count_up Bytes_From_Clients (of_nat (length xs)) w;
                w \<leftarrow> client_buf (\<lambda>b. Some (update_received_bytes (of_nat (length xs)) (mem_fill off xs b))) w;
                w \<leftarrow> dec_client_lock w;
                if active_cmd_queue w = [] then do {
                  n \<leftarrow> parsed_unprocessed_bytes (client_buffer w);
                  if n > 0 then None else ProcessUnparsedQuery w
                }
                else do {
                  let i = last (active_cmd_queue w);
                  w \<leftarrow> read_for_command i (hold i w);
                  unhold i w
                }
              })"

text \<open>
  The completion of the write that \<^verbatim>\<open>WriteReply\<close> started; when it is short of the size, the rest is
  written with a second call, whose assert fails because \<^verbatim>\<open>is_writing_reply_\<close> is still set.
\<close>

definition client_HandleWrite ::
  "ptr \<Rightarrow> size_t \<Rightarrow> cmd_id \<Rightarrow> conn_id option \<Rightarrow> bool \<Rightarrow> size_t \<Rightarrow> World \<Rightarrow> World option" where
  "client_HandleWrite p n i ko err transferred w =
     (let w = log_ops [Client_Cancel Write_Timer] w;
          w = (if err then w else count_up Bytes_To_Clients transferred w)
      in if \<not> err \<and> transferred < n then WriteReply (ptr_add p transferred) (n - transferred) i ko w
         else run_callback i (OnWriteReplyFinished i ko (if err then E_WRITE_REPLY else E_SUCCESS))
                (w\<lparr>is_writing_reply := False\<rparr>))"

definition client_OnTimeout :: "timer \<Rightarrow> bool \<Rightarrow> World \<Rightarrow> World option" where
  "client_OnTimeout t op_aborted w =
     (if op_aborted then Some w
      else client_Abort (count_up (if t = Read_Timer then Client_Read_Timeouts else Client_Write_Timeouts) 1 w))"

section \<open>Events\<close>

datatype event =
    Connected bool bool
  | Query_Written bool size_t
  | Reply_Read bool bytes
  | Timer_Fired bool
  | Posted
  | Client_Data read_result
  | Client_Written bool size_t

text \<open>\<open>handle\<close> runs the handler of an operation for an outcome; other pairs do not occur.\<close>

definition conn_handle :: "conn_id \<Rightarrow> conn_act \<Rightarrow> event \<Rightarrow> World \<Rightarrow> World option" where
  "conn_handle k act e w = (case act of
     Async_Connect p n \<Rightarrow> (case e of
         Connected ce oe \<Rightarrow> conn_event k (\<lambda>b. Some (HandleConnect p n ce oe b)) w | _ \<Rightarrow> Some w)
   | Async_Write p n \<Rightarrow> (case e of
         Query_Written err t \<Rightarrow> conn_event k (\<lambda>b. Some (HandleWrite p n err t b)) w | _ \<Rightarrow> Some w)
   | Async_Read off n \<Rightarrow> (case e of
         Reply_Read err xs \<Rightarrow>
           conn_event k (\<lambda>b. conn_HandleRead err (of_nat (length xs)) (b\<lparr>buffer := mem_fill off xs (buffer b)\<rparr>)) w
       | _ \<Rightarrow> Some w)
   | Arm t code \<Rightarrow> (case e of Timer_Fired oa \<Rightarrow> conn_event k (OnTimeout oa code) w | _ \<Rightarrow> Some w)
   | Post_QuerySent ec \<Rightarrow> (case e of Posted \<Rightarrow> query_sent k ec w | _ \<Rightarrow> Some w)
   | _ \<Rightarrow> Some w)"

definition handle :: "op \<Rightarrow> event \<Rightarrow> World \<Rightarrow> World option" where
  "handle p e w = (case p of
     Conn_Op k act \<Rightarrow> conn_handle k act e w
   | Client_Read off n \<Rightarrow> (case e of Client_Data r \<Rightarrow> client_HandleRead off r w | _ \<Rightarrow> Some w)
   | Client_Write q n i ko \<Rightarrow> (case e of
         Client_Written err t \<Rightarrow> client_HandleWrite q n i ko err t w | _ \<Rightarrow> Some w)
   | Client_Arm t ms \<Rightarrow> (case e of Timer_Fired oa \<Rightarrow> client_OnTimeout t oa w | _ \<Rightarrow> Some w)
   | _ \<Rightarrow> Some w)"

text \<open>
  The outcomes that boost allows: a read transfers at most the size of its buffer, nothing with an error, and
  without one at least one byte unless the buffer has no room; a composed write transfers everything or reports
  an error.
\<close>

definition conn_allowed :: "conn_act \<Rightarrow> event \<Rightarrow> bool" where
  "conn_allowed act e = (case act of
     Async_Connect p n \<Rightarrow> (case e of Connected ce oe \<Rightarrow> True | _ \<Rightarrow> False)
   | Async_Write p n \<Rightarrow> (case e of Query_Written err t \<Rightarrow> if err then t \<le> n else t = n | _ \<Rightarrow> False)
   | Async_Read off n \<Rightarrow> (case e of
         Reply_Read err xs \<Rightarrow> length xs \<le> unat n \<and> (if err then xs = [] else xs = [] \<longrightarrow> n = 0) | _ \<Rightarrow> False)
   | Arm t code \<Rightarrow> (case e of Timer_Fired oa \<Rightarrow> True | _ \<Rightarrow> False)
   | Post_QuerySent ec \<Rightarrow> e = Posted
   | _ \<Rightarrow> False)"

definition allowed :: "op \<Rightarrow> event \<Rightarrow> bool" where
  "allowed p e = (case p of
     Conn_Op k act \<Rightarrow> conn_allowed act e
   | Client_Read off n \<Rightarrow> (case e of
         Client_Data r \<Rightarrow> (case r of Received xs \<Rightarrow> length xs \<le> unat n \<and> (xs = [] \<longrightarrow> n = 0) | _ \<Rightarrow> True)
       | _ \<Rightarrow> False)
   | Client_Write q n i ko \<Rightarrow> (case e of
         Client_Written err t \<Rightarrow> if err then t \<le> n else t = n | _ \<Rightarrow> False)
   | Client_Arm t ms \<Rightarrow> (case e of Timer_Fired oa \<Rightarrow> True | _ \<Rightarrow> False)
   | _ \<Rightarrow> False)"

text \<open>
  One turn of the event loop: an outstanding operation completes and its handler returns. A handler that does
  not return normally has no turn. That includes one that throws: \<^verbatim>\<open>WorkerPool::StartDispatching\<close> catches the
  exception and runs the loop on, but the runs here end there.
\<close>

inductive loop_step :: "World \<Rightarrow> World \<Rightarrow> bool" where
  step: "p \<in> set (ops w) \<Longrightarrow> allowed p e \<Longrightarrow> handle p e (w\<lparr>ops := remove1 p (ops w)\<rparr>) = Some w'
         \<Longrightarrow> loop_step w w'"

text \<open>A new client: nothing received, no commands; \<open>w0\<close> gives the worker.\<close>

definition ClientConnection :: "bytes \<Rightarrow> World \<Rightarrow> World" where
  "ClientConnection mem w0 =
     (count_up Client_Conns 1 w0)\<lparr>client_buffer := ReadBuffer mem (conn_size w0), is_reading_query := False, is_writing_reply := False,
        client_aborted := False, active_cmd_queue := [], cmds := Map.empty, next_cmd := 0, held := [],
        ops := []\<rparr>"

inductive reachable :: "World \<Rightarrow> bool" where
  start: "reachable (StartRead (ClientConnection mem w0))"
| turn: "reachable w \<Longrightarrow> loop_step w w' \<Longrightarrow> reachable w'"

end
