(* ===== verification/World_Rel.thy ===== *)
theory World_Rel
  imports Client_Conn
begin

text \<open>
  Invariants of the event loop, once for all: the locale \<open>world_rel\<close> lists the elementary changes that the
  code makes to the state of a client and its worker, and shows that a relation that contains them and is
  transitive contains every handler.
\<close>

fun is_client_read :: "op \<Rightarrow> bool" where
  "is_client_read (Client_Read _ _) = True"
| "is_client_read _ = False"

named_theorems kept \<open>operations that are in the relation\<close>

text \<open>Functions on a connection that leave its endpoint.\<close>

definition same_peer :: "(BackendConn \<Rightarrow> BackendConn \<times> conn_act list) \<Rightarrow> bool" where
  "same_peer f \<longleftrightarrow> (\<forall>b. remote_endpoint (fst (f b)) = remote_endpoint b)"

lemma same_peer_ops [simp]:
  "same_peer ReadReply" "same_peer TryReadMoreReply" "same_peer (WriteQuery p n)" "same_peer (conn_Abort ec)"
  "same_peer Close"
  by (auto simp: same_peer_def ReadReply_def TryReadMoreReply_def WriteQuery_def conn_Abort_def Close_def Let_def)

lemma same_peer_claim [simp]: "remote_endpoint (claim n b) = remote_endpoint b"
  by (simp add: claim_def)

lemma same_peer_handlers:
  "HandleConnect p n ce oe b = r \<Longrightarrow> remote_endpoint (fst r) = remote_endpoint b"
  "HandleWrite p n err t b = r \<Longrightarrow> remote_endpoint (fst r) = remote_endpoint b"
  "conn_HandleRead err t b = Some r \<Longrightarrow> remote_endpoint (fst r) = remote_endpoint b"
  "OnTimeout oa code b = Some r \<Longrightarrow> remote_endpoint (fst r) = remote_endpoint b"
  by (auto simp: conn_handlers Let_def bind_eq_Some_conv split: if_split_asm ErrorCode.split_asm)

lemma same_peer_ParseReply: "ParseReply prot b = Some (ok, b') \<Longrightarrow> remote_endpoint b' = remote_endpoint b"
  by (auto simp: ParseReply_def ParseRedisSimpleReply_def ParseMemcSimpleReply_def set_reply_recv_complete_def
      Let_def bind_eq_Some_conv case_option_Some split: if_split_asm)

definition same_conn :: "BackendConn \<Rightarrow> BackendConn \<Rightarrow> bool" where
  "same_conn b b' \<longleftrightarrow> remote_endpoint b' = remote_endpoint b"

lemma same_conn_simps [simp]:
  "same_conn b b" "same_conn b (claim n b') = same_conn b b'" "same_conn b (b'\<lparr>buffer := buf\<rparr>) = same_conn b b'"
  "same_conn b (set_reply_recv_complete b') = same_conn b b'" "same_conn (claim n b) b' = same_conn b b'"
  "same_conn (b\<lparr>buffer := buf\<rparr>) b' = same_conn b b'"
  by (simp_all add: same_conn_def set_reply_recv_complete_def)

lemma same_peer_memc_get:
  assumes "memc_get_loop is_last b = Some (ok, b')"
  shows "remote_endpoint b' = remote_endpoint b"
proof -
  have "same_conn b (snd (ok, b'))"
    by (rule memc_get_loop.raw_induct [where P = "\<lambda>_ b r. same_conn b (snd r)", OF _ assms])
      (auto simp: Let_def bind_eq_Some_conv case_option_Some split: if_split_asm, (metis same_conn_simps(5))+)
  then show ?thesis by (simp add: same_conn_def)
qed

lemma same_peer_DelParseReply: "DelParseReply tot b = Some (ok, tot', b') \<Longrightarrow> remote_endpoint b' = remote_endpoint b"
  by (auto simp: DelParseReply_def set_reply_recv_complete_def Let_def bind_eq_Some_conv case_option_Some
      split: if_split_asm)

lemma same_peer_mget_step:
  assumes "mget_step b absent = Some (r, b', absent')"
  shows "remote_endpoint b' = remote_endpoint b"
proof -
  have "same_conn b b'"
    using assms by (cases "absent = 0") (auto simp: mget_step_def Let_def bind_eq_Some_conv split: if_split_asm)
  then show ?thesis by (simp add: same_conn_def)
qed

lemma same_peer_mget_loop:
  "mget_loop b absent cnt = Some (ok, b', absent', cnt') \<Longrightarrow> remote_endpoint b' = remote_endpoint b"
proof (induction b absent cnt rule: mget_loop.induct)
  case (1 b absent cnt)
  show ?case
  proof (cases "unparsed_bytes (buffer b) = 0")
    case False
    with 1(2) obtain r b1 absent1 where s: "mget_step b absent = Some (r, b1, absent1)"
      by (subst (asm) mget_loop.simps) (auto simp: bind_eq_Some_conv)
    with 1 False show ?thesis
      by (cases r) (auto simp: mget_loop.simps [of b] split: if_split_asm dest: same_peer_mget_step)
  qed (use 1(2) in \<open>simp add: mget_loop.simps\<close>)
qed

lemma same_peer_MgetParseReply:
  "MgetParseReply b absent cnt = Some (ok, b', absent', cnt') \<Longrightarrow> remote_endpoint b' = remote_endpoint b"
  by (auto simp: MgetParseReply_def set_reply_recv_complete_def split: if_split_asm dest: same_peer_mget_loop)

section \<open>The locale\<close>

locale world_rel =
  fixes R :: "World \<Rightarrow> World \<Rightarrow> bool"
  assumes R_refl [simp, intro!]: "R w w"
    and R_trans: "R w1 w2 \<Longrightarrow> R w2 w3 \<Longrightarrow> R w1 w3"
    and R_stats: "R w (w\<lparr>stats := x1\<rparr>)"
    and R_client_buffer: "R w (w\<lparr>client_buffer := x2\<rparr>)"
    and R_cmds: "R w (w\<lparr>cmds := x3\<rparr>)"
    and R_next_cmd: "R w (w\<lparr>next_cmd := x4\<rparr>)"
    and R_queue: "R w (w\<lparr>active_cmd_queue := x5\<rparr>)"
    and R_held: "R w (w\<lparr>held := x6\<rparr>)"
    and R_writing: "R w (w\<lparr>is_writing_reply := x7\<rparr>)"
    and R_aborted: "R w (w\<lparr>client_aborted := True\<rparr>)"
    and R_log: "filter is_client_read os = [] \<Longrightarrow> R w (log_ops os w)"
    and R_read: "\<not> is_reading_query w \<Longrightarrow> R w (AsyncRead w)"
    and R_conn: "conns (pool w) k = Some b \<Longrightarrow> remote_endpoint b' = remote_endpoint b
      \<Longrightarrow> R w (w\<lparr>pool := put_conn k b' (pool w)\<rparr>)"
    and R_allocate: "pool_allocate ep w = Some (k, w') \<Longrightarrow> R w w'"
    and R_release: "pool_release k w = Some w' \<Longrightarrow> R w w'"
begin

subsection \<open>Elementary operations\<close>

lemma R_count_up [simp, intro]: "R w (count_up k n w)"
  by (simp add: count_up_def R_stats)

lemma R_emit: "R w (emit k acts w)"
proof -
  have c: "R v (count_act a v)" for a v by (cases a) auto
  have "R v (fold count_act acts v)" for v
    by (induction acts arbitrary: v) (auto intro: R_trans [OF c])
  moreover have "filter is_client_read (map (Conn_Op k) acts) = []" by (induction acts) simp_all
  ultimately show ?thesis unfolding emit_def by (blast intro: R_trans R_log)
qed

lemma R_conn_call:
  assumes "conn_call k f w = Some w'" and "same_peer f"
  shows "R w w'"
proof -
  obtain b where b: "conns (pool w) k = Some b" "w' = emit k (snd (f b)) (w\<lparr>pool := put_conn k (fst (f b)) (pool w)\<rparr>)"
    using assms(1) by (auto simp: conn_call_def bind_eq_Some_conv Let_def split_def)
  have "R w (w\<lparr>pool := put_conn k (fst (f b)) (pool w)\<rparr>)"
    using b(1) assms(2) by (intro R_conn) (auto simp: same_peer_def)
  then show ?thesis unfolding b(2) by (rule R_trans [OF _ R_emit])
qed

lemma R_conn_upd:
  "conn_upd k f w = Some w' \<Longrightarrow> (\<And>b b'. f b = Some b' \<Longrightarrow> remote_endpoint b' = remote_endpoint b) \<Longrightarrow> R w w'"
  by (auto simp: conn_upd_def bind_eq_Some_conv intro: R_conn)

lemma R_conn_calls [kept]:
  "conn_call k ReadReply w = Some w' \<Longrightarrow> R w w'" "conn_call k TryReadMoreReply w = Some w' \<Longrightarrow> R w w'"
  "conn_call k (WriteQuery p n) w = Some w' \<Longrightarrow> R w w'" "conn_call k (conn_Abort ec) w = Some w' \<Longrightarrow> R w w'"
  by (auto intro: R_conn_call)

lemma R_conn_upds [kept]:
  "conn_buf k g w = Some w' \<Longrightarrow> R w w'" "set_callback i k w = Some w' \<Longrightarrow> R w w'"
  "set_reply_data k bs p w = Some w' \<Longrightarrow> R w w'" "mark_failed k w = Some w' \<Longrightarrow> R w w'"
  "conn_upd k (\<lambda>b. Some (set_no_recycle b)) w = Some w' \<Longrightarrow> R w w'"
  by (auto simp: conn_buf_def set_callback_def set_reply_data_def mark_failed_def SetReadWriteCallback_def
      SetReplyData_def set_no_recycle_def set_reply_recv_complete_def bind_eq_Some_conv elim!: R_conn_upd)

lemma R_lock [simp, intro]: "R w (lock_client w)"
  by (simp add: lock_client_def R_client_buffer)

lemma R_UpdateTimer [simp, intro]: "R w (UpdateTimer t w)"
  by (simp add: UpdateTimer_def R_log)

lemma R_TryReadMoreQuery [simp, intro]: "R w (TryReadMoreQuery w)"
  by (simp add: TryReadMoreQuery_def R_read)

lemma R_read_if_unlocked [simp, intro]: "R w (read_if_unlocked w)"
  by (simp add: read_if_unlocked_def)

lemma R_after [intro]:
  "R w w' \<Longrightarrow> R w (TryReadMoreQuery w')" "R w w' \<Longrightarrow> R w (read_if_unlocked w')"
  by (blast intro: R_trans R_TryReadMoreQuery R_read_if_unlocked)+

lemma R_before: "R (lock_client w) w' \<Longrightarrow> R w w'"
  by (blast intro: R_trans R_lock)

lemma R_state_ops [kept]:
  "client_buf g w = Some w' \<Longrightarrow> R w w'" "dec_client_lock w = Some w' \<Longrightarrow> R w w'"
  "cmd_upd i h w = Some w' \<Longrightarrow> R w w'" "set_data i d w = Some w' \<Longrightarrow> R w w'"
  "set_replying i ko w = Some w' \<Longrightarrow> R w w'"
  by (auto simp: client_buf_def dec_client_lock_def cmd_upd_def set_data_def set_replying_def
      intro: R_client_buffer R_cmds)

lemmas R_pool [kept] = R_allocate R_release

lemma R_allocate_locked [kept]: "pool_allocate ep (lock_client w) = Some (k, w') \<Longrightarrow> R w w'"
  by (blast intro: R_before R_allocate)

lemma R_foldM:
  assumes "foldM f xs w = Some w'" and "\<And>x w w'. f x w = Some w' \<Longrightarrow> R w w'"
  shows "R w w'"
  using assms(1) by (rule foldM_rel) (auto intro: assms(2) R_trans)

lemma R_foldM_snd:
  assumes "foldM f xs st = Some st'" and "\<And>x st st'. f x st = Some st' \<Longrightarrow> R (snd st) (snd st')"
  shows "R (snd st) (snd st')"
  by (rule foldM_rel [where R = "\<lambda>a b. R (snd a) (snd b)", OF assms(1)]) (auto intro: assms(2) R_trans)

lemma R_destroy [kept]:
  assumes "destroy i w = Some w'"
  shows "R w w'"
proof -
  obtain c w1 where w1: "foldM pool_release (owned_backends c) w = Some w1" "w' = w1\<lparr>cmds := (cmds w1)(i := None)\<rparr>"
    using assms by (auto simp: destroy_def bind_eq_Some_conv simp del: owned_backends.simps split: if_split_asm)
  have "R w w1" using w1(1) by (rule R_foldM) (rule R_release)
  then show ?thesis unfolding w1(2) by (rule R_trans [OF _ R_cmds])
qed

lemma R_drop_ref [kept]: "drop_ref i w = Some w' \<Longrightarrow> R w w'"
  by (auto simp: drop_ref_def split: if_split_asm dest: R_destroy)

lemma R_client_Abort [kept]:
  assumes "client_Abort w = Some w'"
  shows "R w w'"
proof (cases "client_aborted w")
  case False
  have "R w (w\<lparr>client_aborted := True, active_cmd_queue := []\<rparr>)" by (rule R_trans [OF R_aborted R_queue])
  then have "R w (log_ops [Client_Cancel Read_Timer, Client_Cancel Write_Timer, Client_Close]
      (w\<lparr>client_aborted := True, active_cmd_queue := []\<rparr>))"
    by (rule R_trans [OF _ R_log]) simp
  moreover have "R (log_ops [Client_Cancel Read_Timer, Client_Cancel Write_Timer, Client_Close]
      (w\<lparr>client_aborted := True, active_cmd_queue := []\<rparr>)) w'"
    using assms False by (auto simp: client_Abort_def intro: R_foldM R_drop_ref)
  ultimately show ?thesis by (rule R_trans)
qed (use assms in \<open>simp add: client_Abort_def\<close>)

lemma R_WriteReply [kept]: "WriteReply p n i ko w = Some w' \<Longrightarrow> R w w'"
  by (auto simp: WriteReply_def split: if_split_asm intro: R_trans [OF R_trans [OF R_writing R_UpdateTimer] R_log])

lemma R_TryWriteReply [kept]: "TryWriteReply i k w = Some w' \<Longrightarrow> R w w'"
  by (auto simp: TryWriteReply_def bind_eq_Some_conv Let_def split: if_split_asm dest!: kept intro: R_trans)

end

section \<open>Commands\<close>

context world_rel
begin

lemma R_write_query [kept]: "write_query k seg w = Some w' \<Longrightarrow> R w w'"
  by (auto simp: write_query_def dest: kept)

lemma R_write_const [kept]: "write_const k bs w = Some w' \<Longrightarrow> R w w'"
  by (auto simp: write_const_def dest: kept)

lemma R_forward_query [kept]: "forward_query k w = Some w' \<Longrightarrow> R w w'"
  by (auto simp: forward_query_def Let_def dest!: kept intro: R_before)

lemma R_check [kept]:
  assumes "check_query_recv_complete i w = Some w'"
  shows "R w w'"
proof -
  obtain c where "cmds w i = Some c"
    using assms by (auto simp: check_query_recv_complete_def bind_eq_Some_conv)
  with assms show ?thesis
    by (cases "cmd_data c") (auto simp: check_query_recv_complete_def Let_def dest: kept)
qed

lemma R_base_StartWriteQuery [kept]: "base_StartWriteQuery i w = Some w' \<Longrightarrow> R w w'"
  by (auto simp: base_StartWriteQuery_def bind_eq_Some_conv dest!: kept intro: R_trans)

lemma R_message [kept]:
  "message_StartWriteReply i msg w = Some w' \<Longrightarrow> R w w'" "message_StartWriteQuery i msg w = Some w' \<Longrightarrow> R w w'"
  by (auto simp: message_StartWriteReply_def message_StartWriteQuery_def bind_eq_Some_conv split: if_split_asm
      dest!: kept)

lemma R_get_start [kept]: "get_start_subquery i s w = Some w' \<Longrightarrow> R w w'"
  by (auto simp: get_start_subquery_def bind_eq_Some_conv case_list_Some dest!: kept intro: R_trans)

lemma R_mget_start [kept]: "mget_start_subquery i s w = Some w' \<Longrightarrow> R w w'"
  by (auto simp: mget_start_subquery_def bind_eq_Some_conv dest!: kept intro: R_trans)

lemma R_starts [kept]:
  "foldM (get_start_subquery i \<circ> snd) gs w = Some w' \<Longrightarrow> R w w'"
  "foldM (mget_start_subquery i \<circ> snd) ms w = Some w' \<Longrightarrow> R w w'"
  by (auto elim!: R_foldM dest: R_get_start R_mget_start)

lemma R_mget_StartWriteQuery [kept]: "mget_StartWriteQuery i g w = Some w' \<Longrightarrow> R w w'"
  by (auto simp: mget_StartWriteQuery_def bind_eq_Some_conv dest!: kept intro: R_trans)

lemma R_mset_activate: "mset_activate i s (d, w) = Some (d', w') \<Longrightarrow> R w w'"
  by (auto simp: mset_activate_def bind_eq_Some_conv Let_def dest!: kept intro: R_trans)

lemma R_mset_Activate [kept]: "mset_ActivateWaitingSubquery i (d, w) = Some (d', w') \<Longrightarrow> R w w'"
  by (auto simp: mset_ActivateWaitingSubquery_def bind_eq_Some_conv dest!: R_foldM_snd dest: R_mset_activate)

lemma R_del_activate: "del_activate i s (d, w) = Some (d', w') \<Longrightarrow> R w w'"
  by (auto simp: del_activate_def bind_eq_Some_conv Let_def dest!: kept intro: R_trans)

lemma R_del_Activate [kept]: "del_ActivateWaitingSubquery i (d, w) = Some (d', w') \<Longrightarrow> R w w'"
  by (auto simp: del_ActivateWaitingSubquery_def bind_eq_Some_conv dest!: R_foldM_snd dest: R_del_activate)

lemma R_mset_StartWriteQuery [kept]: "mset_StartWriteQuery i d w = Some w' \<Longrightarrow> R w w'"
  by (auto simp: mset_StartWriteQuery_def bind_eq_Some_conv dest!: kept intro: R_trans)

lemma R_StartWriteQuery [kept]:
  assumes "StartWriteQuery i w = Some (b, w')"
  shows "R w w'"
proof -
  obtain c where "cmds w i = Some c"
    using assms by (auto simp: StartWriteQuery_def bind_eq_Some_conv)
  with assms show ?thesis
    by (cases "cmd_data c") (auto simp: StartWriteQuery_def bind_eq_Some_conv dest!: kept intro: R_trans)
qed

lemma R_base_Continue [kept]: "base_ContinueWriteQuery i w = Some (b, w') \<Longrightarrow> R w w'"
  by (auto simp: base_ContinueWriteQuery_def bind_eq_Some_conv split: if_split_asm dest!: kept intro: R_trans)

lemma R_mset_Continue [kept]: "mset_ContinueWriteQuery i d w = Some (b, w') \<Longrightarrow> R w w'"
  by (auto simp: mset_ContinueWriteQuery_def bind_eq_Some_conv Let_def split: if_split_asm dest!: kept intro: R_trans)

lemma R_ContinueWriteQuery [kept]:
  assumes "ContinueWriteQuery i w = Some (b, w')"
  shows "R w w'"
proof -
  obtain c where "cmds w i = Some c"
    using assms by (auto simp: ContinueWriteQuery_def bind_eq_Some_conv)
  with assms show ?thesis
    by (cases "cmd_data c") (auto simp: ContinueWriteQuery_def dest: R_base_Continue R_mset_Continue)
qed

subsection \<open>Creation\<close>

lemma R_ctors [kept]:
  "RedisBasicCommand m ba w = Some (c, w') \<Longrightarrow> R w w'" "RedisSetCommand m ba w = Some (c, w') \<Longrightarrow> R w w'"
  "MemcBasicCommand m off w = Some (c, w') \<Longrightarrow> R w w'" "MemcSetCommand m off len w = Some (n, c, w') \<Longrightarrow> R w w'"
  by (auto simp: RedisBasicCommand_def RedisSetCommand_def MemcBasicCommand_def MemcSetCommand_def
      memc_set_ParseQuery_def bind_eq_Some_conv Let_def split: if_split_asm dest: R_allocate)

lemma R_get_push_key: "get_push_key m p q subs w = Some (subs', w') \<Longrightarrow> R w w'"
  by (auto simp: get_push_key_def bind_eq_Some_conv case_option_Some dest!: R_allocate_locked)

lemma R_get_keys: "get_keys m p lim subs w = Some (subs', w') \<Longrightarrow> R w w'"
proof (induction m p lim subs w rule: get_keys.induct)
  case (1 m p lim subs w)
  show ?case
  proof (cases "p < lim")
    case True
    then obtain q subs1 w1 where "find_char (\<lambda>c. c = CHR '' '' \<or> c = CR) (drop p m) p = Some q"
        "get_push_key m p q subs w = Some (subs1, w1)" "get_keys m (q + 1) lim subs1 w1 = Some (subs', w')"
      using 1(2) by (subst (asm) get_keys.simps) (auto simp: bind_eq_Some_conv)
    then show ?thesis using 1(1) [OF True] by (blast intro: R_get_push_key R_trans)
  qed (use 1(2) in \<open>simp add: get_keys.simps\<close>)
qed

lemma R_MemcGetCommand [kept]: "MemcGetCommand m off len w = Some (c, w') \<Longrightarrow> R w w'"
  by (auto simp: MemcGetCommand_def bind_eq_Some_conv Let_def dest: R_get_keys)

lemma R_mget_push_key: "mget_push_key m ba i (s, w) = Some (s', w') \<Longrightarrow> R w w'"
  by (cases s) (auto simp: mget_push_key_def mget_add_key_def bind_eq_Some_conv Let_def case_option_Some dest!: R_allocate_locked)

lemma R_RedisMgetCommand [kept]:
  assumes "RedisMgetCommand m ba w = Some (c, w')"
  shows "R w w'"
proof -
  obtain tot :: size_t and s where f: "foldM (mget_push_key m ba) [Suc 0..<unat tot] (([], [], Endpoint0), w) = Some (s, w')"
    using assms by (auto simp: RedisMgetCommand_def bind_eq_Some_conv)
  let ?R = "\<lambda>(x :: mget_keys \<times> World) (y :: mget_keys \<times> World). R (snd x) (snd y)"
  have "?R (([], [], Endpoint0), w) (s, w')"
    by (rule foldM_rel [where R = ?R, OF f]) (auto intro: R_mget_push_key R_trans)
  then show ?thesis by simp
qed

lemma R_mset_PushSubquery: "mset_PushSubquery ep p n (d, w) = Some (d', w') \<Longrightarrow> R w w'"
  by (auto simp: mset_PushSubquery_def bind_eq_Some_conv Let_def case_option_Some dest!: R_allocate_locked)

lemma R_mset_push_pairs [kept]: "mset_push_pairs m bs (d, w) = Some (d', w') \<Longrightarrow> R w w'"
proof (induction m bs "(d, w)" arbitrary: d w rule: mset_push_pairs.induct)
  case (1 m k v rest d w)
  then show ?case
    by (auto simp: bind_eq_Some_conv) (metis R_mset_PushSubquery R_trans surj_pair)
qed auto

lemma R_RedisMsetCommand [kept]: "RedisMsetCommand m ba w = Some (c, w') \<Longrightarrow> R w w'"
  by (auto simp: RedisMsetCommand_def bind_eq_Some_conv Let_def dest: R_mset_push_pairs)

lemma R_del_push_key: "del_push_key m b (d, w) = Some (d', w') \<Longrightarrow> R w w'"
  by (auto simp: del_push_key_def del_PushSubquery_def bind_eq_Some_conv Let_def case_option_Some
      dest!: R_allocate_locked)

lemma R_del_push_keys: "del_push_keys m bs (d, w) = Some (d', w') \<Longrightarrow> R w w'"
proof (induction m bs "(d, w)" arbitrary: d w rule: del_push_keys.induct)
  case (3 m b b' bs d w)
  then show ?case
    by (auto simp: bind_eq_Some_conv) (metis R_del_push_key R_trans surj_pair)
qed (auto simp: bind_eq_Some_conv split: if_split_asm dest: R_del_push_key)

lemma R_RedisDelCommand [kept]: "RedisDelCommand m ba w = Some (c, w') \<Longrightarrow> R w w'"
  by (auto simp: RedisDelCommand_def bind_eq_Some_conv Let_def dest: R_del_push_keys)

end

section \<open>The queue\<close>

context world_rel
begin

lemma R_made: "made n (c, w1) = (k, r, w') \<Longrightarrow> R w w1 \<Longrightarrow> R w w'"
  by (auto simp: made_def new_command_def Let_def intro: R_trans [OF _ R_trans [OF R_cmds R_next_cmd]])

lemma R_need_more: "need_more w = Some (n, r, w') \<Longrightarrow> R w w'"
  by (auto simp: need_more_def)

lemma R_MemcSet_release:
  "MemcSetCommand m off len w = Some (n, c, w1) \<Longrightarrow> foldM pool_release ks w1 = Some w2 \<Longrightarrow> R w w2"
  by (rule R_trans [OF R_ctors(4) R_foldM]) (auto intro: R_release)

lemmas R_all_ctors = R_ctors(1-3) R_MemcGetCommand R_RedisMgetCommand R_RedisMsetCommand R_RedisDelCommand

lemma R_create_redis:
  assumes "create_redis m off sz w = Some (n, r, w')"
  shows "R w w'"
proof (cases "\<exists>ba tot. BulkArray m off sz = Some ba \<and> total_bulks m ba = Some tot \<and> tot \<noteq> 0 \<and> present_bulks ba \<noteq> 0")
  case False
  with assms show ?thesis
    by (auto simp: create_redis_def bind_eq_Some_conv split: if_split_asm dest!: R_all_ctors intro: R_need_more R_made)
next
  case True
  then obtain ba tot where ba: "BulkArray m off sz = Some ba" "total_bulks m ba = Some tot" "tot \<noteq> 0"
      "present_bulks ba \<noteq> 0" by blast
  with assms obtain name absent where n: "array_at ba 0 = Some name" "absent_size m name = Some absent"
    by (auto simp: create_redis_def bind_eq_Some_conv)
  show ?thesis
  proof (cases "absent > 0")
    case True
    with assms ba n show ?thesis by (auto simp: create_redis_def intro: R_need_more)
  next
    case False
    with assms ba n obtain t where "GetRedisCommandType m name = Some t"
      by (auto simp: create_redis_def bind_eq_Some_conv)
    with assms ba n False show ?thesis
      by (cases t) (auto simp: create_redis_def bind_eq_Some_conv odd_iff_mod_2_eq_one [symmetric] split: if_split_asm
          dest!: R_all_ctors intro: R_need_more R_made)
  qed
qed

lemma R_create_memc:
  assumes "create_memc m off sz line w = Some (n, r, w')"
  shows "R w w'"
proof -
  obtain t where "GetMemcCommandType m off line = Some t"
    using assms by (auto simp: create_memc_def bind_eq_Some_conv)
  with assms show ?thesis
    by (cases t) (auto simp: create_memc_def bind_eq_Some_conv split: if_split_asm
        dest!: R_all_ctors intro: R_MemcSet_release R_ctors(4) R_need_more R_made)
qed

lemma R_CreateCommand [kept]: "CreateCommand off n w = Some (k, r, w') \<Longrightarrow> R w w'"
  by (auto simp: CreateCommand_def Let_def bind_eq_Some_conv split: option.split_asm if_split_asm
      intro: R_create_redis R_create_memc R_need_more R_made)

lemma R_queued: "StartWriteQuery i (w\<lparr>active_cmd_queue := q\<rparr>) = Some (b, w') \<Longrightarrow> R w w'"
  by (rule R_trans [OF R_queue R_StartWriteQuery])

lemma R_read_drop: "drop_ref i (TryReadMoreQuery w) = Some w' \<Longrightarrow> R w w'"
  by (rule R_trans [OF R_TryReadMoreQuery R_drop_ref])

lemma R_process_one:
  assumes "process_one w = Some (go, w')"
  shows "R w w'"
proof -
  obtain n cmd w1 where c:
      "CreateCommand (unprocessed_data (client_buffer w)) (received_bytes (client_buffer w)) w = Some (n, cmd, w1)"
    using assms by (auto simp: process_one_def bind_eq_Some_conv)
  have "R w1 w'"
  proof (cases "n = 0")
    case True
    with assms c show ?thesis by (auto simp: process_one_def Let_def bind_eq_Some_conv case_option_Some dest!: R_read_drop)
  next
    case False
    with assms c obtain wp i nc w2 w3 where w:
        "client_buf (\<lambda>b. Some (update_parsed_bytes n b)) w1 = Some wp"
        "StartWriteQuery i (wp\<lparr>active_cmd_queue := active_cmd_queue wp @ [i]\<rparr>) = Some (nc, w2)"
        "client_buf (\<lambda>b. update_processed_bytes (unprocessed_bytes b) b) w2 = Some w3"
        "w' = w3 \<or> w' = TryReadMoreQuery w3"
      by (auto simp: process_one_def bind_eq_Some_conv split: if_split_asm)
    have "R w1 w3" by (rule R_trans [OF R_state_ops(1) [OF w(1)] R_trans [OF R_queued [OF w(2)] R_state_ops(1) [OF w(3)]]])
    with w(4) show ?thesis by auto
  qed
  then show ?thesis by (rule R_trans [OF R_CreateCommand [OF c]])
qed

lemma R_ProcessUnparsedQuery [kept]: "ProcessUnparsedQuery w = Some w' \<Longrightarrow> R w w'"
proof (induction w rule: ProcessUnparsedQuery.induct)
  case (1 w)
  show ?case
  proof (cases "length (active_cmd_queue w) < kPipelineActiveLimit \<and> unparsed_received_bytes (client_buffer w) > 0")
    case True
    with 1(2) obtain go w1 where g: "process_one w = Some (go, w1)"
        "(if go then ProcessUnparsedQuery w1 else Some w1) = Some w'"
      by (subst (asm) ProcessUnparsedQuery.simps) (auto simp: bind_eq_Some_conv)
    have "R w w1" using g(1) by (rule R_process_one)
    moreover have "R w1 w'" using g 1(1) [OF True g(1)] by (cases go) auto
    ultimately show ?thesis by (rule R_trans)
  qed (use 1 in \<open>auto simp: ProcessUnparsedQuery.simps\<close>)
qed

lemma R_base_StartWriteReply [kept]: "base_StartWriteReply i w = Some w' \<Longrightarrow> R w w'"
  by (auto simp: base_StartWriteReply_def bind_eq_Some_conv case_option_Some split: if_split_asm dest: R_TryWriteReply)

lemma R_pop_command [kept]:
  assumes "pop_command w = Some w'"
  shows "R w w'"
proof -
  obtain i q where "drop_ref i ((if q = [] then TryReadMoreQuery w else w)\<lparr>active_cmd_queue := q\<rparr>) = Some w'"
    using assms by (auto simp: pop_command_def Let_def split: list.split_asm)
  then have "R ((if q = [] then TryReadMoreQuery w else w)\<lparr>active_cmd_queue := q\<rparr>) w'" by (rule R_drop_ref)
  moreover have "R w ((if q = [] then TryReadMoreQuery w else w)\<lparr>active_cmd_queue := q\<rparr>)"
    by (rule R_trans [OF _ R_queue]) simp
  ultimately show ?thesis by (rule R_trans [rotated])
qed

lemma R_resume [kept]: "resume_reading w = Some w' \<Longrightarrow> R w w'"
  by (auto simp: resume_reading_def bind_eq_Some_conv split: if_split_asm dest: R_ProcessUnparsedQuery)

lemma R_rotation:
  "RotateReplyingCommand w = Some w' \<Longrightarrow> R w w'"
  "StartWriteReply i w = Some w' \<Longrightarrow> R w w'"
  "get_NextBackendStartReply i w = Some w' \<Longrightarrow> R w w'"
  "get_RotateReplyingBackend i w = Some w' \<Longrightarrow> R w w'"
proof (induction w and i w and i w and i w arbitrary: w' and w' and w' and w'
    rule: RotateReplyingCommand_StartWriteReply_get_NextBackendStartReply_get_RotateReplyingBackend.induct)
  case (1 w)
  then obtain w1 where w1: "pop_command w = Some w1"
    by (subst (asm) RotateReplyingCommand.simps) (auto simp: bind_eq_Some_conv)
  have r: "R w w1" using w1 by (rule R_pop_command)
  show ?case
  proof (cases "active_cmd_queue w1")
    case Nil
    with 1(2) w1 r show ?thesis by (simp add: RotateReplyingCommand.simps)
  next
    case (Cons j q)
    with 1(2) w1 obtain w2 where w2: "StartWriteReply j w1 = Some w2" "resume_reading w2 = Some w'"
      by (auto simp: RotateReplyingCommand.simps bind_eq_Some_conv)
    from R_trans [OF r R_trans [OF 1(1) [OF w1 Cons w2(1)] R_resume [OF w2(2)]]] show ?thesis .
  qed
next
  case (2 i w)
  obtain c where c: "cmds w i = Some c"
    using 2(2) by (auto simp: StartWriteReply.simps bind_eq_Some_conv)
  with 2 show ?case
    by (cases "cmd_data c") (auto simp: StartWriteReply.simps dest: R_message R_base_StartWriteReply)
next
  case (3 i w)
  obtain c where c: "cmds w i = Some c"
    using 3(2) by (auto simp: get_NextBackendStartReply.simps bind_eq_Some_conv)
  with 3(2) obtain g where g: "cmd_data c = MemcGet g"
    by (cases "cmd_data c") (auto simp: get_NextBackendStartReply.simps)
  show ?case
  proof (cases "get_waiting g")
    case Nil
    with 3(2) c g show ?thesis by (auto simp: get_NextBackendStartReply.simps dest: kept)
  next
    case (Cons k ks)
    with 3(2) c g obtain w1 b where w1: "set_data i (MemcGet (g\<lparr>get_waiting := ks\<rparr>)) w = Some w1" "conns (pool w1) k = Some b"
        "(if finished b then get_RotateReplyingBackend i w1
          else do { w \<leftarrow> TryWriteReply i k w1; set_replying i (Some k) w }) = Some w'"
      by (auto simp: get_NextBackendStartReply.simps bind_eq_Some_conv)
    have "R w w1" using w1(1) by (rule kept)
    moreover have "R w1 w'"
      using w1(3) 3(1) [OF c g Cons w1(1,2)]
      by (cases "finished b") (auto simp: bind_eq_Some_conv dest!: kept intro: R_trans)
    ultimately show ?thesis by (rule R_trans)
  qed
next
  case (4 i w)
  obtain c where c: "cmds w i = Some c"
    using 4(3) by (auto simp: get_RotateReplyingBackend.simps bind_eq_Some_conv)
  with 4(3) obtain g where g: "cmd_data c = MemcGet g"
    by (cases "cmd_data c") (auto simp: get_RotateReplyingBackend.simps)
  let ?n = "completed_backends g + 1"
  obtain w1 where w1: "set_data i (MemcGet (g\<lparr>completed_backends := ?n\<rparr>)) w = Some w1"
      "(if ?n < of_nat (length (get_subqueries g)) then get_NextBackendStartReply i w1 else RotateReplyingCommand w1) = Some w'"
    using 4(3) c g by (auto simp: get_RotateReplyingBackend.simps bind_eq_Some_conv Let_def)
  have "R w w1" using w1(1) by (rule kept)
  moreover have "R w1 w'"
    using w1(2) 4(1) [OF c g refl w1(1)] 4(2) [OF c g refl w1(1)]
    by (cases "?n < of_nat (length (get_subqueries g))") auto
  ultimately show ?case by (rule R_trans)
qed

lemmas R_rotation_kept [kept] = R_rotation

end

section \<open>Callbacks\<close>

context world_rel
begin

lemma R_parse:
  "parse_with k f w = Some (ok, w') \<Longrightarrow> (\<And>b ok b'. f b = Some (ok, b') \<Longrightarrow> remote_endpoint b' = remote_endpoint b)
   \<Longrightarrow> R w w'"
  by (auto simp: parse_with_def bind_eq_Some_conv intro: R_conn)

lemma R_parses [kept]:
  "parse_with k (ParseReply prot) w = Some (ok, w') \<Longrightarrow> R w w'"
  "parse_with k (MemcGetParseReply is_last) w = Some (ok, w') \<Longrightarrow> R w w'"
  by (auto simp: MemcGetParseReply_def elim!: R_parse dest: same_peer_ParseReply same_peer_memc_get)

lemma R_set_then_conn:
  assumes "set_data i d w = Some w1" and "conns (pool w) k = Some b" and "remote_endpoint b' = remote_endpoint b"
  shows "R w (w1\<lparr>pool := put_conn k b' (pool w1)\<rparr>)"
proof -
  have "pool w1 = pool w" using assms(1) by (auto simp: set_data_def cmd_upd_def)
  then have "R w1 (w1\<lparr>pool := put_conn k b' (pool w1)\<rparr>)" using R_conn [of w1 k b b'] assms(2,3) by simp
  then show ?thesis by (rule R_trans [OF R_state_ops(4) [OF assms(1)]])
qed

lemma R_mget_parse [kept]:
  assumes "mget_parse i k w = Some (ok, w')"
  shows "R w w'"
proof -
  obtain g b where g: "the_mget i w = Some g" "conns (pool w) k = Some b"
    using assms by (auto simp: mget_parse_def bind_eq_Some_conv)
  with assms show ?thesis
    by (cases "mget_waiting g") (auto simp: mget_parse_def bind_eq_Some_conv Let_def
        intro: R_set_then_conn [OF _ _ same_peer_MgetParseReply])
qed

lemma R_del_parse [kept]: "del_parse i k w = Some (ok, w') \<Longrightarrow> R w w'"
  by (auto simp: del_parse_def bind_eq_Some_conv intro: R_set_then_conn [OF _ _ same_peer_DelParseReply])

lemma R_callback_ops [kept]:
  "reply_written i k w = Some w' \<Longrightarrow> R w w'" "TryMarkLastBackend i k w = Some w' \<Longrightarrow> R w w'"
  "discard_reply k w = Some w' \<Longrightarrow> R w w'" "read_if_incomplete i w = Some w' \<Longrightarrow> R w w'"
  "mset_set_sub i s q w = Some w' \<Longrightarrow> R w w'" "del_set_sub i k d w = Some w' \<Longrightarrow> R w w'"
  "SetBackendReplyCount k n w = Some w' \<Longrightarrow> R w w'" "TryActivateReplyingBackend i k w = Some (r, w') \<Longrightarrow> R w w'"
  "mset_drop i k w = Some w' \<Longrightarrow> R w w'" "del_drop i k w = Some w' \<Longrightarrow> R w w'"
  "reply_or_wait i k w = Some w' \<Longrightarrow> R w w'"
  by (auto simp: reply_written_def TryMarkLastBackend_def discard_reply_def read_if_incomplete_def mset_set_sub_def
      del_set_sub_def SetBackendReplyCount_def TryActivateReplyingBackend_def mset_drop_def del_drop_def
      reply_or_wait_def bind_eq_Some_conv Let_def case_option_Some split: if_split_asm dest!: kept intro: R_trans)

lemma R_mset_part_sent [kept]: "mset_part_sent i k s q w = Some w' \<Longrightarrow> R w w'"
  by (auto simp: mset_part_sent_def bind_eq_Some_conv split: if_split_asm dest!: kept) (meson R_trans)+

lemma R_errors [kept]:
  "base_OnBackendRecoverableError i k ec w = Some w' \<Longrightarrow> R w w'"
  "get_BackendReadyToReply i k w = Some w' \<Longrightarrow> R w w'"
  by (auto simp: base_OnBackendRecoverableError_def get_BackendReadyToReply_def bind_eq_Some_conv
      split: if_split_asm dest!: kept intro: R_trans)

lemma R_get_error [kept]: "get_OnBackendRecoverableError i k ec w = Some w' \<Longrightarrow> R w w'"
  by (auto simp: get_OnBackendRecoverableError_def bind_eq_Some_conv split: if_split_asm dest!: kept intro: R_trans)

lemma R_mget_ready [kept]: "mget_BackendReadyToReply i k w = Some w' \<Longrightarrow> R w w'"
  by (auto simp: mget_BackendReadyToReply_def bind_eq_Some_conv case_list_Some split: if_split_asm
      dest!: kept intro: R_trans)

lemma R_more_errors [kept]:
  "mget_OnBackendRecoverableError i k w = Some w' \<Longrightarrow> R w w'" "del_reply_count i k w = Some w' \<Longrightarrow> R w w'"
  "mset_OnBackendRecoverableError i k ec w = Some w' \<Longrightarrow> R w w'"
  by (auto simp: mget_OnBackendRecoverableError_def del_reply_count_def mset_OnBackendRecoverableError_def
      bind_eq_Some_conv split: if_split_asm dest!: kept intro: R_trans)

lemma R_del_error [kept]: "del_OnBackendRecoverableError i k w = Some w' \<Longrightarrow> R w w'"
  by (auto simp: del_OnBackendRecoverableError_def bind_eq_Some_conv split: if_split_asm dest!: kept intro: R_trans)

lemma R_queries_sent:
  "base_OnWriteQueryFinished i k ec w = Some w' \<Longrightarrow> R w w'" "get_OnWriteQueryFinished i k ec w = Some w' \<Longrightarrow> R w w'"
  "mget_OnWriteQueryFinished i k ec w = Some w' \<Longrightarrow> R w w'" "del_OnWriteQueryFinished i k ec w = Some w' \<Longrightarrow> R w w'"
  by (auto simp: base_OnWriteQueryFinished_def get_OnWriteQueryFinished_def mget_OnWriteQueryFinished_def
      del_OnWriteQueryFinished_def bind_eq_Some_conv Let_def case_list_Some
      split: if_split_asm dest!: kept intro: R_trans)

lemma R_mset_sent: "mset_OnWriteQueryFinished i k ec w = Some w' \<Longrightarrow> R w w'"
  by (auto simp: mset_OnWriteQueryFinished_def bind_eq_Some_conv case_list_Some split: if_split_asm Phase.split_asm
      dest!: kept intro: R_trans)

lemma R_OnWriteQueryFinished [kept]:
  assumes "OnWriteQueryFinished i k ec w = Some w'"
  shows "R w w'"
proof -
  obtain c where "cmds w i = Some c"
    using assms by (auto simp: OnWriteQueryFinished_def bind_eq_Some_conv)
  with assms show ?thesis
    by (cases "cmd_data c") (auto simp: OnWriteQueryFinished_def intro: R_queries_sent R_mset_sent)
qed

lemma R_received:
  "base_OnBackendReplyReceived i k ec w = Some w' \<Longrightarrow> R w w'" "get_OnBackendReplyReceived i k ec w = Some w' \<Longrightarrow> R w w'"
  "mget_OnBackendReplyReceived i k ec w = Some w' \<Longrightarrow> R w w'" "mset_OnBackendReplyReceived i k ec w = Some w' \<Longrightarrow> R w w'"
  "del_OnBackendReplyReceived i k ec w = Some w' \<Longrightarrow> R w w'"
  by (auto simp: base_OnBackendReplyReceived_def get_OnBackendReplyReceived_def mget_OnBackendReplyReceived_def
      mset_OnBackendReplyReceived_def del_OnBackendReplyReceived_def bind_eq_Some_conv Let_def
      split: if_split_asm dest!: kept intro: R_trans)

lemma R_OnBackendReplyReceived [kept]:
  assumes "OnBackendReplyReceived i k ec w = Some w'"
  shows "R w w'"
proof -
  obtain c where "cmds w i = Some c"
    using assms by (auto simp: OnBackendReplyReceived_def bind_eq_Some_conv)
  with assms show ?thesis
    by (cases "cmd_data c") (auto simp: OnBackendReplyReceived_def intro: R_received)
qed

end

section \<open>Handlers\<close>

context world_rel
begin

lemma R_mget_next [kept]: "mget_NextBackendStartReply i w = Some w' \<Longrightarrow> R w w'"
  by (auto simp: mget_NextBackendStartReply_def bind_eq_Some_conv case_list_Some split: if_split_asm dest!: kept)

lemma R_rotate_backends [kept]:
  "mget_RotateReplyingBackend i w = Some w' \<Longrightarrow> R w w'" "base_RotateReplyingBackend i w = Some w' \<Longrightarrow> R w w'"
  by (auto simp: mget_RotateReplyingBackend_def base_RotateReplyingBackend_def bind_eq_Some_conv split: if_split_asm
      dest!: kept)

lemma R_mget_written [kept]: "mget_OnWriteReplyFinished i ko ec w = Some w' \<Longrightarrow> R w w'"
  by (auto simp: mget_OnWriteReplyFinished_def bind_eq_Some_conv case_list_Some case_option_Some split: if_split_asm
      dest!: kept intro: R_trans)

lemma R_RotateReplyingBackend [kept]:
  assumes "RotateReplyingBackend i w = Some w'"
  shows "R w w'"
proof -
  obtain c where "cmds w i = Some c"
    using assms by (auto simp: RotateReplyingBackend_def bind_eq_Some_conv)
  with assms show ?thesis
    by (cases "cmd_data c") (auto simp: RotateReplyingBackend_def dest: R_rotate_backends R_rotation)
qed

lemma R_base_written [kept]: "base_OnWriteReplyFinished i k ec w = Some w' \<Longrightarrow> R w w'"
  by (auto simp: base_OnWriteReplyFinished_def bind_eq_Some_conv split: if_split_asm dest!: kept intro: R_trans)

lemma R_OnWriteReplyFinished [kept]:
  assumes "OnWriteReplyFinished i ko ec w = Some w'"
  shows "R w w'"
proof -
  obtain c where "cmds w i = Some c"
    using assms by (auto simp: OnWriteReplyFinished_def bind_eq_Some_conv)
  with assms show ?thesis
    by (cases "cmd_data c"; cases ko) (auto simp: OnWriteReplyFinished_def intro: R_client_Abort
        R_RotateReplyingBackend R_base_written R_mget_written)
qed

lemma R_hold: "R w (hold i w)"
  by (simp add: hold_def R_held)

lemma R_unhold: "unhold i w = Some w' \<Longrightarrow> R w w'"
  unfolding unhold_def by (rule R_trans [OF R_held R_drop_ref])

lemma R_run_callback:
  assumes "run_callback i f w = Some w'" and "\<And>w w'. f w = Some w' \<Longrightarrow> R w w'"
  shows "R w w'"
proof (cases "cmds w i = None")
  case False
  with assms(1) obtain w1 where w1: "f (hold i w) = Some w1" "unhold i w1 = Some w'"
    by (auto simp: run_callback_def bind_eq_Some_conv)
  from R_trans [OF R_hold R_trans [OF assms(2) [OF w1(1)] R_unhold [OF w1(2)]]] show ?thesis .
qed (use assms in \<open>simp add: run_callback_def\<close>)

lemma R_query_sent: "query_sent k ec w = Some w' \<Longrightarrow> R w w'"
  by (auto simp: query_sent_def bind_eq_Some_conv elim!: R_run_callback dest: R_OnWriteQueryFinished)

lemma R_reply_received: "reply_received k ec w = Some w' \<Longrightarrow> R w w'"
  by (auto simp: reply_received_def bind_eq_Some_conv elim!: R_run_callback dest: R_OnBackendReplyReceived)

lemma R_run_act: "run_act k act w = Some w' \<Longrightarrow> R w w'"
  by (cases act) (auto dest: R_query_sent R_reply_received R_conn_calls intro: R_emit)

lemma R_conn_event:
  assumes "conn_event k f w = Some w'" and "\<And>b r. f b = Some r \<Longrightarrow> remote_endpoint (fst r) = remote_endpoint b"
  shows "R w w'"
proof -
  obtain b b' acts where b: "conns (pool w) k = Some b" "f b = Some (b', acts)"
      "foldM (run_act k) acts (w\<lparr>pool := put_conn k b' (pool w)\<rparr>) = Some w'"
    using assms(1) by (auto simp: conn_event_def bind_eq_Some_conv)
  have "R w (w\<lparr>pool := put_conn k b' (pool w)\<rparr>)" using b(1) assms(2) [OF b(2)] by (simp add: R_conn)
  moreover have "R (w\<lparr>pool := put_conn k b' (pool w)\<rparr>) w'" using b(3) by (rule R_foldM) (rule R_run_act)
  ultimately show ?thesis by (rule R_trans)
qed

lemma R_conn_handle: "conn_handle k act e w = Some w' \<Longrightarrow> R w w'"
  by (cases act; cases e)
    (auto simp: conn_handle_def elim!: R_conn_event dest: R_query_sent same_peer_handlers)

lemma R_unparsed [kept]:
  assumes "ParseUnparsedPart i w = Some (ok, w')"
  shows "R w w'"
proof -
  obtain c where "cmds w i = Some c"
    using assms by (auto simp: ParseUnparsedPart_def bind_eq_Some_conv)
  with assms show ?thesis
    by (cases "cmd_data c") (auto simp: ParseUnparsedPart_def bind_eq_Some_conv
        dest!: R_trans [OF R_client_buffer R_state_ops(4)])
qed

lemma R_mset_unparsed: "mset_ProcessUnparsedPart i d w = Some (ok, w') \<Longrightarrow> R w w'"
  by (auto simp: mset_ProcessUnparsedPart_def bind_eq_Some_conv Let_def split: if_split_asm dest!: kept)
    (meson R_trans)+

lemma R_del_push_fold: "foldM (del_push_key m) bs (d, w) = Some (d', w') \<Longrightarrow> R w w'"
  by (auto dest!: R_foldM_snd dest: R_del_push_key)

lemma R_del_unparsed: "del_ProcessUnparsedPart i d w = Some (ok, w') \<Longrightarrow> R w w'"
  by (auto simp: del_ProcessUnparsedPart_def bind_eq_Some_conv Let_def split: if_split_asm dest!: R_del_push_fold kept)
    (meson R_trans)+

lemma R_ProcessUnparsedPart [kept]:
  assumes "ProcessUnparsedPart i w = Some (ok, w')"
  shows "R w w'"
proof -
  obtain c where "cmds w i = Some c"
    using assms by (auto simp: ProcessUnparsedPart_def bind_eq_Some_conv)
  with assms show ?thesis
    by (cases "cmd_data c") (auto simp: ProcessUnparsedPart_def dest: R_mset_unparsed R_del_unparsed)
qed

lemma R_read_rest [kept]: "read_rest i w = Some w' \<Longrightarrow> R w w'"
  by (auto simp: read_rest_def bind_eq_Some_conv split: if_split_asm dest!: kept intro: R_trans)

lemma R_send_parsed_part [kept]: "send_parsed_part i w = Some w' \<Longrightarrow> R w w'"
  by (auto simp: send_parsed_part_def bind_eq_Some_conv split: if_split_asm dest!: kept intro: R_trans)

lemma R_read_for_command [kept]: "read_for_command i w = Some w' \<Longrightarrow> R w w'"
  by (auto simp: read_for_command_def bind_eq_Some_conv split: if_split_asm dest!: kept intro: R_trans)

lemma R_HandleRead:
  assumes "client_HandleRead off r w = Some w'"
  shows "if client_aborted w then R w w' else R (w\<lparr>is_reading_query := False\<rparr>) w'"
proof -
  let ?w = "log_ops [Client_Cancel Read_Timer] w"
  let ?v = "?w\<lparr>is_reading_query := False\<rparr>"
  have "?v = log_ops [Client_Cancel Read_Timer] (w\<lparr>is_reading_query := False\<rparr>)"
    by (simp add: log_ops_def World.equality)
  then have v: "R (w\<lparr>is_reading_query := False\<rparr>) ?v" by (simp add: R_log)
  have "R ?v w'" if "\<not> client_aborted w"
  proof (cases r)
    case (Received xs)
    with that assms obtain w1 w2 where w:
        "client_buf (\<lambda>b. Some (update_received_bytes (of_nat (length xs)) (mem_fill off xs b)))
           (count_up Bytes_From_Clients (of_nat (length xs)) ?v) = Some w1"
        "dec_client_lock w1 = Some w2"
        "ProcessUnparsedQuery w2 = Some w' \<or> (\<exists>i w3. read_for_command i (hold i w2) = Some w3 \<and> unhold i w3 = Some w')"
      by (auto simp: client_HandleRead_def Let_def bind_eq_Some_conv log_ops_def split: if_split_asm)
    have "R ?v w2" by (rule R_trans [OF R_count_up R_trans [OF R_state_ops(1) [OF w(1)] R_state_ops(2) [OF w(2)]]])
    moreover have "R w2 w'"
      using w(3) by (auto dest!: R_ProcessUnparsedQuery R_read_for_command R_unhold intro: R_trans [OF R_hold R_trans])
    ultimately show ?thesis by (rule R_trans)
  qed (use that assms in \<open>auto simp: client_HandleRead_def log_ops_def dest: R_client_Abort\<close>)
  moreover have "R w w'" if "client_aborted w"
    using that assms by (auto simp: client_HandleRead_def log_ops_def intro: R_log [unfolded log_ops_def])
  ultimately show ?thesis using R_trans [OF v] by auto
qed

lemma R_HandleWrite:
  assumes "client_HandleWrite p n i ko err t w = Some w'"
  shows "R w w'"
proof -
  let ?w = "log_ops [Client_Cancel Write_Timer] w"
  let ?v = "if err then ?w else count_up Bytes_To_Clients t ?w"
  have "R ?w ?v" by simp
  then have v: "R w ?v" by (rule R_trans [OF R_log, rotated]) simp
  have "R ?v w'"
  proof (cases "\<not> err \<and> t < n")
    case True
    with assms show ?thesis by (auto simp: client_HandleWrite_def Let_def dest: R_WriteReply)
  next
    case False
    with assms have "run_callback i (OnWriteReplyFinished i ko (if err then E_WRITE_REPLY else E_SUCCESS))
        (?v\<lparr>is_writing_reply := False\<rparr>) = Some w'"
      by (auto simp: client_HandleWrite_def Let_def split: if_split_asm)
    then have "R (?v\<lparr>is_writing_reply := False\<rparr>) w'" by (rule R_run_callback) (rule R_OnWriteReplyFinished)
    then show ?thesis by (rule R_trans [OF R_writing])
  qed
  with v show ?thesis by (rule R_trans)
qed

lemma R_OnTimeout: "client_OnTimeout t oa w = Some w' \<Longrightarrow> R w w'"
  by (auto simp: client_OnTimeout_def split: if_split_asm dest!: R_client_Abort intro: R_trans [OF R_count_up])

theorem R_handle:
  assumes "handle p e w = Some w'" and "\<not> is_client_read p"
  shows "R w w'"
proof (cases p)
  case (Conn_Op k act)
  with assms show ?thesis by (simp add: handle_def R_conn_handle)
next
  case (Client_Write q n i ko)
  with assms show ?thesis by (cases e) (simp_all add: handle_def R_HandleWrite)
next
  case (Client_Arm t ms)
  with assms show ?thesis by (cases e) (simp_all add: handle_def R_OnTimeout)
qed (use assms in \<open>simp_all add: handle_def\<close>)

end

end
