(* ===== verification/Client_Order.thy ===== *)
theory Client_Order
  imports Client_Conn
begin

text \<open>
  The order of replies.  The invariant of the event loop relates the queue of commands, the commands
  that are alive and the writes to the client that are in flight.
\<close>

section \<open>The invariant\<close>

text \<open>
  \<open>L\<close> is a lower bound of the commands in the queue and of those whose reply is being written, \<open>H\<close> are the commands that functions on the call stack hold, \<open>X\<close> those that are about to be queued or
  destroyed.
\<close>

fun writer :: "op \<Rightarrow> cmd_id" where
  "writer (Client_Write _ _ i _) = i"
| "writer _ = 0"

definition writers :: "World \<Rightarrow> cmd_id list" where
  "writers w = map writer (writes w)"

definition loop_inv :: "cmd_id \<Rightarrow> cmd_id list \<Rightarrow> cmd_id set \<Rightarrow> World \<Rightarrow> bool" where
  "loop_inv L H X w \<longleftrightarrow>
     held w = H
     \<and> sorted_wrt (<) (active_cmd_queue w) \<and> length (active_cmd_queue w) \<le> kPipelineActiveLimit
     \<and> set (active_cmd_queue w) \<subseteq> dom (cmds w)
     \<and> dom (cmds w) \<subseteq> set (active_cmd_queue w) \<union> set H \<union> X
     \<and> (\<forall>i\<in>dom (cmds w). i < next_cmd w)
     \<and> (\<forall>i\<in>set (writers w). i < next_cmd w \<and> (\<forall>j\<in>set (active_cmd_queue w). i \<le> j))
     \<and> L \<le> next_cmd w \<and> (\<forall>i\<in>set (active_cmd_queue w) \<union> set (writers w). L \<le> i)
     \<and> length (writers w) = (if is_writing_reply w then 1 else 0)
     \<and> (client_aborted w \<longrightarrow> active_cmd_queue w = [])"

text \<open>An operation keeps the invariant, and does not bring an aborted client back.\<close>

definition keeps :: "World \<Rightarrow> World \<Rightarrow> bool" where
  "keeps w w' \<longleftrightarrow> (\<forall>L H X. loop_inv L H X w \<longrightarrow> loop_inv L H X w')"

named_theorems keeping \<open>operations that keep the invariant of the event loop\<close>

lemma keeps_refl [simp, intro!]: "keeps w w"
  by (simp add: keeps_def)

lemma keeps_trans [trans]: "keeps a b \<Longrightarrow> keeps b c \<Longrightarrow> keeps a c"
  by (simp add: keeps_def)

lemma loop_inv_quiet: "quiet w w' \<Longrightarrow> loop_inv L H X w' = loop_inv L H X w"
  by (simp add: loop_inv_def quiet_def same_client_def writers_def)

lemma quiet_keeps: "quiet w w' \<Longrightarrow> keeps w w'"
  by (simp add: keeps_def loop_inv_quiet)

lemmas quiet_keeping [keeping] = quiet_ops [THEN quiet_keeps]

lemma keeps_right: "quiet w' w'' \<Longrightarrow> keeps w w'' = keeps w w'"
  by (simp add: keeps_def loop_inv_quiet)

lemma keeps_left: "quiet w w' \<Longrightarrow> keeps w' w'' = keeps w w''"
  by (simp add: keeps_def loop_inv_quiet)

lemma keeps_simps [simp]:
  "keeps w (read_if_unlocked w') = keeps w w'"
  "keeps w (TryReadMoreQuery w') = keeps w w'"
  "keeps w (w'\<lparr>pool := x\<rparr>) = keeps w w'"
  "keeps (read_if_unlocked w) w' = keeps w w'"
  "keeps (TryReadMoreQuery w) w' = keeps w w'"
  "keeps (w\<lparr>pool := x\<rparr>) w' = keeps w w'"
  by (rule keeps_right keeps_left; simp)+

section \<open>Writes to the client\<close>

lemma first_queue: "IsFirstCommand i w = Some True \<Longrightarrow> \<exists>q. active_cmd_queue w = i # q"
  by (auto simp: IsFirstCommand_def split: list.split_asm)

lemma writers_log_ops [simp]: "writers (log_ops os w) = writers w @ map writer (filter is_client_write os)"
  by (simp add: writers_def writes_def log_ops_def)

lemma log_ops_fields [simp]:
  "active_cmd_queue (log_ops os w) = active_cmd_queue w" "held (log_ops os w) = held w"
  "cmds (log_ops os w) = cmds w" "next_cmd (log_ops os w) = next_cmd w"
  "client_aborted (log_ops os w) = client_aborted w" "is_writing_reply (log_ops os w) = is_writing_reply w"
  by (simp_all add: log_ops_def)

lemma writers_upd [simp]:
  "writers (w\<lparr>active_cmd_queue := q\<rparr>) = writers w" "writers (w\<lparr>cmds := c\<rparr>) = writers w"
  "writers (w\<lparr>client_aborted := a\<rparr>) = writers w" "writers (w\<lparr>is_writing_reply := r\<rparr>) = writers w"
  "writers (w\<lparr>held := h\<rparr>) = writers w" "writers (w\<lparr>next_cmd := n\<rparr>) = writers w"
  by (simp_all add: writers_def writes_def)

lemma loop_inv_write:
  assumes "loop_inv L H X w" and "active_cmd_queue w = i # q" and "\<not> is_writing_reply w"
  shows "loop_inv L H X (log_ops [Client_Write p n i k] (UpdateTimer Write_Timer (w\<lparr>is_writing_reply := True\<rparr>)))"
proof -
  let ?w = "UpdateTimer Write_Timer (w\<lparr>is_writing_reply := True\<rparr>)"
  have "quiet (w\<lparr>is_writing_reply := True\<rparr>) ?w" by simp
  then have "active_cmd_queue ?w = i # q" "held ?w = held w" "next_cmd ?w = next_cmd w"
      "writers ?w = writers w" "is_writing_reply ?w" "dom (cmds ?w) = dom (cmds w)"
      "client_aborted ?w = client_aborted w"
    using assms(2) by (auto simp: quiet_def same_client_def writes_def writers_def)
  with assms show ?thesis by (auto simp: loop_inv_def)
qed

lemma keeps_WriteReply:
  "WriteReply p n i k w = Some w' \<Longrightarrow> active_cmd_queue w = i # q \<Longrightarrow> keeps w w'"
  by (auto simp: WriteReply_def keeps_def loop_inv_write split: if_split_asm)

lemma queue_quiet: "quiet w w' \<Longrightarrow> active_cmd_queue w' = active_cmd_queue w"
  by (simp add: quiet_def same_client_def)

lemma keeps_TryWriteReply:
  assumes "TryWriteReply i k w = Some w'" and "active_cmd_queue w = i # q"
  shows "keeps w w'"
proof -
  from assms(1) consider "w' = w"
    | w1 w2 w3 f g h p n where "cmd_upd i f w = Some w1" "conn_buf k g w1 = Some w2"
        "WriteReply p n i (Some k) w2 = Some w3" "conn_buf k h w3 = Some w'"
    by (auto simp: TryWriteReply_def bind_eq_Some_conv Let_def split: if_split_asm)
  then show ?thesis
  proof cases
    case 2
    then have "quiet w w2" by (blast intro: quiet_cmd_upd quiet_conn_buf quiet_trans)
    moreover from this have "keeps w2 w3"
      using keeps_WriteReply [OF 2(3)] assms(2) by (simp add: queue_quiet)
    moreover have "keeps w3 w'" using 2(4) by (rule keeping)
    ultimately show ?thesis by (blast intro: quiet_keeps keeps_trans)
  qed simp
qed

lemma keeps_message_StartWriteReply:
  "message_StartWriteReply i msg w = Some w' \<Longrightarrow> active_cmd_queue w = i # q \<Longrightarrow> keeps w w'"
  by (auto simp: message_StartWriteReply_def intro: keeps_WriteReply)

lemma keeps_message_StartWriteQuery [keeping]: "message_StartWriteQuery i msg w = Some w' \<Longrightarrow> keeps w w'"
  by (auto simp: message_StartWriteQuery_def bind_eq_Some_conv split: if_split_asm
      dest!: first_queue intro: keeps_message_StartWriteReply)

section \<open>The end of commands\<close>

lemma loop_inv_drop_ref:
  assumes "loop_inv L H (insert i X) w" and "drop_ref i w = Some w'"
  shows "loop_inv L H X w'"
proof (cases "cmds w i \<noteq> None \<and> i \<notin> set (active_cmd_queue w) \<and> i \<notin> set (held w)")
  case False
  with assms show ?thesis by (auto simp: drop_ref_def loop_inv_def split: if_split_asm)
next
  case True
  with assms(2) obtain w1 where "quiet w w1" "w' = w1\<lparr>cmds := (cmds w1)(i := None)\<rparr>"
    by (auto simp: drop_ref_def destroy_def bind_eq_Some_conv split: if_split_asm dest: quiet_release_all)
  moreover from this(1) assms(1) have "loop_inv L H (insert i X) w1" by (simp add: loop_inv_quiet)
  moreover have "active_cmd_queue w1 = active_cmd_queue w" using \<open>quiet w w1\<close> by (rule queue_quiet)
  ultimately show ?thesis
    using True by (auto simp: loop_inv_def)
qed

lemma loop_inv_drop_refs:
  "loop_inv L H (set is \<union> X) w \<Longrightarrow> foldM drop_ref is w = Some w' \<Longrightarrow> loop_inv L H X w'"
  by (induction "is" arbitrary: w) (auto simp: bind_eq_Some_conv dest: loop_inv_drop_ref)

lemma keeps_client_Abort [keeping]:
  assumes "client_Abort w = Some w'"
  shows "keeps w w'"
  unfolding keeps_def
proof (intro allI impI)
  fix L H X
  assume inv: "loop_inv L H X w"
  show "loop_inv L H X w'"
  proof (cases "client_aborted w")
    case False
    have "loop_inv L H (set (active_cmd_queue w) \<union> X)
        (log_ops [Client_Cancel Read_Timer, Client_Cancel Write_Timer, Client_Close]
          (w\<lparr>client_aborted := True, active_cmd_queue := []\<rparr>))"
      using inv by (auto simp: loop_inv_def)
    with assms False show ?thesis by (auto simp: client_Abort_def dest: loop_inv_drop_refs)
  qed (use inv assms in \<open>simp add: client_Abort_def\<close>)
qed

section \<open>New commands\<close>

lemma keeps_mget_StartWriteQuery [keeping]: "mget_StartWriteQuery i g w = Some w' \<Longrightarrow> keeps w w'"
  by (auto simp: mget_StartWriteQuery_def bind_eq_Some_conv
      dest!: quiet_keeps [OF quiet_mget_starts] quiet_keeps [OF quiet_set_data] keeps_message_StartWriteQuery
      intro: keeps_trans)

lemma keeps_StartWriteQuery [keeping]:
  assumes "StartWriteQuery i w = Some (b, w')"
  shows "keeps w w'"
proof -
  obtain c where "cmds w i = Some c"
    using assms by (auto simp: StartWriteQuery_def bind_eq_Some_conv)
  with assms show ?thesis
    by (cases "cmd_data c")
      (auto simp: StartWriteQuery_def bind_eq_Some_conv
        dest!: quiet_keeps [OF quiet_base_StartWriteQuery] quiet_keeps [OF quiet_mset_StartWriteQuery]
          quiet_keeps [OF quiet_del_Activate] quiet_keeps [OF quiet_set_data]
          quiet_keeps [OF quiet_get_StartWriteQuery] keeps_message_StartWriteQuery keeps_mget_StartWriteQuery
        intro: keeps_trans)
qed

lemma loop_inv_push:
  assumes "loop_inv L H (insert i X) w" and "i \<in> dom (cmds w)" and "i \<notin> set (active_cmd_queue w)"
    and "next_cmd w = Suc i" and "L \<le> i" and "length (active_cmd_queue w) < kPipelineActiveLimit"
    and "\<not> client_aborted w"
  shows "loop_inv L H X (w\<lparr>active_cmd_queue := active_cmd_queue w @ [i]\<rparr>)"
proof -
  have "\<forall>j\<in>set (active_cmd_queue w). j < i"
    using assms(1,3,4) by (fastforce simp: loop_inv_def less_Suc_eq)
  with assms show ?thesis by (auto simp: loop_inv_def sorted_wrt_append less_Suc_eq_le)
qed

lemma loop_inv_created:
  assumes "created_from w (Some i) w'" and "loop_inv L H X w"
  shows "loop_inv L H (insert i X) w' \<and> i \<in> dom (cmds w') \<and> i \<notin> set (active_cmd_queue w') \<and> next_cmd w' = Suc i
    \<and> L \<le> i \<and> same_client w w'"
proof -
  from assms(1) obtain w1 c where w1: "i = next_cmd w" "quiet w w1"
      "w' = w1\<lparr>cmds := (cmds w1)(i \<mapsto> c), next_cmd := Suc i\<rparr>"
    by (auto simp: created_from_def)
  moreover have "loop_inv L H X w1" using w1(2) assms(2) by (simp add: loop_inv_quiet)
  moreover have "next_cmd w1 = next_cmd w" "same_client w w1" using w1(2) by (simp_all add: quiet_def)
  ultimately show ?thesis by (auto simp: loop_inv_def subset_iff less_Suc_eq)
qed

lemma loop_inv_process_one:
  assumes "process_one w = Some (go, w')" and inv: "loop_inv L H X w"
    and "length (active_cmd_queue w) < kPipelineActiveLimit" and "\<not> client_aborted w"
  shows "loop_inv L H X w'"
proof -
  obtain n cmd w1 where c:
      "CreateCommand (unprocessed_data (client_buffer w)) (received_bytes (client_buffer w)) w = Some (n, cmd, w1)"
    using assms(1) by (auto simp: process_one_def bind_eq_Some_conv)
  then have cr: "created_from w cmd w1" by (rule created_CreateCommand)
  show ?thesis
  proof (cases "n = 0")
    case True
    show ?thesis
    proof (cases cmd)
      case None
      with cr inv have "loop_inv L H X w1" by (simp add: created_from_def loop_inv_quiet)
      with assms(1) c True None show ?thesis by (auto simp: process_one_def loop_inv_quiet [of w1 "TryReadMoreQuery w1"])
    next
      case (Some i)
      with cr inv have "loop_inv L H (insert i X) w1" by (simp add: loop_inv_created)
      then have "loop_inv L H (insert i X) (TryReadMoreQuery w1)"
        by (simp add: loop_inv_quiet [of w1 "TryReadMoreQuery w1"])
      with assms(1) c True Some show ?thesis
        by (auto simp: process_one_def bind_eq_Some_conv intro: loop_inv_drop_ref)
    qed
  next
    case False
    with assms(1) c obtain wp i nc w2 w3 where w: "cmd = Some i"
        "client_buf (\<lambda>b. Some (update_parsed_bytes n b)) w1 = Some wp"
        "StartWriteQuery i (wp\<lparr>active_cmd_queue := active_cmd_queue wp @ [i]\<rparr>) = Some (nc, w2)"
        "client_buf (\<lambda>b. update_processed_bytes (unprocessed_bytes b) b) w2 = Some w3"
        "w' = w3 \<or> w' = TryReadMoreQuery w3"
      by (auto simp: process_one_def bind_eq_Some_conv split: if_split_asm)
    have q: "quiet w1 wp" using w(2) by (rule quiet_ops)
    have "loop_inv L H (insert i X) wp \<and> i \<in> dom (cmds wp) \<and> i \<notin> set (active_cmd_queue wp)
        \<and> next_cmd wp = Suc i \<and> L \<le> i \<and> length (active_cmd_queue wp) < kPipelineActiveLimit \<and> \<not> client_aborted wp"
      using loop_inv_created [OF cr [unfolded w(1)] inv] loop_inv_quiet [OF q] q assms(3,4)
      by (auto simp: quiet_def same_client_def writers_def)
    then have "loop_inv L H X (wp\<lparr>active_cmd_queue := active_cmd_queue wp @ [i]\<rparr>)"
      by (blast intro: loop_inv_push)
    then have "loop_inv L H X w2" using keeps_StartWriteQuery [OF w(3)] by (simp add: keeps_def)
    then have "loop_inv L H X w3" using quiet_client_buf [OF w(4)] by (simp add: loop_inv_quiet)
    with w(5) show ?thesis by (auto simp: loop_inv_quiet [of w3 "TryReadMoreQuery w3"])
  qed
qed

lemma process_one_aborted: "process_one w = Some (go, w') \<Longrightarrow> client_aborted w' = client_aborted w"
  by (drule process_one_queue) (auto simp: same_client_def)

lemma loop_inv_ProcessUnparsedQuery:
  "ProcessUnparsedQuery w = Some w' \<Longrightarrow> loop_inv L H X w \<Longrightarrow> \<not> client_aborted w
   \<Longrightarrow> loop_inv L H X w' \<and> \<not> client_aborted w'"
proof (induction w rule: ProcessUnparsedQuery.induct)
  case (1 w)
  show ?case
  proof (cases "length (active_cmd_queue w) < kPipelineActiveLimit \<and> unparsed_received_bytes (client_buffer w) > 0")
    case True
    with 1(2) obtain go w1 where g: "process_one w = Some (go, w1)"
        "(if go then ProcessUnparsedQuery w1 else Some w1) = Some w'"
      by (subst (asm) ProcessUnparsedQuery.simps) (auto simp: bind_eq_Some_conv)
    have "loop_inv L H X w1" "\<not> client_aborted w1"
      using loop_inv_process_one [OF g(1) 1(3)] True 1(4) process_one_aborted [OF g(1)] by auto
    with g 1(1) [OF True g(1)] show ?thesis by (cases go) auto
  next
    case False
    with 1 show ?thesis by (auto simp: ProcessUnparsedQuery.simps)
  qed
qed

section \<open>Rotation\<close>

lemma read_fields [simp]:
  "client_aborted (TryReadMoreQuery w) = client_aborted w" "active_cmd_queue (TryReadMoreQuery w) = active_cmd_queue w"
  "client_aborted (read_if_unlocked w) = client_aborted w" "active_cmd_queue (read_if_unlocked w) = active_cmd_queue w"
  using quiet_TryReadMoreQuery [of w w] quiet_read_if_unlocked [of w w]
  unfolding quiet_def same_client_def by auto

lemma loop_inv_pop:
  assumes "pop_command w = Some w'" and inv: "loop_inv L H X w"
  shows "loop_inv L H X w' \<and> \<not> client_aborted w'"
proof -
  obtain i q where iq: "active_cmd_queue w = i # q"
    using pop_command_queue [OF assms(1)] by (cases "active_cmd_queue w") auto
  let ?w = "if q = [] then TryReadMoreQuery w else w"
  have "quiet w ?w" by simp
  then have "loop_inv L H X ?w" using inv by (simp only: loop_inv_quiet)
  moreover have "active_cmd_queue ?w = i # q" using iq by simp
  ultimately have "loop_inv L H (insert i X) (?w\<lparr>active_cmd_queue := q\<rparr>)"
    by (auto simp: loop_inv_def)
  moreover have "drop_ref i (?w\<lparr>active_cmd_queue := q\<rparr>) = Some w'"
    using assms(1) iq by (simp add: pop_command_def Let_def split: if_split_asm)
  moreover have "\<not> client_aborted w'"
    using pop_command_queue [OF assms(1)] inv iq by (auto simp: loop_inv_def)
  ultimately show ?thesis by (blast intro: loop_inv_drop_ref)
qed

lemma keeps_base_StartWriteReply:
  assumes "base_StartWriteReply i w = Some w'" and "active_cmd_queue w = i # q"
  shows "keeps w w'"
proof -
  obtain c where "cmds w i = Some c"
    using assms(1) by (auto simp: base_StartWriteReply_def bind_eq_Some_conv)
  with assms show ?thesis
    by (cases "replying_backend c")
      (auto simp: base_StartWriteReply_def bind_eq_Some_conv split: if_split_asm intro: keeps_TryWriteReply)
qed

lemma loop_inv_resume:
  "resume_reading w = Some w' \<Longrightarrow> loop_inv L H X w \<Longrightarrow> \<not> client_aborted w \<Longrightarrow> loop_inv L H X w' \<and> \<not> client_aborted w'"
  by (auto simp: resume_reading_def bind_eq_Some_conv loop_inv_quiet [of w "read_if_unlocked w"]
      dest: loop_inv_ProcessUnparsedQuery split: if_split_asm)

lemma keeps_aborted: "same_client w w' \<Longrightarrow> client_aborted w' = client_aborted w"
  by (simp add: same_client_def)

lemma get_methods_get:
  "get_NextBackendStartReply i w = Some w' \<Longrightarrow> \<exists>c g. cmds w i = Some c \<and> cmd_data c = MemcGet g"
  "get_RotateReplyingBackend i w = Some w' \<Longrightarrow> \<exists>c g. cmds w i = Some c \<and> cmd_data c = MemcGet g"
proof -
  assume a: "get_NextBackendStartReply i w = Some w'"
  then obtain c where "cmds w i = Some c" by (auto simp: get_NextBackendStartReply.simps bind_eq_Some_conv)
  with a show "\<exists>c g. cmds w i = Some c \<and> cmd_data c = MemcGet g"
    by (cases "cmd_data c") (auto simp: get_NextBackendStartReply.simps)
next
  assume a: "get_RotateReplyingBackend i w = Some w'"
  then obtain c where "cmds w i = Some c" by (auto simp: get_RotateReplyingBackend.simps bind_eq_Some_conv)
  with a show "\<exists>c g. cmds w i = Some c \<and> cmd_data c = MemcGet g"
    by (cases "cmd_data c") (auto simp: get_RotateReplyingBackend.simps)
qed

lemma quiet_inv:
  "quiet w w' \<Longrightarrow> loop_inv L H X w' = loop_inv L H X w \<and> active_cmd_queue w' = active_cmd_queue w
     \<and> client_aborted w' = client_aborted w"
  by (simp add: loop_inv_quiet) (simp add: quiet_def same_client_def)

lemma rotation_keeps:
  "RotateReplyingCommand w = Some w' \<Longrightarrow> loop_inv L H X w \<Longrightarrow> loop_inv L H X w' \<and> \<not> client_aborted w'"
  "StartWriteReply i w = Some w' \<Longrightarrow> loop_inv L H X w \<Longrightarrow> (\<exists>q. active_cmd_queue w = i # q)
     \<Longrightarrow> loop_inv L H X w' \<and> \<not> client_aborted w'"
  "get_NextBackendStartReply i w = Some w' \<Longrightarrow> loop_inv L H X w \<Longrightarrow> (\<exists>q. active_cmd_queue w = i # q)
     \<Longrightarrow> loop_inv L H X w' \<and> \<not> client_aborted w'"
  "get_RotateReplyingBackend i w = Some w' \<Longrightarrow> loop_inv L H X w \<Longrightarrow> (\<exists>q. active_cmd_queue w = i # q)
     \<Longrightarrow> loop_inv L H X w' \<and> \<not> client_aborted w'"
proof (induction w and i w and i w and i w arbitrary: w' and w' and w' and w'
    rule: RotateReplyingCommand_StartWriteReply_get_NextBackendStartReply_get_RotateReplyingBackend.induct)
  case (1 w)
  then obtain w1 where w1: "pop_command w = Some w1"
    by (subst (asm) RotateReplyingCommand.simps) (auto simp: bind_eq_Some_conv)
  have inv: "loop_inv L H X w1" "\<not> client_aborted w1" using loop_inv_pop [OF w1 1(3)] by auto
  show ?case
  proof (cases "active_cmd_queue w1")
    case Nil
    with 1(2) w1 inv show ?thesis by (simp add: RotateReplyingCommand.simps)
  next
    case (Cons j q)
    with 1(2) w1 obtain w2 where w2: "StartWriteReply j w1 = Some w2" "resume_reading w2 = Some w'"
      by (auto simp: RotateReplyingCommand.simps bind_eq_Some_conv)
    have "loop_inv L H X w2 \<and> \<not> client_aborted w2" using 1(1) [OF w1 Cons w2(1) inv(1)] Cons by blast
    then show ?thesis using loop_inv_resume [OF w2(2)] by blast
  qed
next
  case (2 i w)
  then obtain q where q: "active_cmd_queue w = i # q" by blast
  obtain c where c: "cmds w i = Some c"
    using 2(2) by (auto simp: StartWriteReply.simps bind_eq_Some_conv)
  have na: "\<not> client_aborted w" using 2(3) q by (auto simp: loop_inv_def)
  show ?case
  proof (cases "\<exists>g. cmd_data c = MemcGet g")
    case True
    then obtain g where "cmd_data c = MemcGet g" by blast
    with 2 c show ?thesis by (simp add: StartWriteReply.simps)
  next
    case False
    with 2(2) c consider msg where "message_StartWriteReply i msg w = Some w'" | "base_StartWriteReply i w = Some w'"
      by (cases "cmd_data c") (auto simp: StartWriteReply.simps)
    then show ?thesis
    proof cases
      case 1
      then show ?thesis using keeps_message_StartWriteReply [OF 1 q] 2(3) na frame_message_StartWriteReply [OF 1]
        by (simp add: keeps_def same_client_def)
    next
      case 2
      have "client_aborted w' = client_aborted w"
        using 2 by (auto simp: base_StartWriteReply_def bind_eq_Some_conv split: if_split_asm option.split_asm
            dest!: frame_TryWriteReply keeps_aborted)
      then show ?thesis using keeps_base_StartWriteReply [OF 2 q] \<open>loop_inv L H X w\<close> na by (simp add: keeps_def)
    qed
  qed
next
  case (3 i w)
  then obtain q where q: "active_cmd_queue w = i # q" by blast
  have na: "\<not> client_aborted w" using 3(3) q by (auto simp: loop_inv_def)
  obtain c g where c: "cmds w i = Some c" "cmd_data c = MemcGet g"
    using get_methods_get(1) [OF 3(2)] by blast
  show ?case
  proof (cases "get_waiting g")
    case Nil
    with 3(2) c have "set_replying i None w = Some w'" by (simp add: get_NextBackendStartReply.simps)
    then have "quiet w w'" by (rule quiet_ops)
    from quiet_inv [OF this] 3(3) na show ?thesis by blast
  next
    case (Cons k ks)
    with 3(2) c obtain w1 b where w1: "set_data i (MemcGet (g\<lparr>get_waiting := ks\<rparr>)) w = Some w1" "conns (pool w1) k = Some b"
        "(if finished b then get_RotateReplyingBackend i w1
          else do { w \<leftarrow> TryWriteReply i k w1; set_replying i (Some k) w }) = Some w'"
      by (auto simp: get_NextBackendStartReply.simps bind_eq_Some_conv)
    have qu: "quiet w w1" using w1(1) by (rule quiet_ops)
    have inv: "loop_inv L H X w1" "active_cmd_queue w1 = i # q" "\<not> client_aborted w1"
      using quiet_inv [OF qu] 3(3) q na by auto
    show ?thesis
    proof (cases "finished b")
      case True
      with w1(3) have "get_RotateReplyingBackend i w1 = Some w'" by simp
      then show ?thesis using 3(1) [OF c(1,2) Cons w1(1,2) True] inv by blast
    next
      case False
      with w1(3) obtain w2 where w2: "TryWriteReply i k w1 = Some w2" "set_replying i (Some k) w2 = Some w'"
        by (auto simp: bind_eq_Some_conv)
      have "loop_inv L H X w2" using keeps_TryWriteReply [OF w2(1) inv(2)] inv(1) by (simp add: keeps_def)
      moreover have "quiet w2 w'" using w2(2) by (rule quiet_ops)
      from quiet_inv [OF this] have "loop_inv L H X w' = loop_inv L H X w2" "client_aborted w' = client_aborted w2" by auto
      ultimately show ?thesis
        using inv(3) keeps_aborted [OF frame_TryWriteReply [OF w2(1)]] by auto
    qed
  qed
next
  case (4 i w)
  then obtain q where q: "active_cmd_queue w = i # q" by blast
  obtain c g where c: "cmds w i = Some c" "cmd_data c = MemcGet g"
    using get_methods_get(2) [OF 4(3)] by blast
  let ?n = "completed_backends g + 1"
  obtain w1 where w1: "set_data i (MemcGet (g\<lparr>completed_backends := ?n\<rparr>)) w = Some w1"
      "(if ?n < of_nat (length (get_subqueries g)) then get_NextBackendStartReply i w1 else RotateReplyingCommand w1) = Some w'"
    using 4(3) c by (auto simp: get_RotateReplyingBackend.simps bind_eq_Some_conv Let_def)
  have qu: "quiet w w1" using w1(1) by (rule quiet_ops)
  have inv: "loop_inv L H X w1" "active_cmd_queue w1 = i # q"
    using quiet_inv [OF qu] 4(4) q by auto
  show ?case
  proof (cases "?n < of_nat (length (get_subqueries g))")
    case True
    with w1 4(1) [OF c refl w1(1) True] inv show ?thesis by auto
  next
    case False
    with w1 4(2) [OF c refl w1(1) False] inv show ?thesis by auto
  qed
qed

lemma keeps_RotateReplyingCommand [keeping]: "RotateReplyingCommand w = Some w' \<Longrightarrow> keeps w w'"
  by (simp add: keeps_def rotation_keeps(1))

lemma keeps_get_RotateReplyingBackend:
  "get_RotateReplyingBackend i w = Some w' \<Longrightarrow> active_cmd_queue w = i # q \<Longrightarrow> keeps w w'"
  by (simp add: keeps_def rotation_keeps(4))

section \<open>Callbacks\<close>

lemma quiet_callback_ops [quiet_ops]:
  "set_reply_data k bs p w = Some w' \<Longrightarrow> quiet w w'" "mark_failed k w = Some w' \<Longrightarrow> quiet w w'"
  "dec_client_lock w = Some w' \<Longrightarrow> quiet w w'" "parse_with k f w = Some (ok, w') \<Longrightarrow> quiet w w'"
  "reply_written i k w = Some w' \<Longrightarrow> quiet w w'" "TryMarkLastBackend i k w = Some w' \<Longrightarrow> quiet w w'"
  "discard_reply k w = Some w' \<Longrightarrow> quiet w w'" "read_if_incomplete i w = Some w' \<Longrightarrow> quiet w w'"
  "mset_set_sub i s q w = Some w' \<Longrightarrow> quiet w w'" "del_set_sub i k d w = Some w' \<Longrightarrow> quiet w w'"
  "SetBackendReplyCount k n w = Some w' \<Longrightarrow> quiet w w'"
  by (auto simp: set_reply_data_def mark_failed_def dec_client_lock_def parse_with_def reply_written_def
      TryMarkLastBackend_def discard_reply_def read_if_incomplete_def mset_set_sub_def del_set_sub_def
      SetBackendReplyCount_def bind_eq_Some_conv Let_def split: if_split_asm dest!: quiet_ops intro: quiet_trans)

lemma quiet_more_callback_ops [quiet_ops]:
  "TryActivateReplyingBackend i k w = Some (r, w') \<Longrightarrow> quiet w w'"
  "mset_drop i k w = Some w' \<Longrightarrow> quiet w w'" "del_drop i k w = Some w' \<Longrightarrow> quiet w w'"
  "mset_part_sent i k s q w = Some w' \<Longrightarrow> quiet w w'"
  "del_parse i k w = Some (ok, w') \<Longrightarrow> quiet w w'"
  by (auto simp: TryActivateReplyingBackend_def mset_drop_def del_drop_def mset_part_sent_def del_parse_def
      bind_eq_Some_conv Let_def split: if_split_asm option.split_asm
      dest!: quiet_ops intro: quiet_trans)

lemma quiet_mget_parse [quiet_ops]:
  assumes "mget_parse i k w = Some (ok, w')"
  shows "quiet w w'"
proof -
  obtain g where g: "the_mget i w = Some g"
    using assms by (auto simp: mget_parse_def bind_eq_Some_conv)
  with assms show ?thesis
    by (cases "mget_waiting g") (auto simp: mget_parse_def bind_eq_Some_conv Let_def dest!: quiet_ops)
qed

lemmas callback_keeping [keeping] =
  quiet_callback_ops [THEN quiet_keeps] quiet_more_callback_ops [THEN quiet_keeps] quiet_mget_parse [THEN quiet_keeps]

lemma quiet_head: "quiet w w' \<Longrightarrow> keeps w' w'' \<Longrightarrow> keeps w w''"
  by (simp add: keeps_left)

lemma keeps_reply_or_wait [keeping]: "reply_or_wait i k w = Some w' \<Longrightarrow> keeps w w'"
  by (auto simp: reply_or_wait_def bind_eq_Some_conv split: if_split_asm
      dest: first_queue intro: keeps_TryWriteReply dest!: quiet_ops quiet_keeps)

lemma keeps_get_BackendReadyToReply [keeping]: "get_BackendReadyToReply i k w = Some w' \<Longrightarrow> keeps w w'"
  by (auto simp: get_BackendReadyToReply_def bind_eq_Some_conv split: if_split_asm
      dest!: first_queue quiet_more_callback_ops(1) quiet_set_data simp: queue_quiet
      dest: keeps_get_RotateReplyingBackend keeps_TryWriteReply intro: quiet_head quiet_keeps)

lemma keeps_get_error [keeping]: "get_OnBackendRecoverableError i k ec w = Some w' \<Longrightarrow> keeps w w'"
  by (auto simp: get_OnBackendRecoverableError_def bind_eq_Some_conv split: if_split_asm
      dest!: keeping intro: keeps_trans)

lemma keeps_base_error [keeping]: "base_OnBackendRecoverableError i k ec w = Some w' \<Longrightarrow> keeps w w'"
  by (auto simp: base_OnBackendRecoverableError_def bind_eq_Some_conv split: if_split_asm
      dest!: quiet_ops first_queue dest: keeps_TryWriteReply intro: quiet_head quiet_keeps quiet_trans)

lemma keeps_mget_ready [keeping]:
  assumes "mget_BackendReadyToReply i k w = Some w'"
  shows "keeps w w'"
proof -
  obtain f where f: "IsFirstCommand i w = Some f"
    using assms by (auto simp: mget_BackendReadyToReply_def bind_eq_Some_conv)
  show ?thesis
  proof (cases f)
    case True
    then obtain g where g: "the_mget i w = Some g"
      using assms f by (auto simp: mget_BackendReadyToReply_def bind_eq_Some_conv)
    let ?step = "\<lambda>w1 ok w2. set_replying i (Some k) w = Some w1 \<and> mget_parse i k w1 = Some (ok, w2)
      \<and> (client_Abort w2 = Some w' \<or> conn_call k TryReadMoreReply w2 = Some w' \<or> TryWriteReply i k w2 = Some w')"
    have "w' = w \<or> client_Abort w = Some w' \<or> (\<exists>w1 ok w2. ?step w1 ok w2)"
    proof (cases "mget_waiting g")
      case Nil
      with assms f True g show ?thesis by (simp add: mget_BackendReadyToReply_def)
    next
      case (Cons a l)
      with assms f True g show ?thesis
        by (cases a, cases "reply_prefix g \<noteq> [] \<or> k \<noteq> fst a")
          (auto simp: mget_BackendReadyToReply_def bind_eq_Some_conv split: if_split_asm)
    qed
    then consider "w' = w" | "client_Abort w = Some w'"
      | w1 ok w2 where "set_replying i (Some k) w = Some w1" "mget_parse i k w1 = Some (ok, w2)"
          "client_Abort w2 = Some w' \<or> conn_call k TryReadMoreReply w2 = Some w' \<or> TryWriteReply i k w2 = Some w'"
      by blast
    then show ?thesis
    proof cases
      case 3
      have "quiet w w2" by (rule quiet_trans [OF quiet_set_replying [OF 3(1)] quiet_mget_parse [OF 3(2)]])
      moreover from this obtain q where "active_cmd_queue w2 = i # q"
        using f True by (auto dest: first_queue simp: queue_quiet)
      with 3(3) have "keeps w2 w'" by (auto dest: keeps_TryWriteReply keeps_client_Abort quiet_conn_call quiet_keeps)
      ultimately show ?thesis by (rule quiet_head)
    qed (auto dest: keeps_client_Abort)
  qed (use assms f in \<open>simp add: mget_BackendReadyToReply_def\<close>)
qed

lemma keeps_mget_error [keeping]: "mget_OnBackendRecoverableError i k w = Some w' \<Longrightarrow> keeps w w'"
  by (auto simp: mget_OnBackendRecoverableError_def bind_eq_Some_conv
      dest!: keeping intro: keeps_trans)

lemma keeps_mset_error [keeping]: "mset_OnBackendRecoverableError i k ec w = Some w' \<Longrightarrow> keeps w w'"
  by (auto simp: mset_OnBackendRecoverableError_def bind_eq_Some_conv split: if_split_asm
      dest!: keeping intro: keeps_trans)

lemma keeps_del_reply_count [keeping]: "del_reply_count i k w = Some w' \<Longrightarrow> keeps w w'"
  by (auto simp: del_reply_count_def bind_eq_Some_conv dest!: keeping intro: keeps_trans)

lemma keeps_del_error [keeping]: "del_OnBackendRecoverableError i k w = Some w' \<Longrightarrow> keeps w w'"
  by (auto simp: del_OnBackendRecoverableError_def bind_eq_Some_conv split: if_split_asm
      dest!: keeping intro: keeps_trans)

lemma keeps_base_written [keeping]: "base_OnWriteQueryFinished i k ec w = Some w' \<Longrightarrow> keeps w w'"
  by (auto simp: base_OnWriteQueryFinished_def bind_eq_Some_conv split: if_split_asm
      dest!: keeping intro: keeps_trans)

lemma keeps_get_written [keeping]: "get_OnWriteQueryFinished i k ec w = Some w' \<Longrightarrow> keeps w w'"
  by (auto simp: get_OnWriteQueryFinished_def bind_eq_Some_conv Let_def case_list_Some split: if_split_asm
      dest!: keeping intro: keeps_trans)

lemma keeps_mget_written [keeping]: "mget_OnWriteQueryFinished i k ec w = Some w' \<Longrightarrow> keeps w w'"
  by (auto simp: mget_OnWriteQueryFinished_def bind_eq_Some_conv Let_def case_list_Some split: if_split_asm
      dest!: keeping intro: keeps_trans)

lemma keeps_mset_written [keeping]: "mset_OnWriteQueryFinished i k ec w = Some w' \<Longrightarrow> keeps w w'"
  by (auto simp: mset_OnWriteQueryFinished_def bind_eq_Some_conv Let_def case_list_Some
      split: if_split_asm Phase.split_asm dest!: keeping intro: keeps_trans)

lemma keeps_del_written [keeping]: "del_OnWriteQueryFinished i k ec w = Some w' \<Longrightarrow> keeps w w'"
  by (auto simp: del_OnWriteQueryFinished_def bind_eq_Some_conv Let_def case_list_Some
      split: if_split_asm dest!: keeping intro: keeps_trans)

lemma keeps_base_received [keeping]: "base_OnBackendReplyReceived i k ec w = Some w' \<Longrightarrow> keeps w w'"
  by (auto simp: base_OnBackendReplyReceived_def bind_eq_Some_conv Let_def queue_quiet split: if_split_asm
      dest!: quiet_callback_ops(4) first_queue keeps_TryWriteReply keeping
      intro: keeps_trans quiet_head quiet_keeps)

lemma keeps_get_received [keeping]: "get_OnBackendReplyReceived i k ec w = Some w' \<Longrightarrow> keeps w w'"
  by (auto simp: get_OnBackendReplyReceived_def bind_eq_Some_conv Let_def split: if_split_asm
      dest!: keeping intro: keeps_trans)

lemma keeps_mget_received [keeping]: "mget_OnBackendReplyReceived i k ec w = Some w' \<Longrightarrow> keeps w w'"
  by (auto simp: mget_OnBackendReplyReceived_def bind_eq_Some_conv split: if_split_asm dest!: keeping)

lemma keeps_mset_received [keeping]: "mset_OnBackendReplyReceived i k ec w = Some w' \<Longrightarrow> keeps w w'"
  by (auto simp: mset_OnBackendReplyReceived_def bind_eq_Some_conv split: if_split_asm
      dest!: keeping intro: keeps_trans)

lemma keeps_del_received [keeping]: "del_OnBackendReplyReceived i k ec w = Some w' \<Longrightarrow> keeps w w'"
  by (auto simp: del_OnBackendReplyReceived_def bind_eq_Some_conv split: if_split_asm
      dest!: keeping intro: keeps_trans)

section \<open>Replies written to the client\<close>

lemma keeps_mget_next [keeping]: "mget_NextBackendStartReply i w = Some w' \<Longrightarrow> keeps w w'"
  by (auto simp: mget_NextBackendStartReply_def bind_eq_Some_conv case_list_Some split: if_split_asm dest!: keeping)

lemma keeps_mget_rotate [keeping]: "mget_RotateReplyingBackend i w = Some w' \<Longrightarrow> keeps w w'"
  by (auto simp: mget_RotateReplyingBackend_def bind_eq_Some_conv split: if_split_asm dest!: keeping)

lemma keeps_mget_reply_written [keeping]: "mget_OnWriteReplyFinished i ko ec w = Some w' \<Longrightarrow> keeps w w'"
  by (auto simp: mget_OnWriteReplyFinished_def bind_eq_Some_conv case_list_Some case_option_Some split: if_split_asm
      dest!: keeping intro: keeps_trans)

lemma keeps_RotateReplyingBackend:
  assumes "RotateReplyingBackend i w = Some w'" and "active_cmd_queue w = i # q"
  shows "keeps w w'"
proof -
  obtain c where "cmds w i = Some c"
    using assms(1) by (auto simp: RotateReplyingBackend_def bind_eq_Some_conv)
  with assms show ?thesis
    by (cases "cmd_data c") (auto simp: RotateReplyingBackend_def base_RotateReplyingBackend_def bind_eq_Some_conv
        split: if_split_asm dest: keeps_RotateReplyingCommand keeps_get_RotateReplyingBackend)
qed

lemma keeps_base_reply_written:
  assumes "base_OnWriteReplyFinished i k ec w = Some w'" and q: "active_cmd_queue w = i # q"
  shows "keeps w w'"
proof (cases "ec = E_SUCCESS")
  case True
  with assms(1) obtain w1 where w1: "reply_written i k w = Some w1"
      "RotateReplyingBackend i w1 = Some w'
        \<or> (\<exists>w2. conn_call k TryReadMoreReply w1 = Some w2 \<and> TryWriteReply i k w2 = Some w')"
    by (auto simp: base_OnWriteReplyFinished_def bind_eq_Some_conv split: if_split_asm)
  then have quiet: "quiet w w1" by (blast dest: quiet_callback_ops)
  with q have q1: "active_cmd_queue w1 = i # q" by (simp add: queue_quiet)
  from w1(2) have "keeps w1 w'"
  proof (elim disjE exE conjE)
    fix w2
    assume a: "conn_call k TryReadMoreReply w1 = Some w2" "TryWriteReply i k w2 = Some w'"
    then have "quiet w1 w2" by (blast dest: quiet_conn_call)
    moreover from this have "keeps w2 w'" using keeps_TryWriteReply [OF a(2)] q1 by (simp add: queue_quiet)
    ultimately show ?thesis by (rule quiet_head)
  qed (rule keeps_RotateReplyingBackend [OF _ q1])
  with quiet show ?thesis by (rule quiet_head)
qed (use assms in \<open>simp add: base_OnWriteReplyFinished_def keeps_client_Abort\<close>)

lemma keeps_OnWriteReplyFinished:
  assumes "OnWriteReplyFinished i ko ec w = Some w'" and "active_cmd_queue w = i # q"
  shows "keeps w w'"
proof -
  obtain c where "cmds w i = Some c"
    using assms(1) by (auto simp: OnWriteReplyFinished_def bind_eq_Some_conv)
  with assms show ?thesis
    by (cases "cmd_data c"; cases ko)
      (auto simp: OnWriteReplyFinished_def intro: keeps_client_Abort keeps_RotateReplyingBackend
        keeps_base_reply_written keeps_mget_reply_written)
qed

section \<open>Virtual calls\<close>

lemma keeps_OnWriteQueryFinished [keeping]:
  assumes "OnWriteQueryFinished i k ec w = Some w'"
  shows "keeps w w'"
proof -
  obtain c where "cmds w i = Some c"
    using assms by (auto simp: OnWriteQueryFinished_def bind_eq_Some_conv)
  with assms show ?thesis
    by (cases "cmd_data c") (auto simp: OnWriteQueryFinished_def intro: keeps_base_written keeps_get_written
        keeps_mget_written keeps_mset_written keeps_del_written)
qed

lemma keeps_OnBackendReplyReceived [keeping]:
  assumes "OnBackendReplyReceived i k ec w = Some w'"
  shows "keeps w w'"
proof -
  obtain c where "cmds w i = Some c"
    using assms by (auto simp: OnBackendReplyReceived_def bind_eq_Some_conv)
  with assms show ?thesis
    by (cases "cmd_data c") (auto simp: OnBackendReplyReceived_def intro: keeps_base_received keeps_get_received
        keeps_mget_received keeps_mset_received keeps_del_received)
qed

section \<open>Data from the client\<close>

lemma base_ContinueWriteQuery_shape:
  assumes "base_ContinueWriteQuery i w = Some (b, w')"
  shows "quiet w w' \<or> (\<exists>w1 k q. quiet w w1 \<and> active_cmd_queue w1 = i # q \<and> TryWriteReply i k w1 = Some w')"
  using assms
  by (auto simp: base_ContinueWriteQuery_def bind_eq_Some_conv split: if_split_asm
      dest!: quiet_check quiet_forward_query first_queue intro: quiet_trans)

lemma mset_ContinueWriteQuery_shape:
  assumes "mset_ContinueWriteQuery i d w = Some (b, w')"
  shows "quiet w w' \<or> (\<exists>w1 k q. quiet w w1 \<and> active_cmd_queue w1 = i # q \<and> TryWriteReply i k w1 = Some w')"
  using assms
  by (auto simp: mset_ContinueWriteQuery_def bind_eq_Some_conv Let_def split: if_split_asm
      dest!: quiet_set_data quiet_set_replying quiet_pool_release quiet_forward_query first_queue intro: quiet_trans)

lemma keeps_ContinueWriteQuery:
  assumes "ContinueWriteQuery i w = Some (b, w')"
  shows "keeps w w' \<and> same_client w w'"
proof -
  obtain c where "cmds w i = Some c"
    using assms by (auto simp: ContinueWriteQuery_def bind_eq_Some_conv)
  with assms have "quiet w w' \<or> (\<exists>w1 k q. quiet w w1 \<and> active_cmd_queue w1 = i # q \<and> TryWriteReply i k w1 = Some w')"
    by (cases "cmd_data c")
      (auto simp: ContinueWriteQuery_def dest!: base_ContinueWriteQuery_shape mset_ContinueWriteQuery_shape)
  then show ?thesis
    by (auto intro: quiet_keeps quiet_same_client quiet_head keeps_TryWriteReply same_client_trans
        dest: frame_TryWriteReply)
qed

lemma quiet_ParseUnparsedPart [quiet_ops]:
  assumes "ParseUnparsedPart i w = Some (ok, w')"
  shows "quiet w w'"
proof -
  obtain c where "cmds w i = Some c"
    using assms by (auto simp: ParseUnparsedPart_def bind_eq_Some_conv)
  with assms show ?thesis
    by (cases "cmd_data c") (auto simp: ParseUnparsedPart_def bind_eq_Some_conv dest!: quiet_set_data)
qed

lemma quiet_mset_ProcessUnparsedPart: "mset_ProcessUnparsedPart i d w = Some (ok, w') \<Longrightarrow> quiet w w'"
  by (auto simp: mset_ProcessUnparsedPart_def bind_eq_Some_conv Let_def split: if_split_asm
      dest!: quiet_mset_push_pairs quiet_client_buf quiet_mset_Activate quiet_set_data)
    (meson quiet_trans)+

lemma quiet_del_push_fold: "foldM (del_push_key m) bs (d, w) = Some (d', w') \<Longrightarrow> quiet w w'"
  by (auto dest!: quiet_foldM_snd dest: quiet_del_push_key)

lemma quiet_del_ProcessUnparsedPart: "del_ProcessUnparsedPart i d w = Some (ok, w') \<Longrightarrow> quiet w w'"
  by (auto simp: del_ProcessUnparsedPart_def bind_eq_Some_conv Let_def split: if_split_asm
      dest!: quiet_del_push_fold quiet_client_buf quiet_del_Activate quiet_set_data)
    (meson quiet_trans)+

lemma quiet_ProcessUnparsedPart [quiet_ops]:
  assumes "ProcessUnparsedPart i w = Some (ok, w')"
  shows "quiet w w'"
proof -
  obtain c where "cmds w i = Some c"
    using assms by (auto simp: ProcessUnparsedPart_def bind_eq_Some_conv)
  with assms show ?thesis
    by (cases "cmd_data c") (auto simp: ProcessUnparsedPart_def
        dest: quiet_mset_ProcessUnparsedPart quiet_del_ProcessUnparsedPart)
qed

lemma loop_inv_read_rest:
  assumes "read_rest i w = Some w'" and "loop_inv L H X w" and "\<not> client_aborted w"
  shows "loop_inv L H X w'"
proof -
  from assms(1) obtain w1 where w1: "quiet w w1"
      "client_Abort w1 = Some w' \<or> ProcessUnparsedQuery w1 = Some w' \<or> w' = w1"
    by (auto simp: read_rest_def bind_eq_Some_conv split: if_split_asm dest!: quiet_ProcessUnparsedPart)
  with quiet_inv [OF w1(1)] assms(2,3) show ?thesis
    by (auto dest: loop_inv_ProcessUnparsedQuery keeps_client_Abort simp: keeps_def)
qed

lemma loop_inv_send_parsed_part:
  assumes "send_parsed_part i w = Some w'" and inv: "loop_inv L H X w" "\<not> client_aborted w"
  shows "loop_inv L H X w'"
proof (cases "read_rest i w = Some w'")
  case False
  with assms(1) obtain nc w1 w2 where w: "ContinueWriteQuery i w = Some (nc, w1)"
      "client_buf (\<lambda>b. update_processed_bytes (unprocessed_bytes b) b) w1 = Some w2"
      "read_rest i w2 = Some w' \<or> w' = w2 \<or> w' = TryReadMoreQuery w2"
    by (auto simp: send_parsed_part_def bind_eq_Some_conv split: if_split_asm)
  have "loop_inv L H X w1" "\<not> client_aborted w1"
    using keeps_ContinueWriteQuery [OF w(1)] inv by (auto simp: keeps_def same_client_def)
  with quiet_inv [OF quiet_client_buf [OF w(2)]] have "loop_inv L H X w2" "\<not> client_aborted w2" by auto
  with w(3) show ?thesis
    by (auto intro: loop_inv_read_rest simp: loop_inv_quiet [of w2 "TryReadMoreQuery w2"])
qed (use inv in \<open>auto intro: loop_inv_read_rest\<close>)

lemma loop_inv_read_for_command:
  assumes "read_for_command i w = Some w'" and inv: "loop_inv L H X w" and na: "\<not> client_aborted w"
  shows "loop_inv L H X w'"
proof -
  from assms(1) obtain w1 where w1: "quiet w w1" "client_Abort w1 = Some w' \<or> send_parsed_part i w1 = Some w'"
    by (auto simp: read_for_command_def bind_eq_Some_conv split: if_split_asm dest!: quiet_ParseUnparsedPart)
  with quiet_inv [OF w1(1)] inv na have "loop_inv L H X w1" "\<not> client_aborted w1" by auto
  with w1(2) show ?thesis
    by (auto intro: loop_inv_send_parsed_part dest: keeps_client_Abort simp: keeps_def)
qed

section \<open>The event loop\<close>

lemma loop_inv_hold: "loop_inv L H X w \<Longrightarrow> loop_inv L (i # H) X (hold i w)"
  by (auto simp: loop_inv_def hold_def)

lemma loop_inv_unhold:
  assumes "unhold i w = Some w'" and "loop_inv L (i # H) X w"
  shows "loop_inv L H X w'"
proof -
  have "loop_inv L H (insert i X) (w\<lparr>held := H\<rparr>)"
    using assms(2) by (auto simp: loop_inv_def)
  moreover have "held w = i # H" using assms(2) by (simp add: loop_inv_def)
  ultimately show ?thesis using assms(1) by (auto simp: unhold_def intro: loop_inv_drop_ref)
qed

lemma loop_inv_run_callback:
  assumes "run_callback i f w = Some w'" and "loop_inv L H X w"
    and "\<And>w'. cmds w i \<noteq> None \<Longrightarrow> f (hold i w) = Some w' \<Longrightarrow> keeps (hold i w) w'"
  shows "loop_inv L H X w'"
proof (cases "cmds w i = None")
  case False
  with assms(1) obtain w1 where w1: "f (hold i w) = Some w1" "unhold i w1 = Some w'"
    by (auto simp: run_callback_def bind_eq_Some_conv)
  with assms(3) [OF False w1(1)] loop_inv_hold [OF assms(2)] have "loop_inv L (i # H) X w1"
    by (simp add: keeps_def)
  then show ?thesis by (rule loop_inv_unhold [OF w1(2)])
qed (use assms in \<open>simp add: run_callback_def\<close>)

lemma keeps_query_sent [keeping]:
  assumes "query_sent k ec w = Some w'"
  shows "keeps w w'"
proof -
  obtain i where "run_callback i (OnWriteQueryFinished i k ec) w = Some w'"
    using assms by (auto simp: query_sent_def bind_eq_Some_conv)
  then show ?thesis
    unfolding keeps_def by (blast intro: loop_inv_run_callback keeps_OnWriteQueryFinished)
qed

lemma keeps_reply_received [keeping]:
  assumes "reply_received k ec w = Some w'"
  shows "keeps w w'"
proof -
  obtain i where "run_callback i (OnBackendReplyReceived i k ec) w = Some w'"
    using assms by (auto simp: reply_received_def bind_eq_Some_conv)
  then show ?thesis
    unfolding keeps_def by (blast intro: loop_inv_run_callback keeps_OnBackendReplyReceived)
qed

lemma keeps_run_act [keeping]: "run_act k act w = Some w' \<Longrightarrow> keeps w w'"
  by (cases act) (auto dest: keeps_query_sent keeps_reply_received quiet_conn_call quiet_keeps intro: quiet_keeps)

lemma keeps_conn_event [keeping]:
  assumes "conn_event k f w = Some w'"
  shows "keeps w w'"
proof -
  obtain b acts where "foldM (run_act k) acts (w\<lparr>pool := put_conn k b (pool w)\<rparr>) = Some w'"
    using assms by (auto simp: conn_event_def bind_eq_Some_conv)
  then have "keeps (w\<lparr>pool := put_conn k b (pool w)\<rparr>) w'"
    by (rule foldM_rel) (auto dest: keeps_run_act intro: keeps_trans)
  then show ?thesis by simp
qed

lemma keeps_conn_handle [keeping]: "conn_handle k act e w = Some w' \<Longrightarrow> keeps w w'"
  by (cases act; cases e) (auto simp: conn_handle_def dest: keeps_conn_event keeps_query_sent)

lemma loop_inv_Abort: "client_Abort w = Some w' \<Longrightarrow> loop_inv L H X w \<Longrightarrow> loop_inv L H X w'"
  using keeps_client_Abort by (simp add: keeps_def)

lemma loop_inv_HandleRead:
  assumes "client_HandleRead off r w = Some w'" and inv: "loop_inv L H X w"
  shows "loop_inv L H X w'"
proof -
  let ?w = "log_ops [Client_Cancel Read_Timer] w"
  have "quiet w ?w" by (simp add: quiet_log)
  with inv have inv1: "loop_inv L H X ?w" by (simp only: loop_inv_quiet)
  show ?thesis
  proof (cases "client_aborted w \<or> r = Eof \<or> r = Read_Error")
    case True
    have "quiet w (?w\<lparr>is_reading_query := False\<rparr>)" by (simp add: quiet_log)
    with inv have "loop_inv L H X (?w\<lparr>is_reading_query := False\<rparr>)" by (simp only: loop_inv_quiet)
    with True inv1 assms(1) show ?thesis
      by (auto simp: client_HandleRead_def Let_def intro: loop_inv_Abort split: if_split_asm)
  next
    case False
    then obtain xs where xs: "r = Received xs" by (cases r) auto
    with False assms(1) obtain w1 w2 where
        w1: "client_buf (\<lambda>b. Some (update_received_bytes (of_nat (length xs)) (mem_fill off xs b)))
           (count_up Bytes_From_Clients (of_nat (length xs)) (?w\<lparr>is_reading_query := False\<rparr>)) = Some w1"
      and w2: "dec_client_lock w1 = Some w2"
      and rest: "if active_cmd_queue w2 = [] then ProcessUnparsedQuery w2 = Some w'
         else \<exists>w3. read_for_command (last (active_cmd_queue w2)) (hold (last (active_cmd_queue w2)) w2) = Some w3
                \<and> unhold (last (active_cmd_queue w2)) w3 = Some w'"
      by (auto simp: client_HandleRead_def Let_def bind_eq_Some_conv split: if_split_asm)
    have "quiet ?w w1" using quiet_client_buf [OF w1] by simp
    then have "quiet ?w w2" using quiet_callback_ops(3) [OF w2] by (rule quiet_trans)
    with inv1 False have inv2: "loop_inv L H X w2" "\<not> client_aborted w2"
      using quiet_inv [of ?w w2] by auto
    show ?thesis
    proof (cases "active_cmd_queue w2 = []")
      case True
      with rest inv2 show ?thesis by (auto dest: loop_inv_ProcessUnparsedQuery)
    next
      case False
      define i where "i = last (active_cmd_queue w2)"
      from False rest obtain w3 where w3: "read_for_command i (hold i w2) = Some w3" "unhold i w3 = Some w'"
        by (auto simp: i_def)
      have "\<not> client_aborted (hold i w2)" using inv2(2) by (simp add: hold_def)
      with w3(1) loop_inv_hold [OF inv2(1)] have "loop_inv L (i # H) X w3" by (rule loop_inv_read_for_command)
      then show ?thesis by (rule loop_inv_unhold [OF w3(2)])
    qed
  qed
qed

lemma loop_inv_written:
  assumes "loop_inv L H X w" and "p \<in> set (ops w)" and "is_client_write p"
  shows "loop_inv L H X (w\<lparr>ops := remove1 p (ops w), is_writing_reply := False\<rparr>)"
proof -
  have "p \<in> set (writes w)" using assms(2,3) by (simp add: writes_def)
  moreover have "length (writes w) \<le> 1"
    using assms(1) by (simp add: loop_inv_def writers_def split: if_split_asm)
  ultimately have "writes w = [p]" by (cases "writes w") auto
  then have "filter is_client_write (remove1 p (ops w)) = []"
    by (metis assms(3) filter_remove1 remove1.simps(2) writes_def)
  then have "writers (w\<lparr>ops := remove1 p (ops w)\<rparr>) = []" by (simp add: writers_def writes_def)
  with assms(1) show ?thesis by (auto simp: loop_inv_def)
qed

lemma loop_inv_head:
  assumes "loop_inv L H X w" and "i \<in> set (writers w)" and "i \<in> set (active_cmd_queue w)"
  shows "i = hd (active_cmd_queue w)"
proof -
  obtain j q where q: "active_cmd_queue w = j # q" using assms(3) by (cases "active_cmd_queue w") auto
  have "i \<le> j" using assms(1,2) q by (auto simp: loop_inv_def)
  moreover have "j \<le> i" using assms(1,3) q by (auto simp: loop_inv_def intro: less_imp_le)
  ultimately show ?thesis using q by simp
qed

lemma loop_inv_done_write:
  assumes "loop_inv L H X w" and "p \<in> set (ops w)" and "is_client_write p" and "allowed p e"
    and "handle p e (w\<lparr>ops := remove1 p (ops w)\<rparr>) = Some w'" and "H = []" "X = {}"
  shows "loop_inv L H X w'"
proof -
  obtain a n i ko err t where p: "p = Client_Write a n i ko" "e = Client_Written err t"
    using assms(3,4) by (cases p; cases e) (auto simp: allowed_def)
  define f where "f = OnWriteReplyFinished i ko (if err then E_WRITE_REPLY else E_SUCCESS)"
  define w0 where "w0 = w\<lparr>ops := remove1 p (ops w), is_writing_reply := False\<rparr>"
  have inv0: "loop_inv L H X w0" unfolding w0_def using assms(1-3) by (rule loop_inv_written)
  define w1 where "w1 = (let w = log_ops [Client_Cancel Write_Timer] (w\<lparr>ops := remove1 p (ops w)\<rparr>)
      in (if err then w else count_up Bytes_To_Clients t w)\<lparr>is_writing_reply := False\<rparr>)"
  have "quiet w0 w1"
    by (simp add: w1_def w0_def Let_def quiet_def same_client_def writes_def log_ops_def count_up_def)
  moreover have "run_callback i f w1 = Some w'"
    using assms(4,5) unfolding p w1_def f_def
    by (cases err) (simp_all add: handle_def client_HandleWrite_def allowed_def Let_def)
  ultimately have w1: "quiet w0 w1" "run_callback i f w1 = Some w'" by blast+
  have inv1: "loop_inv L H X w1" using inv0 loop_inv_quiet [OF w1(1)] by simp
  have "i \<in> set (writers w)"
    using assms(2) p by (force simp: writers_def writes_def)
  then have head: "i \<in> set (active_cmd_queue w) \<Longrightarrow> i = hd (active_cmd_queue w)"
    by (rule loop_inv_head [OF assms(1)])
  have qw: "active_cmd_queue w1 = active_cmd_queue w" using quiet_inv [OF w1(1)] by (simp add: w0_def)
  show ?thesis
  proof (rule loop_inv_run_callback [OF w1(2) inv1])
    fix v
    assume c: "cmds w1 i \<noteq> None" and v: "f (hold i w1) = Some v"
    then have "i \<in> set (active_cmd_queue w1)" using inv1 assms(6,7) by (auto simp: loop_inv_def)
    with head qw have "active_cmd_queue w1 = i # tl (active_cmd_queue w1)"
      by (cases "active_cmd_queue w") auto
    then have "active_cmd_queue (hold i w1) = i # tl (active_cmd_queue w1)" by (simp add: hold_def)
    with v show "keeps (hold i w1) v" unfolding f_def by (rule keeps_OnWriteReplyFinished)
  qed
qed

lemma loop_inv_OnTimeout:
  assumes "client_OnTimeout t oa w = Some w'" and "loop_inv L H X w"
  shows "loop_inv L H X w'"
proof (cases oa)
  case False
  have "loop_inv L H X (count_up k 1 w)" for k
    using assms(2) loop_inv_quiet [of w "count_up k 1 w" L H X] by simp
  with False assms(1) show ?thesis by (auto simp: client_OnTimeout_def intro: loop_inv_Abort)
qed (use assms in \<open>simp add: client_OnTimeout_def\<close>)

lemma loop_inv_handle:
  assumes "handle p e w = Some w'" and "loop_inv L H X w" and "\<not> is_client_write p"
  shows "loop_inv L H X w'"
proof (cases p)
  case (Conn_Op k act)
  with assms(1) have "keeps w w'" by (simp add: handle_def keeps_conn_handle)
  with assms(2) show ?thesis by (simp add: keeps_def)
next
  case (Client_Read off n)
  with assms show ?thesis by (cases e) (simp_all add: handle_def loop_inv_HandleRead)
next
  case (Client_Arm t ms)
  with assms show ?thesis by (cases e) (simp_all add: handle_def loop_inv_OnTimeout)
qed (use assms in \<open>simp_all add: handle_def\<close>)

lemma loop_inv_step:
  assumes "loop_step w w'" and "loop_inv L [] {} w"
  shows "loop_inv L [] {} w'"
  using assms(1)
proof cases
  case (step p e)
  show ?thesis
  proof (cases "is_client_write p")
    case True
    then show ?thesis using loop_inv_done_write [OF assms(2) step(1) True step(2,3)] by simp
  next
    case False
    then have "quiet w (w\<lparr>ops := remove1 p (ops w)\<rparr>)"
      by (simp add: quiet_def writes_def filter_remove1 remove1_idem)
    with assms(2) have "loop_inv L [] {} (w\<lparr>ops := remove1 p (ops w)\<rparr>)" by (simp only: loop_inv_quiet)
    then show ?thesis using loop_inv_handle [OF step(3)] False by blast
  qed
qed

lemma loop_inv_reachable: "reachable w \<Longrightarrow> loop_inv 0 [] {} w"
proof (induction rule: reachable.induct)
  case (start mem w0)
  have "loop_inv 0 [] {} (ClientConnection mem w0)"
    by (simp add: loop_inv_def ClientConnection_def writers_def writes_def)
  then show ?case by (simp add: StartRead_def loop_inv_quiet [of "ClientConnection mem w0" "AsyncRead (ClientConnection mem w0)"])
qed (rule loop_inv_step)

lemma loop_inv_raise:
  "loop_inv 0 H X w \<Longrightarrow> i \<in> set (writers w) \<Longrightarrow> loop_inv i H X w"
  by (cases "writers w") (auto simp: loop_inv_def split: if_split_asm)

lemma loop_inv_steps: "loop_step\<^sup>*\<^sup>* w w' \<Longrightarrow> loop_inv L [] {} w \<Longrightarrow> loop_inv L [] {} w'"
  by (induction rule: rtranclp_induct) (auto intro: loop_inv_step)

lemma writersI: "Client_Write p n i ko \<in> set (ops w) \<Longrightarrow> i \<in> set (writers w)"
  unfolding writers_def writes_def by (force intro: rev_image_eqI [of "Client_Write p n i ko"])

section \<open>Replies leave in order\<close>

text \<open>
  C2. At most one reply is being written to the client at any time, exactly when
  \<^verbatim>\<open>is_writing_reply_\<close> is set, and the reply being written is that of the command at the front of the
  queue, or of a command that no longer exists and is older than every queued one: the client was aborted
  while the write was under way, or the queue was rotated before the write ended, as the memcached GET can
  do.
\<close>

theorem one_write_of_the_first:
  assumes "reachable w"
  shows "length (filter is_client_write (ops w)) = (if is_writing_reply w then 1 else 0)
    \<and> (\<forall>p n i ko. Client_Write p n i ko \<in> set (ops w)
         \<longrightarrow> (\<exists>q. active_cmd_queue w = i # q)
           \<or> (cmds w i = None \<and> (\<forall>j\<in>set (active_cmd_queue w). i < j)))"
proof -
  have inv: "loop_inv 0 [] {} w" using assms by (rule loop_inv_reachable)
  have "(\<exists>q. active_cmd_queue w = i # q) \<or> (cmds w i = None \<and> (\<forall>j\<in>set (active_cmd_queue w). i < j))"
    if "Client_Write p n i ko \<in> set (ops w)" for p n i ko
  proof (cases "cmds w i")
    case None
    have "i \<in> set (writers w)" using that by (rule writersI)
    then have "\<forall>j\<in>set (active_cmd_queue w). i \<le> j" using inv by (simp add: loop_inv_def)
    moreover have "i \<notin> set (active_cmd_queue w)" using inv None by (auto simp: loop_inv_def)
    ultimately show ?thesis using None by (metis nat_less_le)
  next
    case (Some c)
    then have "i \<in> set (active_cmd_queue w)" using inv by (auto simp: loop_inv_def)
    moreover have "i \<in> set (writers w)" using that by (rule writersI)
    ultimately show ?thesis using loop_inv_head [OF inv] by (cases "active_cmd_queue w") auto
  qed
  moreover have "length (filter is_client_write (ops w)) = (if is_writing_reply w then 1 else 0)"
    using inv by (simp add: loop_inv_def writers_def writes_def)
  ultimately show ?thesis by blast
qed

text \<open>
  C1. Replies leave in the order of the commands: commands are numbered as they are created, and a reply
  that is being written later than another belongs to the same or to a later command.
\<close>

theorem replies_in_order:
  assumes "reachable w" and "loop_step\<^sup>*\<^sup>* w w'"
    and "Client_Write p n i ko \<in> set (ops w)" and "Client_Write p' n' j ko' \<in> set (ops w')"
  shows "i \<le> j"
proof -
  have "loop_inv i [] {} w"
    by (rule loop_inv_raise [OF loop_inv_reachable [OF assms(1)] writersI [OF assms(3)]])
  with assms(2) have "loop_inv i [] {} w'" by (rule loop_inv_steps)
  moreover have "j \<in> set (writers w')" using assms(4) by (rule writersI)
  ultimately show ?thesis by (auto simp: loop_inv_def)
qed

text \<open>
  C8. The queue holds the commands in the order of their creation, never more than
  \<^verbatim>\<open>kPipelineActiveLimit\<close>; between two events exactly the commands in the queue are alive, and none once
  the client is aborted.
\<close>

theorem pipeline_bounded:
  assumes "reachable w"
  shows "sorted_wrt (<) (active_cmd_queue w) \<and> length (active_cmd_queue w) \<le> kPipelineActiveLimit
    \<and> dom (cmds w) = set (active_cmd_queue w) \<and> (client_aborted w \<longrightarrow> cmds w = Map.empty)"
  using loop_inv_reachable [OF assms] by (auto simp: loop_inv_def)

end
