(* ===== verification/World_Inv.thy ===== *)
theory World_Inv
  imports World_Rel Client_Order
begin

text \<open>
  Invariants of the event loop that are instances of \<open>world_rel\<close>: at most one read from the client is in
  flight, and the connection pool of the worker stays consistent.  Then what happens after an abort: nothing
  is sent or read any more, and the outstanding operations run out.
\<close>

section \<open>Reads from the client\<close>

definition read_inv :: "World \<Rightarrow> bool" where
  "read_inv w \<longleftrightarrow>
     (let n = length (filter is_client_read (ops w)); r = (if is_reading_query w then 1 else 0)
      in n \<le> r \<and> (\<not> client_aborted w \<longrightarrow> n = r))"

lemma pool_allocate_fields:
  "pool_allocate ep w = Some (k, w') \<Longrightarrow> \<exists>pl n c. w' = w\<lparr>pool := pl, next_conn := n, stats := c\<rparr>"
  by (blast dest: pool_allocate_shape)

lemma emit_fields:
  "\<exists>s. emit k acts w = w\<lparr>ops := ops w @ map (Conn_Op k) acts, stats := s\<rparr>"
proof -
  have "\<exists>s. fold count_act acts v = v\<lparr>stats := s\<rparr>" for v
  proof (induction acts arbitrary: v)
    case Nil
    show ?case by (intro exI [of _ "stats v"]) simp
  next
    case (Cons a acts)
    have "\<exists>s. count_act a v = v\<lparr>stats := s\<rparr>"
    proof (cases a)
      case (Count c n)
      then show ?thesis by (auto simp: count_up_def)
    qed (auto intro!: exI [of _ "stats v"])
    with Cons [of "count_act a v"] show ?case by auto
  qed
  then show ?thesis by (simp add: emit_def log_ops_def)
qed

lemma pool_release_fields:
  assumes "pool_release k w = Some w'"
  shows "\<exists>pl acts s. pool_Release (worker_max_idle_backends (conf w)) k (pool w) = Some (pl, acts)
    \<and> w' = w\<lparr>pool := pl, ops := ops w @ map (Conn_Op k) acts, stats := s\<rparr>"
proof -
  obtain pl acts where "pool_Release (worker_max_idle_backends (conf w)) k (pool w) = Some (pl, acts)"
      "w' = emit k acts (w\<lparr>pool := pl\<rparr>)"
    using assms by (auto simp: pool_release_def bind_eq_Some_conv)
  with emit_fields [of k acts "w\<lparr>pool := pl\<rparr>"] show ?thesis by auto
qed

lemma no_client_ops: "filter is_client_read (map (Conn_Op k) acts) = []" "filter is_client_write (map (Conn_Op k) acts) = []"
  by (induction acts) simp_all

interpretation reads: world_rel "\<lambda>w w'. read_inv w \<longrightarrow> read_inv w'"
proof unfold_locales
  fix w w' ep k
  show "read_inv w \<longrightarrow> read_inv w'" if "pool_allocate ep w = Some (k, w')"
    using pool_allocate_fields [OF that] by (auto simp: read_inv_def)
  show "read_inv w \<longrightarrow> read_inv w'" if "pool_release k w = Some w'"
    using pool_release_fields [OF that] by (auto simp: read_inv_def no_client_ops)
  show "read_inv w \<longrightarrow> read_inv (AsyncRead w)" if "\<not> is_reading_query w"
    using that by (auto simp: read_inv_def AsyncRead_def UpdateTimer_def log_ops_def lock_client_def Let_def)
qed (auto simp: read_inv_def log_ops_def Let_def)

lemma read_inv_step:
  assumes "loop_step w w'" and "read_inv w"
  shows "read_inv w'"
  using assms(1)
proof cases
  case (step p e)
  let ?w = "w\<lparr>ops := remove1 p (ops w)\<rparr>"
  show ?thesis
  proof (cases "is_client_read p")
    case False
    then have "read_inv ?w"
      using assms(2) by (simp add: read_inv_def filter_remove1 remove1_idem)
    with reads.R_handle [OF step(3) False] show ?thesis by simp
  next
    case True
    then have "p \<in> set (filter is_client_read (ops w))" using step(1) by simp
    then have "length (filter is_client_read (ops w)) > 0" by (rule length_pos_if_in_set)
    with assms(2) have r: "is_reading_query w" "length (filter is_client_read (ops w)) = 1"
      by (auto simp: read_inv_def Let_def le_Suc_eq split: if_split_asm)
    with True step(1) have "filter is_client_read (ops ?w) = []"
      by (simp add: filter_remove1 length_remove1 flip: length_0_conv)
    then have "read_inv (?w\<lparr>is_reading_query := False\<rparr>)" "client_aborted w \<Longrightarrow> read_inv ?w"
      by (simp_all add: read_inv_def)
    moreover obtain off n r where "p = Client_Read off n" "e = Client_Data r"
      using True step(2) by (cases p; cases e) (auto simp: allowed_def)
    with step(3) have "client_HandleRead off r ?w = Some w'" by (simp add: handle_def)
    ultimately show ?thesis using reads.R_HandleRead [of off r ?w w'] by (auto split: if_split_asm)
  qed
qed

lemma read_inv_reachable: "reachable w \<Longrightarrow> read_inv w"
proof (induction rule: reachable.induct)
  case (start mem w0)
  show ?case
    by (simp add: read_inv_def StartRead_def AsyncRead_def UpdateTimer_def log_ops_def lock_client_def Let_def
        ClientConnection_def)
qed (rule read_inv_step)

text \<open>
  C10. No two reads from the client are ever in flight, so the bytes of two reads cannot mix in the buffer:
  for a client that is not aborted exactly one is when \<^verbatim>\<open>is_reading_query_\<close> is set, and none otherwise.
\<close>

theorem one_read_at_most:
  assumes "reachable w"
  shows "length (filter is_client_read (ops w)) \<le> 1
    \<and> (\<not> client_aborted w \<longrightarrow> (is_reading_query w \<longleftrightarrow> (\<exists>off n. Client_Read off n \<in> set (ops w))))"
proof -
  have "is_client_read p \<longleftrightarrow> (\<exists>off n. p = Client_Read off n)" for p by (cases p) auto
  then have "filter is_client_read (ops w) = [] \<longleftrightarrow> \<not> (\<exists>off n. Client_Read off n \<in> set (ops w))"
    by (auto simp: filter_empty_conv)
  with read_inv_reachable [OF assms] show ?thesis
    by (auto simp: read_inv_def Let_def split: if_split_asm)
qed

section \<open>The pool of connections\<close>

text \<open>
  A connection that was given back may still be changed by completions that were outstanding, so its flags
  are not known; but nothing changes who has it and where it leads.
\<close>

definition leads_to :: "BackendConnPool \<Rightarrow> conn_id \<Rightarrow> Endpoint \<Rightarrow> bool" where
  "leads_to pl i ep \<longleftrightarrow> (case conns pl i of None \<Rightarrow> False | Some b \<Rightarrow> remote_endpoint b = ep)"

definition pool_ok :: "BackendConnPool \<Rightarrow> bool" where
  "pool_ok pl \<longleftrightarrow>
     (\<forall>ep q. idle pl ep = Some q \<longrightarrow> distinct q \<and> (\<forall>i\<in>set q. active pl i = None \<and> leads_to pl i ep))
     \<and> (\<forall>i ep. active pl i = Some ep \<longrightarrow> leads_to pl i ep)"

definition worker_ok :: "World \<Rightarrow> bool" where
  "worker_ok w \<longleftrightarrow> pool_ok (pool w) \<and> (\<forall>j\<ge>next_conn w. conns (pool w) j = None)"

lemma pool_okI:
  assumes "\<And>ep q. idle pl ep = Some q \<Longrightarrow> distinct q"
    and "\<And>ep q i. idle pl ep = Some q \<Longrightarrow> i \<in> set q \<Longrightarrow> active pl i = None \<and> leads_to pl i ep"
    and "\<And>i ep. active pl i = Some ep \<Longrightarrow> leads_to pl i ep"
  shows "pool_ok pl"
  using assms by (auto simp: pool_ok_def)

lemma pool_okD:
  assumes "pool_ok pl"
  shows "idle pl ep = Some q \<Longrightarrow> distinct q"
    "idle pl ep = Some q \<Longrightarrow> i \<in> set q \<Longrightarrow> active pl i = None"
    "idle pl ep = Some q \<Longrightarrow> i \<in> set q \<Longrightarrow> leads_to pl i ep"
    "active pl i = Some ep \<Longrightarrow> leads_to pl i ep"
  using assms by (auto simp: pool_ok_def)

lemma leads_to_unique: "leads_to pl i ep \<Longrightarrow> leads_to pl i ep' \<Longrightarrow> ep = ep'"
  by (auto simp: leads_to_def split: option.split_asm)

text \<open>Two pools with the same connections and endpoints agree on \<open>leads_to\<close>.\<close>

lemma leads_to_put:
  "conns pl i = Some b \<Longrightarrow> remote_endpoint b' = remote_endpoint b \<Longrightarrow> leads_to (put_conn i b' pl) = leads_to pl"
  by (auto simp: leads_to_def put_conn_def fun_eq_iff)

lemma pool_ok_put:
  assumes "pool_ok pl" "conns pl i = Some b" "remote_endpoint b' = remote_endpoint b"
  shows "pool_ok (put_conn i b' pl)"
proof -
  have "idle (put_conn i b' pl) = idle pl" "active (put_conn i b' pl) = active pl" by (simp_all add: put_conn_def)
  with assms show ?thesis by (simp add: pool_ok_def leads_to_put)
qed

lemma pool_ok_Allocate:
  assumes "pool_ok pl" and "conns pl n = None" and al: "Allocate n mem sz ep pl = Some (k, pl')"
  shows "pool_ok pl' \<and> (\<forall>j. j \<noteq> n \<longrightarrow> conns pl' j = conns pl j) \<and> (k \<noteq> n \<longrightarrow> conns pl' n = None)"
proof (cases "\<exists>rest. idle pl ep = Some (k # rest) \<and> pl' = pl\<lparr>idle := (idle pl)(ep \<mapsto> rest), active := (active pl)(k \<mapsto> ep)\<rparr>")
  case True
  then obtain rest where q: "idle pl ep = Some (k # rest)"
      "pl' = pl\<lparr>idle := (idle pl)(ep \<mapsto> rest), active := (active pl)(k \<mapsto> ep)\<rparr>" by blast
  have l: "leads_to pl' = leads_to pl" by (simp add: q leads_to_def fun_eq_iff)
  have k: "leads_to pl k ep" "distinct (k # rest)" using pool_okD(1,3) [OF assms(1) q(1)] by auto
  have "pool_ok pl'"
  proof (rule pool_okI)
    fix e q' i assume q': "idle pl' e = Some q'" "i \<in> set q'"
    then obtain q0 where q0: "idle pl e = Some q0" "i \<in> set q0" "e = ep \<longrightarrow> i \<noteq> k"
      using q k(2) by (auto split: if_split_asm)
    moreover have "i \<noteq> k" using q0 k(1) pool_okD(3) [OF assms(1) q0(1,2)] leads_to_unique by blast
    ultimately show "active pl' i = None \<and> leads_to pl' i e"
      using pool_okD [OF assms(1)] l q(2) by auto
  next
    fix e q' assume "idle pl' e = Some q'"
    then show "distinct q'" using pool_okD(1) [OF assms(1)] q k(2) by (auto split: if_split_asm)
  next
    fix i e assume "active pl' i = Some e"
    then show "leads_to pl' i e" using pool_okD(4) [OF assms(1)] q(2) k(1) l by (auto split: if_split_asm)
  qed
  with q show ?thesis by (simp add: assms(2))
next
  case False
  with al have n: "k = n" "pl' = pl\<lparr>conns := (conns pl)(n \<mapsto> BackendConn mem sz ep), active := (active pl)(n \<mapsto> ep)\<rparr>"
    by (auto simp: Allocate_def Let_def split: option.split_asm list.split_asm if_split_asm)
  have l: "leads_to pl' i e = (if i = n then e = ep else leads_to pl i e)" for i e
    by (auto simp: n leads_to_def BackendConn_def)
  have fresh: "\<not> leads_to pl n e" for e using assms(2) by (simp add: leads_to_def)
  have "pool_ok pl'"
    using assms(1) fresh by (intro pool_okI) (auto simp: l, auto simp: n(2) pool_ok_def split: if_split_asm)
  with n show ?thesis by simp
qed

lemma pool_ok_Release:
  assumes "pool_ok pl" and "pool_Release mx k pl = Some (pl', acts)"
  shows "pool_ok pl' \<and> (\<forall>j. conns pl j = None \<longrightarrow> conns pl' j = None)"
proof (cases "active pl k")
  case None
  with assms show ?thesis by (simp add: pool_Release_def)
next
  case (Some ep)
  then obtain b where b: "conns pl k = Some b" "remote_endpoint b = ep"
    using pool_okD(4) [OF assms(1) Some] by (auto simp: leads_to_def split: option.split_asm)
  let ?pl = "pl\<lparr>active := (active pl)(k := None)\<rparr>"
  define q where "q = (case idle pl ep of None \<Rightarrow> [] | Some q \<Rightarrow> q)"
  have "\<exists>b'. remote_endpoint b' = ep
      \<and> (pl' = put_conn k b' ?pl \<or> pl' = (put_conn k b' ?pl)\<lparr>idle := (idle pl)(ep \<mapsto> q @ [k])\<rparr>)"
  proof (cases "recyclable b \<and> (\<forall>q. idle pl ep = Some q \<longrightarrow> of_nat (length q) < mx)")
    case True
    then obtain b' where b': "conn_Reset b = Some b'" by (auto simp: recyclable_def conn_Reset_def)
    with b have "remote_endpoint b' = ep" by (auto simp: conn_Reset_def split: if_split_asm)
    moreover have "pl' = (put_conn k b' ?pl)\<lparr>idle := (idle pl)(ep \<mapsto> q @ [k])\<rparr>"
      using True assms(2) Some b b' by (auto simp: pool_Release_def Let_def q_def not_le split: option.split_asm if_split_asm)
    ultimately show ?thesis by blast
  next
    case False
    then have "pl' = put_conn k (fst (Close b)) ?pl"
      using assms(2) Some b by (auto simp: pool_Release_def Let_def not_less split: option.split_asm prod.split_asm if_split_asm)
    moreover have "remote_endpoint (fst (Close b)) = ep" using b by (simp add: Close_def)
    ultimately show ?thesis by blast
  qed
  then obtain b' where pl': "remote_endpoint b' = ep"
      "pl' = put_conn k b' ?pl \<or> pl' = (put_conn k b' ?pl)\<lparr>idle := (idle pl)(ep \<mapsto> q @ [k])\<rparr>" by blast
  have ok: "pool_ok ?pl"
    using assms(1) by (auto simp: pool_ok_def leads_to_def)
  then have ok': "pool_ok (put_conn k b' ?pl)" using b pl'(1) by (intro pool_ok_put) auto
  have nk: "k \<notin> set q'" if "idle pl e = Some q'" for e q'
    using pool_okD(2) [OF assms(1) that] Some by auto
  have "pool_ok ((put_conn k b' ?pl)\<lparr>idle := (idle pl)(ep \<mapsto> q @ [k])\<rparr>)" (is "pool_ok ?pl'")
  proof (rule pool_okI)
    have l: "leads_to ?pl' = leads_to (put_conn k b' ?pl)" by (simp add: leads_to_def fun_eq_iff)
    have kk: "leads_to (put_conn k b' ?pl) k ep" using pl'(1) by (simp add: leads_to_def put_conn_def)
    have ak: "active (put_conn k b' ?pl) k = None" by (simp add: put_conn_def)
    fix e q' assume q': "idle ?pl' e = Some q'"
    show "distinct q'"
      using q' q_def pool_okD(1) [OF assms(1)] nk by (auto split: if_split_asm option.split_asm)
    fix i assume "i \<in> set q'"
    with q' have "(i = k \<and> e = ep) \<or> (\<exists>q0. idle (put_conn k b' ?pl) e = Some q0 \<and> i \<in> set q0)"
      by (auto simp: q_def put_conn_def split: if_split_asm option.split_asm)
    then have "active (put_conn k b' ?pl) i = None \<and> leads_to (put_conn k b' ?pl) i e"
      using kk pool_okD(2,3) [OF ok'] ak by blast
    then show "active ?pl' i = None \<and> leads_to ?pl' i e" by (simp add: l)
  next
    fix i e assume "active ?pl' i = Some e"
    then show "leads_to ?pl' i e" using pool_okD(4) [OF ok'] by (simp add: leads_to_def put_conn_def)
  qed
  with ok' pl'(2) b show ?thesis by (auto simp: put_conn_def)
qed

interpretation workers: world_rel "\<lambda>w w'. worker_ok w \<longrightarrow> worker_ok w'"
proof unfold_locales
  fix w w' :: World and ep k and b b' :: BackendConn
  show "worker_ok w \<longrightarrow> worker_ok w'" if al: "pool_allocate ep w = Some (k, w')"
  proof
    assume ok: "worker_ok w"
    obtain pl c where pl: "Allocate (next_conn w) (conn_mem w (next_conn w)) (conn_size w) ep (pool w) = Some (k, pl)"
        "w' = w\<lparr>pool := pl, next_conn := (if k = next_conn w then Suc k else next_conn w), stats := c\<rparr>"
      using pool_allocate_shape [OF al] by blast
    have "pool_ok pl \<and> (\<forall>j. j \<noteq> next_conn w \<longrightarrow> conns pl j = conns (pool w) j) \<and> (k \<noteq> next_conn w \<longrightarrow> conns pl (next_conn w) = None)"
      using ok by (intro pool_ok_Allocate [OF _ _ pl(1)]) (auto simp: worker_ok_def)
    with ok pl(2) show "worker_ok w'"
      by (auto simp: worker_ok_def) (metis le_neq_implies_less less_eq_Suc_le)
  qed
  show "worker_ok w \<longrightarrow> worker_ok w'" if "pool_release k w = Some w'"
    using pool_release_fields [OF that] pool_ok_Release by (fastforce simp: worker_ok_def)
  show "worker_ok w \<longrightarrow> worker_ok (w\<lparr>pool := put_conn k b' (pool w)\<rparr>)"
    if "conns (pool w) k = Some b" "remote_endpoint b' = remote_endpoint b"
    using that pool_ok_put by (auto simp: worker_ok_def put_conn_def)
  show "worker_ok w \<longrightarrow> worker_ok (AsyncRead w)"
    by (simp add: worker_ok_def AsyncRead_def UpdateTimer_def log_ops_def lock_client_def Let_def)
qed (auto simp: worker_ok_def log_ops_def)

lemma worker_ok_step:
  assumes "loop_step w w'" and "worker_ok w"
  shows "worker_ok w'"
  using assms(1)
proof cases
  case (step p e)
  let ?w = "w\<lparr>ops := remove1 p (ops w)\<rparr>"
  have ok: "worker_ok ?w" "worker_ok (?w\<lparr>is_reading_query := False\<rparr>)" using assms(2) by (simp_all add: worker_ok_def)
  show ?thesis
  proof (cases "is_client_read p")
    case True
    then obtain off n r where "p = Client_Read off n" "e = Client_Data r"
      using step(2) by (cases p; cases e) (auto simp: allowed_def)
    with step(3) have "client_HandleRead off r ?w = Some w'" by (simp add: handle_def)
    with ok workers.R_HandleRead [of off r ?w w'] show ?thesis by (auto split: if_split_asm)
  qed (use workers.R_handle [OF step(3)] ok in simp)
qed

lemma worker_ok_steps: "loop_step\<^sup>*\<^sup>* w w' \<Longrightarrow> worker_ok w \<Longrightarrow> worker_ok w'"
  by (induction rule: rtranclp_induct) (auto intro: worker_ok_step)

lemma worker_ok_start: "worker_ok w0 \<Longrightarrow> worker_ok (StartRead (ClientConnection mem w0))"
  by (simp add: worker_ok_def StartRead_def AsyncRead_def UpdateTimer_def log_ops_def lock_client_def Let_def
      ClientConnection_def count_up_def)


section \<open>After an abort\<close>

definition client_io :: "World \<Rightarrow> op list" where
  "client_io w = filter (\<lambda>p. is_client_read p \<or> is_client_write p) (ops w)"

text \<open>How many more completions an operation can lead to when no command is left.\<close>

fun op_weight :: "op \<Rightarrow> nat" where
  "op_weight (Conn_Op _ (Async_Connect _ _)) = 3"
| "op_weight (Conn_Op _ (Async_Write _ _)) = 1"
| "op_weight (Conn_Op _ (Async_Read _ _)) = 1"
| "op_weight (Conn_Op _ (Arm _ _)) = 1"
| "op_weight (Conn_Op _ (Post_QuerySent _)) = 1"
| "op_weight (Conn_Op _ _) = 0"
| "op_weight (Client_Read _ _) = 1"
| "op_weight (Client_Write _ _ _ _) = 1"
| "op_weight (Client_Arm _ _) = 1"
| "op_weight _ = 0"

definition outstanding :: "World \<Rightarrow> nat" where
  "outstanding w = sum_list (map op_weight (ops w))"

text \<open>The state of an aborted client, and the changes that are left.\<close>

definition dead :: "World \<Rightarrow> bool" where
  "dead w \<longleftrightarrow> client_aborted w \<and> cmds w = Map.empty"

definition fades :: "nat \<Rightarrow> World \<Rightarrow> World \<Rightarrow> bool" where
  "fades n w w' \<longleftrightarrow> dead w' \<and> client_io w' = client_io w \<and> outstanding w' \<le> outstanding w + n"

lemma fades_refl: "dead w \<Longrightarrow> fades 0 w w"
  by (simp add: fades_def)

lemma fades_trans: "fades n w w1 \<Longrightarrow> fades m w1 w2 \<Longrightarrow> fades (n + m) w w2"
  by (simp add: fades_def)

lemma fades_emit:
  assumes "dead w"
  shows "fades (sum_list (map (op_weight \<circ> Conn_Op k) acts)) w (emit k acts w)"
proof -
  have "filter (\<lambda>p. is_client_read p \<or> is_client_write p) (map (Conn_Op k) acts) = []" by (induction acts) simp_all
  moreover obtain s where "emit k acts w = w\<lparr>ops := ops w @ map (Conn_Op k) acts, stats := s\<rparr>"
    using emit_fields by blast
  ultimately show ?thesis
    using assms by (simp add: fades_def dead_def client_io_def outstanding_def)
qed

lemma fades_pool: "dead w \<Longrightarrow> fades 0 w (w\<lparr>pool := pl\<rparr>)"
  by (simp add: fades_def dead_def client_io_def outstanding_def)

lemma dead_callback: "dead w \<Longrightarrow> run_callback i f w = Some w' \<Longrightarrow> w' = w"
  by (simp add: run_callback_def dead_def)

lemma dead_sent:
  "dead w \<Longrightarrow> query_sent k ec w = Some w' \<Longrightarrow> w' = w" "dead w \<Longrightarrow> reply_received k ec w = Some w' \<Longrightarrow> w' = w"
  by (auto simp: query_sent_def reply_received_def bind_eq_Some_conv dest: dead_callback)

lemma fades_run_act:
  assumes "dead w" and "run_act k act w = Some w'"
  shows "fades (op_weight (Conn_Op k act)) w w'"
proof (cases act)
  case (ThenAbort ec)
  with assms obtain b where "w' = emit k (snd (conn_Abort ec b)) (w\<lparr>pool := put_conn k (fst (conn_Abort ec b)) (pool w)\<rparr>)"
    by (auto simp: conn_call_def bind_eq_Some_conv Let_def split_def)
  moreover have s: "sum_list (map (op_weight \<circ> Conn_Op k) (snd (conn_Abort ec b))) = 0" by (simp add: conn_Abort_def)
  have "dead (w\<lparr>pool := put_conn k (fst (conn_Abort ec b)) (pool w)\<rparr>)" using assms(1) by (simp add: dead_def)
  from fades_trans [OF fades_pool [OF assms(1)] fades_emit [OF this, of k "snd (conn_Abort ec b)"]]
  have "fades 0 w (emit k (snd (conn_Abort ec b)) (w\<lparr>pool := put_conn k (fst (conn_Abort ec b)) (pool w)\<rparr>))"
    unfolding s by simp
  ultimately show ?thesis using ThenAbort by simp
next
  case (ReplyReceived ec)
  with assms dead_sent(2) [OF assms(1)] fades_refl [OF assms(1)] show ?thesis by auto
next
  case (QuerySent ec)
  with assms dead_sent(1) [OF assms(1)] fades_refl [OF assms(1)] show ?thesis by auto
qed (use assms fades_emit [OF assms(1), of k "[act]"] in auto)

lemma fades_run_acts:
  "dead w \<Longrightarrow> foldM (run_act k) acts w = Some w' \<Longrightarrow> fades (sum_list (map (op_weight \<circ> Conn_Op k) acts)) w w'"
proof (induction acts arbitrary: w)
  case (Cons a acts)
  then obtain w1 where w1: "run_act k a w = Some w1" "foldM (run_act k) acts w1 = Some w'"
    by (auto simp: bind_eq_Some_conv)
  have f: "fades (op_weight (Conn_Op k a)) w w1" using Cons(2) w1(1) by (rule fades_run_act)
  then have "dead w1" by (simp add: fades_def)
  from fades_trans [OF f Cons(1) [OF this w1(2)]] show ?case by simp
qed (simp add: fades_refl)

lemma fades_conn_event:
  assumes "dead w" and "conn_event k f w = Some w'"
    and "\<And>b b' acts. f b = Some (b', acts) \<Longrightarrow> sum_list (map (op_weight \<circ> Conn_Op k) acts) \<le> n"
  shows "fades n w w'"
proof -
  obtain b b' acts where b: "f b = Some (b', acts)" "foldM (run_act k) acts (w\<lparr>pool := put_conn k b' (pool w)\<rparr>) = Some w'"
    using assms(2) by (auto simp: conn_event_def bind_eq_Some_conv)
  have "fades (sum_list (map (op_weight \<circ> Conn_Op k) acts)) (w\<lparr>pool := put_conn k b' (pool w)\<rparr>) w'"
    using assms(1) b(2) by (intro fades_run_acts) (simp_all add: dead_def)
  with assms(3) [OF b(1)] show ?thesis by (simp add: fades_def client_io_def outstanding_def)
qed

lemma conn_handler_weights:
  "HandleConnect p n ce oe b = (b', acts) \<Longrightarrow> sum_list (map (op_weight \<circ> Conn_Op k) acts) \<le> 2"
  "HandleWrite p n err t b = (b', acts) \<Longrightarrow> (\<not> err \<Longrightarrow> t = n) \<Longrightarrow> sum_list (map (op_weight \<circ> Conn_Op k) acts) = 0"
  "conn_HandleRead err t b = Some (b', acts) \<Longrightarrow> sum_list (map (op_weight \<circ> Conn_Op k) acts) = 0"
  "OnTimeout oa code b = Some (b', acts) \<Longrightarrow> sum_list (map (op_weight \<circ> Conn_Op k) acts) = 0"
  by (auto simp: conn_handlers Let_def bind_eq_Some_conv split: if_split_asm ErrorCode.split_asm)

lemma fades_conn_handle:
  assumes "dead w" and "conn_handle k act e w = Some w'" and "conn_allowed act e"
  shows "\<exists>n. fades n w w' \<and> n < op_weight (Conn_Op k act)"
proof (cases act)
  case (Async_Connect p n)
  with assms(2,3) obtain ce oe where "conn_event k (\<lambda>b. Some (HandleConnect p n ce oe b)) w = Some w'"
    by (cases e) (auto simp: conn_handle_def conn_allowed_def)
  then have "fades 2 w w'" by (rule fades_conn_event [OF assms(1)]) (auto dest: conn_handler_weights(1))
  with Async_Connect show ?thesis by (intro exI [of _ 2]) simp
next
  case (Async_Write p n)
  with assms(2,3) obtain err t where "conn_event k (\<lambda>b. Some (HandleWrite p n err t b)) w = Some w'" "\<not> err \<Longrightarrow> t = n"
    by (cases e) (auto simp: conn_handle_def conn_allowed_def)
  then have "fades 0 w w'"
    by (intro fades_conn_event [OF assms(1), of k "\<lambda>b. Some (HandleWrite p n err t b)"])
      (auto dest: conn_handler_weights(2) [where k = k])
  with Async_Write show ?thesis by (intro exI [of _ 0]) simp
next
  case (Async_Read off n)
  with assms(2,3) obtain err xs where "conn_event k (\<lambda>b. conn_HandleRead err (of_nat (length xs))
      (b\<lparr>buffer := mem_fill off xs (buffer b)\<rparr>)) w = Some w'"
    by (cases e) (auto simp: conn_handle_def conn_allowed_def)
  then have "fades 0 w w'" 
    by (rule fades_conn_event [OF assms(1)]) (auto dest: conn_handler_weights(3) [where k = k])
  with Async_Read show ?thesis by (intro exI [of _ 0]) simp
next
  case (Arm t code)
  with assms(2,3) obtain oa where "conn_event k (OnTimeout oa code) w = Some w'"
    by (cases e) (auto simp: conn_handle_def conn_allowed_def)
  then have "fades 0 w w'" 
    by (rule fades_conn_event [OF assms(1)]) (auto dest: conn_handler_weights(4) [where k = k])
  with Arm show ?thesis by (intro exI [of _ 0]) simp
next
  case (Post_QuerySent ec)
  with assms(2,3) have "query_sent k ec w = Some w'" by (cases e) (auto simp: conn_handle_def conn_allowed_def)
  with assms(1) have "w' = w" by (simp add: dead_sent)
  with Post_QuerySent fades_refl [OF assms(1)] show ?thesis by (intro exI [of _ 0]) simp
qed (use assms in \<open>simp_all add: conn_allowed_def\<close>)

lemma fades_log: "dead w \<Longrightarrow> os \<in> {[Client_Cancel t], []} \<Longrightarrow> fades 0 w (log_ops os w)"
  by (auto simp: fades_def dead_def client_io_def outstanding_def log_ops_def)

lemma fades_handle:
  assumes "dead w" and "handle p e w = Some w'" and "allowed p e"
  shows "\<exists>n. fades n w w' \<and> n < op_weight p"
proof (cases p)
  case (Conn_Op k act)
  with assms fades_conn_handle [OF assms(1)] show ?thesis by (simp add: handle_def allowed_def)
next
  case (Client_Read off n)
  with assms have "w' = log_ops [Client_Cancel Read_Timer] w"
    by (cases e) (auto simp: handle_def allowed_def client_HandleRead_def log_ops_def dead_def)
  with fades_log [OF assms(1)] Client_Read show ?thesis by (intro exI [of _ 0]) simp
next
  case (Client_Write q n i ko)
  with assms(2,3) obtain err t where e: "client_HandleWrite q n i ko err t w = Some w'" "\<not> err \<Longrightarrow> t = n"
    by (cases e) (auto simp: handle_def allowed_def)
  let ?v = "(if err then log_ops [Client_Cancel Write_Timer] w
      else count_up Bytes_To_Clients t (log_ops [Client_Cancel Write_Timer] w))\<lparr>is_writing_reply := False\<rparr>"
  have v: "fades 0 w ?v"
    using assms(1) by (simp add: fades_def dead_def client_io_def outstanding_def log_ops_def count_up_def)
  have "run_callback i (OnWriteReplyFinished i ko (if err then E_WRITE_REPLY else E_SUCCESS)) ?v = Some w'"
    using e by (cases err) (simp_all add: client_HandleWrite_def Let_def)
  then have "w' = ?v" using v by (intro dead_callback) (auto simp: fades_def)
  with v Client_Write show ?thesis by (intro exI [of _ 0]) simp
next
  case (Client_Arm t ms)
  with assms obtain oa where "client_OnTimeout t oa w = Some w'"
    by (cases e) (auto simp: handle_def allowed_def)
  with assms(1) have "fades 0 w w'"
    by (auto simp: client_OnTimeout_def client_Abort_def fades_def dead_def client_io_def outstanding_def count_up_def
        split: if_split_asm)
  with Client_Arm show ?thesis by (intro exI [of _ 0]) simp
qed (use assms in \<open>simp_all add: allowed_def\<close>)

lemma dead_step:
  assumes "dead w" and "loop_step w w'"
  shows "dead w' \<and> outstanding w' < outstanding w \<and> set (client_io w') \<subseteq> set (client_io w)"
  using assms(2)
proof cases
  case (step p e)
  let ?w = "w\<lparr>ops := remove1 p (ops w)\<rparr>"
  have "dead ?w" using assms(1) by (simp add: dead_def)
  from fades_handle [OF this step(3,2)] obtain n where n: "fades n ?w w'" "n < op_weight p" by blast
  have "outstanding w = op_weight p + outstanding ?w"
    using step(1) by (simp add: outstanding_def sum_list_map_remove1)
  moreover have "set (client_io ?w) \<subseteq> set (client_io w)"
    using set_remove1_subset [of p "ops w"] by (auto simp: client_io_def)
  ultimately show ?thesis using n by (auto simp: fades_def)
qed

lemma dead_reachable: "reachable w \<Longrightarrow> client_aborted w \<Longrightarrow> dead w"
  by (drule loop_inv_reachable) (auto simp: loop_inv_def dead_def)

lemma dead_steps:
  "dead w \<Longrightarrow> (loop_step ^^ n) w w' \<Longrightarrow> dead w' \<and> outstanding w' + n \<le> outstanding w \<and> set (client_io w') \<subseteq> set (client_io w)"
proof (induction n arbitrary: w')
  case (Suc n)
  then obtain w1 where "(loop_step ^^ n) w w1" "loop_step w1 w'" by auto
  with Suc dead_step [of w1 w'] show ?case by fastforce
qed simp

text \<open>
  C11. An abort is final: after it the client stays aborted, no command comes to life and no read from or
  write to the client is started; those in flight may still complete.
\<close>

theorem abort_is_final:
  assumes "reachable w" and "client_aborted w" and "loop_step\<^sup>*\<^sup>* w w'"
  shows "client_aborted w' \<and> cmds w' = Map.empty \<and> set (client_io w') \<subseteq> set (client_io w)"
proof -
  obtain n where "(loop_step ^^ n) w w'" using assms(3) rtranclp_imp_relpowp by metis
  from dead_steps [OF dead_reachable [OF assms(1,2)] this] show ?thesis by (simp add: dead_def)
qed

text \<open>
  C12. After an abort the event loop runs dry: only as many completions as \<^term>\<open>outstanding\<close> says can
  follow, so the connection, which the outstanding handlers keep alive, is freed.
\<close>

theorem abort_runs_dry:
  assumes "reachable w" and "client_aborted w" and "(loop_step ^^ n) w w'"
  shows "n \<le> outstanding w"
  using dead_steps [OF dead_reachable [OF assms(1,2)] assms(3)] by simp

end
