(* ===== verification/Client_Run.thy ===== *)
theory Client_Run
  imports World_Inv
begin

text \<open>
  The event loop as a function, and a run of it: the completions to handle are given by their position in
  \<open>ops\<close> and their outcome.
\<close>

definition complete :: "nat \<times> event \<Rightarrow> World \<Rightarrow> World option" where
  "complete ke w = (case ke of (k, e) \<Rightarrow>
     if k < length (ops w) \<and> allowed (ops w ! k) e
     then handle (ops w ! k) e (w\<lparr>ops := remove1 (ops w ! k) (ops w)\<rparr>) else None)"

lemma complete_step: "complete ke w = Some w' \<Longrightarrow> loop_step w w'"
  by (auto simp: complete_def split: prod.split_asm if_split_asm intro: loop_step.intros nth_mem)

lemma step_complete: "loop_step w w' \<longleftrightarrow> (\<exists>ke. complete ke w = Some w')"
proof
  assume "loop_step w w'"
  then show "\<exists>ke. complete ke w = Some w'"
  proof cases
    case (step p e)
    then obtain k where "k < length (ops w)" "ops w ! k = p" by (auto simp: in_set_conv_nth)
    with step show ?thesis by (intro exI [of _ "(k, e)"]) (simp add: complete_def)
  qed
qed (auto intro: complete_step)

lemma run_steps: "foldM complete es w = Some w' \<Longrightarrow> loop_step\<^sup>*\<^sup>* w w'"
  by (induction es arbitrary: w) (auto simp: bind_eq_Some_conv intro: converse_rtranclp_into_rtranclp complete_step)

lemma run_reachable: "foldM complete es w = Some w' \<Longrightarrow> reachable w \<Longrightarrow> reachable w'"
proof (induction es arbitrary: w)
  case (Cons e es)
  then obtain w1 where "complete e w = Some w1" "foldM complete es w1 = Some w'"
    by (auto simp: bind_eq_Some_conv)
  with Cons show ?case by (blast intro: reachable.turn complete_step)
qed simp

section \<open>A sample\<close>

text \<open>Two backends; the keys \<^verbatim>\<open>a\<close> and \<^verbatim>\<open>b\<close> are on different ones.\<close>

definition sample_ring :: KeyDistributer where
  "sample_ring = \<lparr>weighted_nodes = [],
     cache_points = [\<lparr>hash_point = 0x7FFFFFFF, endpoint = Endpoint 0x0A000001 80\<rparr>, \<lparr>hash_point = 0xFFFFFFFF, endpoint = Endpoint 0x0A000002 80\<rparr>]\<rparr>"

definition sample_world :: World where
  "sample_world =
     \<lparr>conf = Config0, key_locator = [''r/'' \<mapsto> sample_ring, ''m/'' \<mapsto> sample_ring], pool = pool0, next_conn = 0,
      conn_mem = (\<lambda>_. replicate 80 NUL), conn_size = 80, alive_since = 0, stats = (\<lambda>_. 0),
      client_buffer = ReadBuffer [] 0, is_reading_query = False, is_writing_reply = False, client_aborted = False,
      active_cmd_queue = [], cmds = Map.empty, next_cmd = 0, held = [], ops = []\<rparr>"

definition sample_start :: World where
  "sample_start = StartRead (ClientConnection (replicate 80 NUL) sample_world)"

lemma sample_start_reachable: "reachable sample_start"
  unfolding sample_start_def by (rule reachable.start)

lemma sample_start_ops:
  "ops sample_start = [Client_Arm Read_Timer 60000, Client_Read 0 80]" "\<not> client_aborted sample_start"
  "is_reading_query sample_start" "active_cmd_queue sample_start = []"
  by (simp_all add: sample_start_def StartRead_def AsyncRead_def UpdateTimer_def log_ops_def lock_client_def Let_def
      ClientConnection_def count_up_def sample_world_def ReadBuffer_def free_space_begin_def free_space_size_def inc_recycle_lock_def
      unparsed_received_bytes_def Config0_def)

lemma sample_worker: "worker_ok sample_world"
  by (simp add: worker_ok_def pool_ok_def sample_world_def pool0_def)

text \<open>The client resets the connection; its read timer is still armed.\<close>

definition sample_aborted :: World where
  "sample_aborted = the (complete (1, Client_Data Read_Error) sample_start)"

lemma sample_aborted:
  "complete (1, Client_Data Read_Error) sample_start = Some sample_aborted"
  "client_aborted sample_aborted"
  "ops sample_aborted = [Client_Arm Read_Timer 60000, Client_Cancel Read_Timer, Client_Cancel Read_Timer,
     Client_Cancel Write_Timer, Client_Close]"
  by (simp_all add: sample_aborted_def complete_def handle_def allowed_def client_HandleRead_def client_Abort_def
      log_ops_def sample_start_ops)

lemma sample_aborted_reachable: "reachable sample_aborted"
  by (rule reachable.turn [OF sample_start_reachable complete_step [OF sample_aborted(1)]])

definition sample_drained :: World where
  "sample_drained = sample_aborted\<lparr>ops := tl (ops sample_aborted)\<rparr>"

lemma sample_drained: "loop_step sample_aborted sample_drained"
proof (rule complete_step)
  show "complete (0, Timer_Fired True) sample_aborted = Some sample_drained"
    by (simp add: complete_def handle_def allowed_def client_OnTimeout_def sample_aborted(3) sample_drained_def)
qed

definition get_query :: "char \<Rightarrow> bytes" where
  "get_query k = ''*2'' @ CRLF @ ''$3'' @ CRLF @ ''get'' @ CRLF @ ''$1'' @ CRLF @ [k] @ CRLF"

text \<open>
  Two queries arrive together and go to different backends.  The second backend replies before the first;
  its reply waits until the first one has been written.
\<close>

definition sample_events :: "(nat \<times> event) list" where
  "sample_events =
     [(1, Client_Data (Received (get_query (CHR ''a'') @ get_query (CHR ''e'')))),
      (5, Connected False False), (3, Connected False False),
      (6, Query_Written False 20), (8, Query_Written False 20),
      (11, Reply_Read False (''$1'' @ CRLF @ ''2'' @ CRLF)), (14, Reply_Read False (''$1'' @ CRLF @ ''1'' @ CRLF))]"

definition sample_reply1 :: op where
  "sample_reply1 = Client_Write (Backend_Buffer 0, 0) 7 0 (Some 0)"

definition sample_reply2 :: op where
  "sample_reply2 = Client_Write (Backend_Buffer 1, 0) 7 1 (Some 1)"

lemma sample_run:
  "map_option (\<lambda>(w, w'). (active_cmd_queue w, is_writing_reply w, sample_reply1 \<in> set (ops w),
       active_cmd_queue w', sample_reply2 \<in> set (ops w')))
     (do { w \<leftarrow> foldM complete sample_events sample_start;
           w' \<leftarrow> complete (19, Client_Written False 7) w;
           Some (w, w') })
   = Some ([0, 1], True, True, [1], True)"
  by code_simp

lemma sample_worlds:
  "\<exists>w w'. reachable w \<and> loop_step w w' \<and> active_cmd_queue w = [0, 1] \<and> is_writing_reply w \<and> sample_reply1 \<in> set (ops w)
     \<and> active_cmd_queue w' = [1] \<and> sample_reply2 \<in> set (ops w')"
proof -
  obtain w w' where w: "foldM complete sample_events sample_start = Some w"
      "complete (19, Client_Written False 7) w = Some w'"
      "active_cmd_queue w = [0, 1]" "is_writing_reply w" "sample_reply1 \<in> set (ops w)"
      "active_cmd_queue w' = [1]" "sample_reply2 \<in> set (ops w')"
    using sample_run by (auto simp: bind_eq_Some_conv)
  moreover have "reachable sample_start" unfolding sample_start_def by (rule reachable.start)
  ultimately show ?thesis using run_reachable complete_step by blast
qed

section \<open>Witnesses\<close>

theorem one_write_of_the_first_witness:
  "\<exists>w. reachable w \<and> sample_reply1 \<in> set (ops w) \<and> length (filter is_client_write (ops w)) = 1
     \<and> active_cmd_queue w = [0, 1]"
proof -
  obtain w where w: "reachable w" "is_writing_reply w" "sample_reply1 \<in> set (ops w)" "active_cmd_queue w = [0, 1]"
    using sample_worlds by blast
  with one_write_of_the_first [OF w(1)] show ?thesis by auto
qed

theorem replies_in_order_witness:
  "\<exists>w w'. reachable w \<and> loop_step w w' \<and> sample_reply1 \<in> set (ops w) \<and> sample_reply2 \<in> set (ops w') \<and> (0::cmd_id) \<le> 1"
proof -
  obtain w w' where w: "reachable w" "loop_step w w'" "sample_reply1 \<in> set (ops w)" "sample_reply2 \<in> set (ops w')"
    using sample_worlds by blast
  have "loop_step\<^sup>*\<^sup>* w w'" using w(2) by (rule r_into_rtranclp [of loop_step])
  from replies_in_order [OF w(1) this] w(3,4) have "(0::cmd_id) \<le> 1"
    unfolding sample_reply1_def sample_reply2_def by blast
  with w show ?thesis by blast
qed

theorem pipeline_bounded_witness:
  "\<exists>w. reachable w \<and> active_cmd_queue w = [0, 1] \<and> dom (cmds w) = {0, 1}"
proof -
  obtain w where w: "reachable w" "active_cmd_queue w = [0, 1]" using sample_worlds by blast
  with pipeline_bounded [OF w(1)] show ?thesis by auto
qed

theorem one_read_at_most_witness:
  "length (filter is_client_read (ops sample_start)) \<le> 1 \<and> (\<exists>off n. Client_Read off n \<in> set (ops sample_start))"
  using one_read_at_most [OF sample_start_reachable] sample_start_ops by blast


theorem abort_is_final_witness:
  "client_aborted sample_drained \<and> cmds sample_drained = Map.empty \<and> client_io sample_drained = []"
proof -
  have "loop_step\<^sup>*\<^sup>* sample_aborted sample_drained" using sample_drained by (rule r_into_rtranclp [of loop_step])
  from abort_is_final [OF sample_aborted_reachable sample_aborted(2) this] show ?thesis
    by (simp add: client_io_def sample_aborted(3))
qed

theorem abort_runs_dry_witness:
  "(loop_step ^^ 1) sample_aborted sample_drained \<and> 1 \<le> outstanding sample_aborted \<and> outstanding sample_aborted = 1"
proof -
  have s: "(loop_step ^^ 1) sample_aborted sample_drained" using sample_drained by (simp only: relpowp_1)
  from abort_runs_dry [OF sample_aborted_reachable sample_aborted(2) s] s show ?thesis
    by (simp add: outstanding_def sample_aborted(3))
qed

end
