(* ===== verification/Command_Split.thy ===== *)
theory Command_Split
  imports Client_Run
begin

text \<open>
  How commands with several keys are cut up: MGET, MSET and DEL (with EXISTS and TOUCH) send to every backend a
  query of its own, made of a new header and of pieces of the client's buffer.  The theory gives the contract
  that the three ways of adding a key share, shows that the three constructors meet it, and concludes that the
  queries sent are well-formed arrays with exactly the keys of their backend, in the client's order.
\<close>

section \<open>Where a key is\<close>

definition located :: "World \<Rightarrow> bytes \<Rightarrow> Endpoint option" where
  "located w key = Locate (conf w) (key_locator w) key (of_nat (length key)) REDIS"

lemma Locate_prefix:
  assumes "0 < max_namespace_length c" "max_namespace_length c < 2 ^ 31 - 1" "length key < 2 ^ 31"
  shows "Locate c l (key @ rest) (of_nat (length key)) prot = Locate c l key (of_nat (length key)) prot"
proof -
  have "unat (ucast (of_nat (length key) :: size_t) :: 32 word) \<le> length key"
    by (simp add: unsigned_ucast_eq unat_of_nat_size_t assms(3) [THEN order_less_le_trans])
  then have "doobs_hash (key @ rest) (ucast (of_nat (length key) :: size_t)) 0
      = doobs_hash key (ucast (of_nat (length key) :: size_t)) 0"
    by (intro doobs_hash_cong) simp
  then show ?thesis
    using KeyNamespace_eq [OF assms, of rest prot] KeyNamespace_eq [OF assms, of "[]" prot]
    by (simp add: Locate_def LocateCacheNode_def)
qed

definition namespaces_ok :: "Config \<Rightarrow> bool" where
  "namespaces_ok c \<longleftrightarrow> 0 < max_namespace_length c \<and> max_namespace_length c < 2 ^ 31 - 1"

lemma received_drop: "received m b s \<Longrightarrow> drop (raw_data b + head_len s) m = s @ CRLF @ drop (raw_data b + wire_len s) m"
proof -
  assume r: "received m b s"
  then have d: "drop (raw_data b) m = (CHR ''$'' # nat_dec (length s) @ CRLF) @ s @ CRLF @ drop (raw_data b + wire_len s) m"
    by (simp add: received_def bulk_wire_head(1))
  have "drop (head_len s) (drop (raw_data b) m) = s @ CRLF @ drop (raw_data b + wire_len s) m"
    unfolding d by (simp add: head_len_def numeral_eq_Suc)
  then show ?thesis by (simp add: add.commute)
qed

lemma locate_received:
  assumes "received m b s" "namespaces_ok (conf w)"
  shows "locate_bulk w m b = located w s"
proof -
  have "length s < 2 ^ 31" using assms(1) by (simp add: received_def wire_len_def)
  with assms show ?thesis
    unfolding locate_bulk_def located_def
    by (simp add: received_drop received_def namespaces_ok_def Locate_prefix)
qed

section \<open>Pieces of the buffer\<close>

fun seg_bytes :: "bytes \<Rightarrow> segment \<Rightarrow> bytes" where
  "seg_bytes m ((Client_Buffer, p), n) = take (unat n) (drop p m)"
| "seg_bytes m ((Const_Data bs, p), n) = take (unat n) (drop p bs)"
| "seg_bytes m ((Backend_Buffer k, p), n) = []"

definition segs_bytes :: "bytes \<Rightarrow> segment list \<Rightarrow> bytes" where
  "segs_bytes m segs = concat (map (seg_bytes m) segs)"

abbreviation in_client :: "segment list \<Rightarrow> bool" where
  "in_client segs \<equiv> segs \<noteq> [] \<and> (\<forall>s\<in>set segs. fst (fst s) = Client_Buffer)"

definition seg_end :: "segment list \<Rightarrow> nat" where
  "seg_end segs = snd (fst (last segs)) + unat (snd (last segs))"

text \<open>A piece \<open>b\<close> of the memory at \<open>p\<close>.\<close>

definition piece :: "bytes \<Rightarrow> nat \<Rightarrow> bytes \<Rightarrow> bool" where
  "piece m p b \<longleftrightarrow> b \<noteq> [] \<and> drop p m = b @ drop (p + length b) m \<and> length m < 2 ^ 64"

lemma piece_length: "piece m p b \<Longrightarrow> p + length b \<le> length m \<and> length b < 2 ^ 64"
proof -
  assume b: "piece m p b"
  then have "length (drop p m) = length b + length (drop (p + length b) m)"
    by (metis piece_def length_append)
  moreover have "0 < length b" "length m < 2 ^ 64" using b by (auto simp: piece_def)
  ultimately show ?thesis by (simp only: length_drop) linarith
qed

lemma piece_bytes: "piece m p b \<Longrightarrow> seg_bytes m ((Client_Buffer, p), of_nat (length b)) = b"
  using piece_length [of m p b] by (simp add: unat_of_nat_size_t) (metis append_eq_conv_conj piece_def)

lemma append_segment:
  assumes "piece m p b" "in_client segs"
  defines "segs' \<equiv> segs @ [((Client_Buffer, p), of_nat (length b))]"
  shows "segs_bytes m segs' = segs_bytes m segs @ b" "in_client segs'" "seg_end segs' = p + length b"
  using assms(2) piece_bytes [OF assms(1)] piece_length [OF assms(1)]
  by (auto simp: segs'_def segs_bytes_def seg_end_def unat_of_nat_size_t)

lemma grow_segment:
  assumes "piece m p b" "in_client segs" "seg_end segs = p"
  shows "\<exists>segs'. grow_last (of_nat (length b)) segs = Some segs'
    \<and> segs_bytes m segs' = segs_bytes m segs @ b \<and> in_client segs' \<and> seg_end segs' = p + length b"
proof -
  obtain xs q l where s: "segs = xs @ [((Client_Buffer, q), l)]"
    using assms(2) by (cases segs rule: rev_cases) (auto simp: prod_eq_iff)
  have p: "p = q + unat l" using assms(3) by (simp add: s seg_end_def)
  have u: "unat (l + of_nat (length b)) = unat l + length b"
    using piece_length [OF assms(1)] assms(1) unat_add_size_t [of l "of_nat (length b)"]
    by (simp add: p piece_def unat_of_nat_size_t)
  have "take (unat l + length b) (drop q m) = take (unat l) (drop q m) @ take (length b) (drop p m)"
    using take_add [of "unat l" "length b" "drop q m"] by (simp only: p drop_drop add.commute [of q "unat l"])
  also have "take (length b) (drop p m) = b"
    using assms(1) by (metis append_eq_conv_conj piece_def)
  finally show ?thesis
    using assms(2) by (simp add: s grow_last_def segs_bytes_def seg_end_def u p)
qed

lemma add_piece:
  assumes "piece m p b" "in_client segs"
  shows "\<exists>segs'. add_segment (Client_Buffer, p) (of_nat (length b)) segs = Some segs'
    \<and> segs_bytes m segs' = segs_bytes m segs @ b \<and> in_client segs' \<and> seg_end segs' = p + length b"
proof (cases "seg_end segs = p")
  case True
  then have "add_segment (Client_Buffer, p) (of_nat (length b)) segs = grow_last (of_nat (length b)) segs"
    using assms(2) by (simp add: add_segment_def ptr_add_def seg_end_def)
  with grow_segment [OF assms True] show ?thesis by simp
next
  case False
  then have "add_segment (Client_Buffer, p) (of_nat (length b)) segs = Some (segs @ [((Client_Buffer, p), of_nat (length b))])"
    using assms(2) by (simp add: add_segment_def ptr_add_def seg_end_def)
  with append_segment [OF assms] show ?thesis by simp
qed

section \<open>The contract of adding a key\<close>

text \<open>
  What the subqueries are for an observer: for every endpoint the connection, the number of keys and the segments.
  \<open>ps\<close> are the keys (or pairs of a key and a value) as they are on the wire, with their endpoints.
\<close>

type_synonym part = "conn_id \<times> size_t \<times> segment list"

definition parts :: "Endpoint \<Rightarrow> (Endpoint \<times> bytes) list \<Rightarrow> bytes list" where
  "parts ep ps = map snd (filter (\<lambda>p. fst p = ep) ps)"

definition part_ok :: "bytes \<Rightarrow> World \<Rightarrow> (Endpoint \<times> bytes) list \<Rightarrow> Endpoint \<Rightarrow> part \<Rightarrow> bool" where
  "part_ok m w ps ep pt \<longleftrightarrow> (case pt of (k, n, segs) \<Rightarrow>
     active (pool w) k = Some ep \<and> n = of_nat (length (parts ep ps))
     \<and> in_client segs \<and> segs_bytes m segs = concat (parts ep ps))"

definition split_ok :: "bytes \<Rightarrow> World \<Rightarrow> (Endpoint \<rightharpoonup> part) \<Rightarrow> (Endpoint \<times> bytes) list \<Rightarrow> bool" where
  "split_ok m w V ps \<longleftrightarrow> worker_ok w \<and> dom V = fst ` set ps \<and> (\<forall>ep pt. V ep = Some pt \<longrightarrow> part_ok m w ps ep pt)"

text \<open>What adding keys leaves alone.\<close>

definition same_setup :: "World \<Rightarrow> World \<Rightarrow> bool" where
  "same_setup w w' \<longleftrightarrow> conf w' = conf w \<and> key_locator w' = key_locator w \<and> cmds w' = cmds w \<and> next_cmd w' = next_cmd w
     \<and> (\<forall>k ep. active (pool w) k = Some ep \<longrightarrow> active (pool w') k = Some ep)"

lemma same_setup_refl [simp]: "same_setup w w"
  by (simp add: same_setup_def)

lemma same_setup_trans: "same_setup w w' \<Longrightarrow> same_setup w' w'' \<Longrightarrow> same_setup w w''"
  by (simp add: same_setup_def)

lemma located_same: "same_setup w w' \<Longrightarrow> located w' = located w"
  by (rule ext) (simp add: same_setup_def located_def)

lemma parts_snoc: "parts ep (ps @ [(ep', b)]) = parts ep ps @ (if ep = ep' then [b] else [])"
  by (simp add: parts_def)

lemma allocate_fresh:
  assumes "worker_ok w"
  shows "\<exists>k w'. pool_allocate ep w = Some (k, w') \<and> worker_ok w' \<and> same_setup w w' \<and> client_buffer w' = client_buffer w
    \<and> active (pool w) k = None \<and> active (pool w') k = Some ep"
proof -
  have pl: "pool_ok (pool w)" "conns (pool w) (next_conn w) = None"
    using assms by (auto simp: worker_ok_def)
  have new: "active (pool w) (next_conn w) = None"
    using pl pool_okD(4) [OF pl(1), of "next_conn w"] by (cases "active (pool w) (next_conn w)") (auto simp: leads_to_def)
  have idle: "idle (pool w) ep = Some (k # ks) \<Longrightarrow> active (pool w) k = None" for k ks
    using pool_okD(2) [OF pl(1)] by auto
  have "\<exists>k w'. pool_allocate ep w = Some (k, w') \<and> same_setup w w' \<and> client_buffer w' = client_buffer w
      \<and> active (pool w) k = None \<and> active (pool w') k = Some ep"
    using new idle
    by (auto simp: pool_allocate_def Allocate_def same_setup_def count_up_def Let_def split: option.split list.split)
  then obtain k w' where k: "pool_allocate ep w = Some (k, w')" "same_setup w w'" "client_buffer w' = client_buffer w"
      "active (pool w) k = None" "active (pool w') k = Some ep"
    by blast
  moreover have "worker_ok w'" using workers.R_allocate [OF k(1)] assms by simp
  ultimately show ?thesis by blast
qed

lemma allocate_locked:
  assumes "worker_ok w"
  shows "\<exists>k w'. pool_allocate ep (lock_client w) = Some (k, w') \<and> worker_ok w' \<and> same_setup w w'
    \<and> active (pool w) k = None \<and> active (pool w') k = Some ep"
proof -
  have "worker_ok (lock_client w)" using assms by (simp add: worker_ok_def lock_client_def)
  from allocate_fresh [OF this, of ep] show ?thesis by (auto simp: lock_client_def same_setup_def)
qed

lemma part_ok_other:
  "part_ok m w ps ep pt \<Longrightarrow> same_setup w w' \<Longrightarrow> ep \<noteq> ep' \<Longrightarrow> part_ok m w' (ps @ [(ep', b)]) ep pt"
  by (auto simp: part_ok_def same_setup_def parts_snoc split: prod.split_asm)

lemma split_ok_add:
  assumes "split_ok m w V ps" "worker_ok w'" "same_setup w w'" "part_ok m w' (ps @ [(ep, b)]) ep pt"
  shows "split_ok m w' (V(ep \<mapsto> pt)) (ps @ [(ep, b)])"
proof -
  have "part_ok m w' (ps @ [(ep, b)]) e q" if "(V(ep \<mapsto> pt)) e = Some q" for e q
    using that assms(1,3,4) part_ok_other [of m w ps e q w' ep b]
    by (cases "e = ep"; cases q) (simp_all add: split_ok_def)
  with assms(1,2) show ?thesis by (auto simp: split_ok_def)
qed

text \<open>
  The contract: \<open>view\<close> shows the subqueries, \<open>push\<close> adds the piece of \<open>n\<close> bytes at \<open>p\<close>; \<open>inv s p ps\<close> is what a
  class relies on when the pieces \<open>ps\<close> have been added and the next one is at \<open>p\<close>, \<open>fits\<close> what it needs of an
  endpoint.
\<close>

locale key_split =
  fixes view :: "'s \<Rightarrow> Endpoint \<rightharpoonup> part"
    and push :: "Endpoint \<Rightarrow> nat \<Rightarrow> size_t \<Rightarrow> 's \<times> World \<Rightarrow> ('s \<times> World) option"
    and inv :: "'s \<Rightarrow> nat \<Rightarrow> (Endpoint \<times> bytes) list \<Rightarrow> bool"
    and fits :: "Endpoint \<Rightarrow> bool"
  assumes push_new: "\<lbrakk>inv s p ps; fits ep; view s ep = None; dom (view s) = fst ` set ps; piece m p b;
        pool_allocate ep (lock_client w) = Some (k, w')\<rbrakk>
      \<Longrightarrow> \<exists>s'. push ep p (of_nat (length b)) (s, w) = Some (s', w')
        \<and> view s' = (view s)(ep \<mapsto> (k, 1, [((Client_Buffer, p), of_nat (length b))]))
        \<and> inv s' (p + length b) (ps @ [(ep, b)])"
    and push_more: "\<lbrakk>inv s p ps; fits ep; view s ep = Some (k, c, segs); dom (view s) = fst ` set ps; piece m p b;
        in_client segs\<rbrakk>
      \<Longrightarrow> \<exists>s' segs'. push ep p (of_nat (length b)) (s, w) = Some (s', w)
        \<and> view s' = (view s)(ep \<mapsto> (k, c + 1, segs')) \<and> in_client segs' \<and> segs_bytes m segs' = segs_bytes m segs @ b
        \<and> inv s' (p + length b) (ps @ [(ep, b)])"
begin

lemma push_ok:
  assumes "inv s p ps" "fits ep" "split_ok m w (view s) ps" "piece m p b"
  shows "\<exists>s' w'. push ep p (of_nat (length b)) (s, w) = Some (s', w') \<and> same_setup w w'
    \<and> inv s' (p + length b) (ps @ [(ep, b)]) \<and> split_ok m w' (view s') (ps @ [(ep, b)])"
proof (cases "view s ep")
  case None
  obtain k w' where a: "pool_allocate ep (lock_client w) = Some (k, w')" "worker_ok w'" "same_setup w w'"
      "active (pool w') k = Some ep"
    using allocate_locked [of w ep] assms(3) by (auto simp: split_ok_def)
  have dom: "dom (view s) = fst ` set ps" using assms(3) by (simp add: split_ok_def)
  then have "ep \<notin> fst ` set ps" using None by (simp add: domIff flip: dom)
  then have none: "parts ep ps = []" by (force simp: parts_def filter_empty_conv)
  then have "part_ok m w' (ps @ [(ep, b)]) ep (k, 1, [((Client_Buffer, p), of_nat (length b))])"
    using a(4) piece_bytes [OF assms(4)] by (simp add: part_ok_def parts_snoc segs_bytes_def)
  then show ?thesis
    using push_new [OF assms(1,2) None dom assms(4) a(1)] split_ok_add [OF assms(3) a(2,3)] a(3) by auto
next
  case (Some pt)
  obtain k c segs where pt: "pt = (k, c, segs)" by (cases pt)
  have ok: "part_ok m w ps ep (k, c, segs)" "worker_ok w" "dom (view s) = fst ` set ps"
    using assms(3) Some pt by (auto simp: split_ok_def)
  obtain s' segs' where s: "push ep p (of_nat (length b)) (s, w) = Some (s', w)"
      "view s' = (view s)(ep \<mapsto> (k, c + 1, segs'))" "in_client segs'" "segs_bytes m segs' = segs_bytes m segs @ b"
      "inv s' (p + length b) (ps @ [(ep, b)])"
    using push_more [OF assms(1,2) Some [unfolded pt] ok(3) assms(4), of w] ok(1) unfolding part_ok_def prod.case by blast
  have "part_ok m w (ps @ [(ep, b)]) ep (k, c + 1, segs')"
    using ok(1) s(3,4) by (simp add: part_ok_def parts_snoc)
  then show ?thesis
    using s split_ok_add [OF assms(3) ok(2) same_setup_refl] by auto
qed

end

section \<open>The three classes\<close>

lemma map_of_emplace: "map_of m k = None \<Longrightarrow> map_of (map_emplace k v m) = (map_of m)(k \<mapsto> v)"
  by (induction k v m rule: map_emplace.induct) (auto split: if_splits)

lemma map_of_adjust: "map_of (adjust k f m) = (map_of m)(k := map_option f (map_of m k))"
  by (induction m) (auto simp: adjust_def fun_eq_iff)

definition sub_part :: "'a Subquery_scheme \<Rightarrow> part" where
  "sub_part q = (sub_backend q, keys_count q, sub_segments q)"

lemma push_key_part:
  assumes "sub_part q = (k, c, segs)" "piece m p b" "in_client segs"
  shows "\<exists>q' segs'. push_key (Client_Buffer, p) (of_nat (length b)) q = Some q' \<and> sub_part q' = (k, c + 1, segs')
    \<and> in_client segs' \<and> segs_bytes m segs' = segs_bytes m segs @ b"
  using add_piece [OF assms(2,3)] assms(1) by (auto simp: push_key_def sub_part_def)

text \<open>DEL: the subqueries wait in a map from endpoints.\<close>

definition del_view :: "RedisDelCommand \<Rightarrow> Endpoint \<rightharpoonup> part" where
  "del_view d ep = map_option sub_part (map_of (del_waiting d) ep)"

definition del_inv :: "RedisDelCommand \<Rightarrow> RedisDelCommand \<Rightarrow> nat \<Rightarrow> (Endpoint \<times> bytes) list \<Rightarrow> bool" where
  "del_inv d0 d p ps \<longleftrightarrow> d\<lparr>del_waiting := del_waiting d0\<rparr> = d0"

interpretation del: key_split del_view "\<lambda>ep p. del_PushSubquery ep (Client_Buffer, p)" "del_inv d0" "\<lambda>_. True" for d0
proof unfold_locales
  fix s p ps ep m and b :: bytes and w k w'
  assume a: "del_inv d0 s p ps" "del_view s ep = None" "pool_allocate ep (lock_client w) = Some (k, w')"
  then show "\<exists>s'. del_PushSubquery ep (Client_Buffer, p) (of_nat (length b)) (s, w) = Some (s', w')
      \<and> del_view s' = (del_view s)(ep \<mapsto> (k, 1, [((Client_Buffer, p), of_nat (length b))]))
      \<and> del_inv d0 s' (p + length b) (ps @ [(ep, b)])"
    by (auto simp: del_view_def del_PushSubquery_def map_of_emplace sub_part_def fun_eq_iff del_inv_def)
next
  fix s p ps ep k c segs m b w
  assume a: "del_inv d0 s p ps" "del_view s ep = Some (k, c, segs)" "piece m p b" "in_client segs"
  then obtain q where q: "map_of (del_waiting s) ep = Some q" "sub_part q = (k, c, segs)"
    by (auto simp: del_view_def)
  with push_key_part [OF q(2) a(3,4)] a(1)
  show "\<exists>s' segs'. del_PushSubquery ep (Client_Buffer, p) (of_nat (length b)) (s, w) = Some (s', w)
      \<and> del_view s' = (del_view s)(ep \<mapsto> (k, c + 1, segs')) \<and> in_client segs' \<and> segs_bytes m segs' = segs_bytes m segs @ b
      \<and> del_inv d0 s' (p + length b) (ps @ [(ep, b)])"
    by (fastforce simp: del_view_def del_PushSubquery_def map_of_adjust fun_eq_iff del_inv_def)
qed

text \<open>MSET: the map leads to numbered subqueries, which other maps share.\<close>

definition mset_view :: "RedisMsetCommand \<Rightarrow> Endpoint \<rightharpoonup> part" where
  "mset_view d ep = do { s \<leftarrow> map_of (mset_waiting d) ep; q \<leftarrow> mset_store d s; Some (sub_part q) }"

definition mset_inv :: "RedisMsetCommand \<Rightarrow> RedisMsetCommand \<Rightarrow> nat \<Rightarrow> (Endpoint \<times> bytes) list \<Rightarrow> bool" where
  "mset_inv d0 d p ps \<longleftrightarrow>
     mset_unparsed_bulks d = mset_unparsed_bulks d0 \<and> mset_pending d = mset_pending d0
     \<and> (\<forall>ep s. map_of (mset_waiting d) ep = Some s \<longrightarrow> s < mset_next d \<and> mset_store d s \<noteq> None)
     \<and> inj_on (map_of (mset_waiting d)) (dom (map_of (mset_waiting d)))"

lemma mset_invD: "mset_inv d0 d p ps \<Longrightarrow> map_of (mset_waiting d) ep = Some s \<Longrightarrow> \<exists>q. mset_store d s = Some q"
  by (auto simp: mset_inv_def)

lemma mset_store_upd:
  assumes "mset_inv d0 d p ps" "map_of (mset_waiting d) ep = Some s"
  shows "mset_view (d\<lparr>mset_store := (mset_store d)(s \<mapsto> q), tail_query := t\<rparr>) = (mset_view d)(ep \<mapsto> sub_part q)"
proof
  fix e
  have "map_of (mset_waiting d) e = Some s \<longleftrightarrow> e = ep"
    using assms by (auto simp: mset_inv_def inj_on_def dom_def)
  then show "mset_view (d\<lparr>mset_store := (mset_store d)(s \<mapsto> q), tail_query := t\<rparr>) e = ((mset_view d)(ep \<mapsto> sub_part q)) e"
    by (cases "map_of (mset_waiting d) e") (auto simp: mset_view_def)
qed

interpretation mset: key_split mset_view "\<lambda>ep p. mset_PushSubquery ep (Client_Buffer, p)" "mset_inv d0" "\<lambda>_. True" for d0
proof unfold_locales
  fix s p ps ep m and b :: bytes and w k w'
  assume a: "mset_inv d0 s p ps" "mset_view s ep = None" "pool_allocate ep (lock_client w) = Some (k, w')"
  then have none: "map_of (mset_waiting s) ep = None"
    by (cases "map_of (mset_waiting s) ep") (force simp: mset_view_def mset_inv_def bind_eq_None_conv)+
  have old: "map_of (mset_waiting s) e \<noteq> Some (mset_next s)" for e
    using a(1) by (auto simp: mset_inv_def)
  obtain s' where s': "mset_PushSubquery ep (Client_Buffer, p) (of_nat (length b)) (s, w) = Some (s', w')"
      "mset_store s' = (mset_store s)(mset_next s \<mapsto> \<lparr>sub_backend = k, keys_count = 1,
         sub_segments = [((Client_Buffer, p), of_nat (length b))], phase = INIT_SEND_QUERY, sub_recv_complete = False\<rparr>)"
      "map_of (mset_waiting s') = (map_of (mset_waiting s))(ep \<mapsto> mset_next s)" "mset_next s' = Suc (mset_next s)"
      "mset_unparsed_bulks s' = mset_unparsed_bulks s" "mset_pending s' = mset_pending s"
    using a(3) none by (simp add: mset_PushSubquery_def map_of_emplace Let_def)
  have "mset_view s' e = ((mset_view s)(ep \<mapsto> (k, 1, [((Client_Buffer, p), of_nat (length b))]))) e" for e
    using old [of e] by (cases "map_of (mset_waiting s) e") (simp_all add: mset_view_def s' sub_part_def)
  moreover have "mset_inv d0 s' (p + length b) (ps @ [(ep, b)])"
    using a(1) old none by (fastforce simp: mset_inv_def s' inj_on_def)
  ultimately show "\<exists>s'. mset_PushSubquery ep (Client_Buffer, p) (of_nat (length b)) (s, w) = Some (s', w')
      \<and> mset_view s' = (mset_view s)(ep \<mapsto> (k, 1, [((Client_Buffer, p), of_nat (length b))]))
      \<and> mset_inv d0 s' (p + length b) (ps @ [(ep, b)])"
    using s'(1) by (blast intro: ext)
next
  fix s p ps ep k c segs m b w
  assume a: "mset_inv d0 s p ps" "mset_view s ep = Some (k, c, segs)" "piece m p b" "in_client segs"
  then obtain i q where i: "map_of (mset_waiting s) ep = Some i" "mset_store s i = Some q" and q: "sub_part q = (k, c, segs)"
    by (auto simp: mset_view_def bind_eq_Some_conv)
  obtain q' segs' where q': "push_key (Client_Buffer, p) (of_nat (length b)) q = Some q'" "sub_part q' = (k, c + 1, segs')"
      "in_client segs'" "segs_bytes m segs' = segs_bytes m segs @ b"
    using push_key_part [OF q a(3,4)] by blast
  have "mset_PushSubquery ep (Client_Buffer, p) (of_nat (length b)) (s, w)
      = Some (s\<lparr>mset_store := (mset_store s)(i \<mapsto> q'), tail_query := Some i\<rparr>, w)"
    using i q'(1) by (simp add: mset_PushSubquery_def)
  moreover have "mset_inv d0 (s\<lparr>mset_store := (mset_store s)(i \<mapsto> q'), tail_query := Some i\<rparr>) (p + length b) (ps @ [(ep, b)])"
    using a(1) by (auto simp: mset_inv_def)
  ultimately show "\<exists>s' segs'. mset_PushSubquery ep (Client_Buffer, p) (of_nat (length b)) (s, w) = Some (s', w)
      \<and> mset_view s' = (mset_view s)(ep \<mapsto> (k, c + 1, segs')) \<and> in_client segs' \<and> segs_bytes m segs' = segs_bytes m segs @ b
      \<and> mset_inv d0 s' (p + length b) (ps @ [(ep, b)])"
    using mset_store_upd [OF a(1) i(1), where q = q' and t = "Some i"] q'(2-4) by auto
qed

text \<open>
  MGET: the code knows an adjacent key by its endpoint being that of the key before.  The queue of replies, with
  its counters unfolded, has the backend of every key in the client's order.
\<close>

definition expand :: "(conn_id \<times> int) list \<Rightarrow> conn_id list" where
  "expand waiting = concat (map (\<lambda>(k, n). replicate (nat n) k) waiting)"

lemma expand_queue_key:
  assumes "\<forall>x\<in>set waiting. 0 < snd x"
  shows "expand (mget_queue_key k waiting) = expand waiting @ [k]" "\<forall>x\<in>set (mget_queue_key k waiting). 0 < snd x"
proof -
  have "nat (n + 1) = Suc (nat n)" if "0 < n" for n using that by simp
  then have "replicate (nat (n + 1)) k = replicate (nat n) k @ [k]" if "0 < n" for n and k :: conn_id
    using that by (simp add: replicate_append_same)
  then show "expand (mget_queue_key k waiting) = expand waiting @ [k]" "\<forall>x\<in>set (mget_queue_key k waiting). 0 < snd x"
    using assms by (cases waiting rule: rev_cases; auto simp: mget_queue_key_def expand_def)+
qed

definition mget_part :: "MgetSubquery \<Rightarrow> part" where
  "mget_part q = (mget_backend q, key_count q, mget_segments q)"

definition mget_view :: "mget_keys \<Rightarrow> Endpoint \<rightharpoonup> part" where
  "mget_view s ep = map_option mget_part (map_of (fst s) ep)"

definition mget_inv :: "mget_keys \<Rightarrow> nat \<Rightarrow> (Endpoint \<times> bytes) list \<Rightarrow> bool" where
  "mget_inv s p ps \<longleftrightarrow> (case s of (subs, waiting, last_ep) \<Rightarrow>
     (\<forall>x\<in>set waiting. 0 < snd x) \<and> distinct (map fst subs)
     \<and> map Some (expand waiting) = map (\<lambda>x. map_option mget_backend (map_of subs (fst x))) ps
     \<and> last_ep = (if ps = [] then Endpoint0 else fst (last ps))
     \<and> (\<forall>q. map_of subs last_ep = Some q \<longrightarrow> seg_end (mget_segments q) = p))"

lemma keys_adjust [simp]: "map fst (adjust k f m) = map fst m"
  by (simp add: adjust_def case_prod_beta)

lemma distinct_emplace: "map_of m k = None \<Longrightarrow> distinct (map fst m) \<Longrightarrow> distinct (map fst (map_emplace k v m))"
proof (induction k v m rule: map_emplace.induct)
  case (2 k v k' v' m)
  then show ?case using keys_map_emplace [of k v m] by (auto simp: map_of_eq_None_iff split: if_split_asm)
qed simp

interpretation mget: key_split mget_view "\<lambda>ep p. mget_add_key ep (Client_Buffer, p)" mget_inv "\<lambda>ep. ep \<noteq> Endpoint0"
proof unfold_locales
  fix s p ps ep m and b :: bytes and w k w'
  assume a: "mget_inv s p ps" "ep \<noteq> Endpoint0" "mget_view s ep = None" "dom (mget_view s) = fst ` set ps" "piece m p b"
    "pool_allocate ep (lock_client w) = Some (k, w')"
  obtain subs waiting le where s: "s = (subs, waiting, le)" by (cases s)
  have none: "map_of subs ep = None" using a(3) by (simp add: mget_view_def s)
  have new: "ep \<notin> fst ` set ps" using a(3) by (simp add: domIff flip: a(4))
  have "le = Endpoint0 \<or> le \<in> fst ` set ps" using a(1) last_in_set [of ps] by (simp add: mget_inv_def s)
  with new have le: "le \<noteq> ep" using a(2) by auto
  define q where "q = \<lparr>mget_backend = k, key_count = 1, query_prefix = [],
      mget_segments = [((Client_Buffer, p), of_nat (length b))], reply_absent_bulks = 0\<rparr>"
  have r: "\<exists>subs'. mget_add_key ep (Client_Buffer, p) (of_nat (length b)) (s, w) = Some ((subs', mget_queue_key k waiting, ep), w')
      \<and> map_of subs' = (map_of subs)(ep \<mapsto> q) \<and> distinct (map fst subs')"
    using a(1,6) none le
    by (simp add: s mget_add_key_def map_of_emplace map_of_adjust q_def mget_inv_def distinct_emplace)
  then obtain subs' where r: "mget_add_key ep (Client_Buffer, p) (of_nat (length b)) (s, w) = Some ((subs', mget_queue_key k waiting, ep), w')"
      "map_of subs' = (map_of subs)(ep \<mapsto> q)" "distinct (map fst subs')" by blast
  have "mget_view (subs', mget_queue_key k waiting, ep) = (mget_view s)(ep \<mapsto> (k, 1, [((Client_Buffer, p), of_nat (length b))]))"
    by (simp add: fun_eq_iff mget_view_def r s q_def mget_part_def)
  moreover have "mget_inv (subs', mget_queue_key k waiting, ep) (p + length b) (ps @ [(ep, b)])"
    using a(1) expand_queue_key [of waiting k] new r(3) piece_length [OF a(5)]
    by (auto simp: mget_inv_def s r(2) q_def seg_end_def unat_of_nat_size_t)
  ultimately show "\<exists>s'. mget_add_key ep (Client_Buffer, p) (of_nat (length b)) (s, w) = Some (s', w')
      \<and> mget_view s' = (mget_view s)(ep \<mapsto> (k, 1, [((Client_Buffer, p), of_nat (length b))]))
      \<and> mget_inv s' (p + length b) (ps @ [(ep, b)])"
    using r(1) by blast
next
  fix s p ps ep k c segs m b w
  assume a: "mget_inv s p ps" "ep \<noteq> Endpoint0" "mget_view s ep = Some (k, c, segs)" "piece m p b" "in_client segs"
  obtain subs waiting le where s: "s = (subs, waiting, le)" by (cases s)
  obtain q where q: "map_of subs ep = Some q" "mget_backend q = k" "key_count q = c" "mget_segments q = segs"
    using a(3) by (auto simp: mget_view_def s mget_part_def)
  obtain segs' where segs: "(if le = ep then grow_last (of_nat (length b)) segs
        else Some (segs @ [((Client_Buffer, p), of_nat (length b))])) = Some segs'"
      "in_client segs'" "segs_bytes m segs' = segs_bytes m segs @ b" "seg_end segs' = p + length b"
    using grow_segment [OF a(4,5)] append_segment [OF a(4,5)] a(1) q(1,4) by (cases "le = ep") (auto simp: mget_inv_def s)
  define subs' where "subs' = adjust ep (\<lambda>s. s\<lparr>key_count := key_count s + 1, mget_segments := segs'\<rparr>) subs"
  have r: "mget_add_key ep (Client_Buffer, p) (of_nat (length b)) (s, w) = Some ((subs', mget_queue_key k waiting, ep), w)"
    using q segs(1) by (cases "le = ep") (simp_all add: s mget_add_key_def subs'_def)
  moreover have "mget_view (subs', mget_queue_key k waiting, ep) = (mget_view s)(ep \<mapsto> (k, c + 1, segs'))"
    using q by (simp add: fun_eq_iff mget_view_def s subs'_def mget_part_def map_of_adjust)
  moreover have "mget_inv (subs', mget_queue_key k waiting, ep) (p + length b) (ps @ [(ep, b)])"
    using a(1) expand_queue_key [of waiting k] segs(4) q by (auto simp: mget_inv_def s subs'_def map_of_adjust)
  ultimately show "\<exists>s' segs'. mget_add_key ep (Client_Buffer, p) (of_nat (length b)) (s, w) = Some (s', w)
      \<and> mget_view s' = (mget_view s)(ep \<mapsto> (k, c + 1, segs')) \<and> in_client segs' \<and> segs_bytes m segs' = segs_bytes m segs @ b
      \<and> mget_inv s' (p + length b) (ps @ [(ep, b)])"
    using segs(2,3) by blast
qed

section \<open>Adding all keys of a command\<close>

lemma received_complete:
  assumes "received m b s"
  shows "absent_size m b = Some 0" "bulk_completed m b = Some True"
proof -
  have "0 < wire_len s" by (simp add: wire_len_def)
  with assms show "absent_size m b = Some 0" "bulk_completed m b = Some True"
    by (simp_all add: received_def absent_size_def bulk_completed_def)
qed

lemma received_piece: "received m b s \<Longrightarrow> length m < 2 ^ 64 \<Longrightarrow> piece m (raw_data b) (bulk_wire s)"
  using length_bulk_wire [of s] by (auto simp: piece_def received_def wire_len_def)

lemma laid_out_last: "laid_out m p bs ss \<Longrightarrow> ss \<noteq> [] \<Longrightarrow> bs \<noteq> [] \<and> bulk_completed m (last bs) = Some True"
proof (induction m p bs ss rule: laid_out.induct)
  case (3 m p b bs s ss)
  then show ?case by (cases ss; cases bs) (auto simp: received_complete)
qed auto

text \<open>The pieces of the keys of a command, and of the pairs of MSET.\<close>

abbreviation pair_keys :: "(bytes \<times> bytes) list \<Rightarrow> bytes list" where
  "pair_keys \<equiv> concat \<circ> map (\<lambda>(k, v). [k, v])"

definition key_pieces :: "World \<Rightarrow> bytes list \<Rightarrow> (Endpoint \<times> bytes) list" where
  "key_pieces w = map (\<lambda>k. (the (located w k), bulk_wire k))"

definition pair_pieces :: "World \<Rightarrow> (bytes \<times> bytes) list \<Rightarrow> (Endpoint \<times> bytes) list" where
  "pair_pieces w = map (\<lambda>(k, v). (the (located w k), bulk_wire k @ bulk_wire v))"

lemma key_pieces_simps [simp]:
  "key_pieces w [] = []" "key_pieces w (k # ks) = (the (located w k), bulk_wire k) # key_pieces w ks"
  "key_pieces w (ks @ ks') = key_pieces w ks @ key_pieces w ks'"
  by (simp_all add: key_pieces_def)

lemma pieces_same:
  "same_setup w w' \<Longrightarrow> key_pieces w' = key_pieces w" "same_setup w w' \<Longrightarrow> pair_pieces w' = pair_pieces w"
  by (simp_all add: key_pieces_def pair_pieces_def located_same)

lemma foldM_snoc: "foldM f (xs @ [x]) s = do { s \<leftarrow> foldM f xs s; f x s }"
proof -
  have "foldM f [] = Some" by (rule ext) simp
  then show ?thesis by (induction xs arbitrary: s) (auto split: Option.bind_split)
qed

lemma conf_same: "same_setup w w' \<Longrightarrow> conf w' = conf w"
  by (simp add: same_setup_def)

lemma mget_push_ok:
  assumes "array_at ba i = Some b" "received m b k" "length m < 2 ^ 64" "namespaces_ok (conf w)"
    and "located w k = Some ep" "ep \<noteq> Endpoint0" "mget_inv s (raw_data b) ps" "split_ok m w (mget_view s) ps"
  shows "\<exists>s' w'. mget_push_key m ba i (s, w) = Some (s', w') \<and> same_setup w w'
    \<and> mget_inv s' (raw_data b + wire_len k) (ps @ [(ep, bulk_wire k)]) \<and> split_ok m w' (mget_view s') (ps @ [(ep, bulk_wire k)])"
  using mget.push_ok [OF assms(7,6,8) received_piece [OF assms(2,3)]] assms(1,2,5) locate_received [OF assms(2,4)]
  by (simp add: mget_push_key_def received_def length_bulk_wire)

lemma mget_push_all:
  assumes "laid_out m p (items ba) (name # keys)" "length m < 2 ^ 64" "namespaces_ok (conf w)" "worker_ok w"
    and "\<forall>k\<in>set keys. \<exists>ep. located w k = Some ep \<and> ep \<noteq> Endpoint0" and "i \<le> length keys"
  shows "\<exists>s w'. foldM (mget_push_key m ba) [1..<Suc i] (([], [], Endpoint0), w) = Some (s, w') \<and> same_setup w w'
    \<and> mget_inv s (p + sum_list (map wire_len (take (Suc i) (name # keys)))) (key_pieces w (take i keys))
    \<and> split_ok m w' (mget_view s) (key_pieces w (take i keys))"
  using assms(6)
proof (induction i)
  case 0
  show ?case using assms(4) by (simp add: mget_inv_def split_ok_def mget_view_def expand_def fun_eq_iff dom_def)
next
  case (Suc i)
  let ?k = "keys ! i" and ?b = "items ba ! Suc i"
  have len: "length (items ba) = Suc (length keys)" using laid_out_length [OF assms(1)] by simp
  have r: "received m ?b ?k"
    using list_all2_nthD [OF laid_out_received [OF assms(1)], of "Suc i"] Suc.prems len by simp
  have at: "array_at ba (Suc i) = Some ?b" using Suc.prems len by (simp add: array_at_def)
  have raw: "raw_data ?b = p + sum_list (map wire_len (take (Suc i) (name # keys)))"
    using laid_out_pos [OF assms(1), of "Suc i"] Suc.prems len by simp
  have tk: "take (Suc i) keys = take i keys @ [?k]" "take (Suc (Suc i)) (name # keys) = take (Suc i) (name # keys) @ [?k]"
    using Suc.prems by (simp_all add: take_Suc_conv_app_nth)
  obtain s w' where IH: "foldM (mget_push_key m ba) [1..<Suc i] (([], [], Endpoint0), w) = Some (s, w')" "same_setup w w'"
      "mget_inv s (raw_data ?b) (key_pieces w (take i keys))" "split_ok m w' (mget_view s) (key_pieces w (take i keys))"
    using Suc.IH [OF Suc_leD [OF Suc.prems]] unfolding raw by blast
  obtain ep where ep: "located w ?k = Some ep" "ep \<noteq> Endpoint0" using assms(5) Suc.prems by force
  have "[1..<Suc (Suc i)] = [1..<Suc i] @ [Suc i]" by simp
  then have "foldM (mget_push_key m ba) [1..<Suc (Suc i)] (([], [], Endpoint0), w) = mget_push_key m ba (Suc i) (s, w')"
    using IH(1) by (simp only: foldM_snoc) simp
  moreover have "namespaces_ok (conf w')" "located w' ?k = Some ep"
    using assms(3) IH(2) ep(1) by (simp_all add: conf_same located_same)
  note mget_push_ok [OF at r assms(2) this ep(2) IH(3,4)]
  ultimately show ?case
    using same_setup_trans [OF IH(2)] ep(1) raw by (auto simp add: tk add.assoc simp del: take_Suc_Cons)
qed

lemma sized_word: "present_size b = int n \<Longrightarrow> word_of_int (present_size b) = (of_nat n :: size_t)"
  by simp

lemma del_push_all:
  assumes "laid_out m p bs keys" "length m < 2 ^ 64" "namespaces_ok (conf w)" "\<forall>k\<in>set keys. located w k \<noteq> None"
    and "del_inv d0 d p ps" "split_ok m w (del_view d) ps"
  shows "\<exists>d' w' q. del_push_keys m bs (d, w) = Some (d', w') \<and> same_setup w w'
    \<and> del_inv d0 d' q (ps @ key_pieces w keys) \<and> split_ok m w' (del_view d') (ps @ key_pieces w keys)"
  using assms
proof (induction bs arbitrary: p keys d w ps)
  case Nil
  then show ?case by auto
next
  case (Cons b bs)
  obtain k ks where k: "keys = k # ks" "raw_data b = p" "received m b k" "laid_out m (p + wire_len k) bs ks"
    using Cons.prems(1) by (cases keys) auto
  obtain ep where ep: "located w k = Some ep" using Cons.prems(4) k(1) by auto
  have "piece m p (bulk_wire k)" using received_piece [OF k(3) Cons.prems(2)] k(2) by simp
  from del.push_ok [OF Cons.prems(5) _ Cons.prems(6) this, of ep]
  obtain d1 w1 where d1: "del_push_key m b (d, w) = Some (d1, w1)" "same_setup w w1"
      "del_inv d0 d1 (p + wire_len k) (ps @ [(ep, bulk_wire k)])" "split_ok m w1 (del_view d1) (ps @ [(ep, bulk_wire k)])"
    using k(2,3) ep locate_received [OF k(3) Cons.prems(3)]
    by (auto simp: del_push_key_def received_def length_bulk_wire)
  have "\<exists>d' w' q. del_push_keys m bs (d1, w1) = Some (d', w') \<and> same_setup w1 w'
      \<and> del_inv d0 d' q ((ps @ [(ep, bulk_wire k)]) @ key_pieces w1 ks)
      \<and> split_ok m w' (del_view d') ((ps @ [(ep, bulk_wire k)]) @ key_pieces w1 ks)"
    using Cons.prems(2,3,4) d1(2) k(1) conf_same located_same by (intro Cons.IH [OF k(4) _ _ _ d1(3,4)]) auto
  moreover have "del_push_keys m (b # bs) (d, w) = del_push_keys m bs (d1, w1)"
    using d1(1) received_complete(2) [OF k(3)] by (cases bs) auto
  ultimately show ?case
    using same_setup_trans [OF d1(2)] ep by (auto simp: k(1) pieces_same [OF d1(2)])
qed

lemma pair_piece:
  assumes "received m b k" "received m b' v" "raw_data b' = raw_data b + wire_len k" "length m < 2 ^ 64"
  shows "piece m (raw_data b) (bulk_wire k @ bulk_wire v)"
    "wire_len k + wire_len v < 2 ^ 31
      \<Longrightarrow> int_sum (present_size b) (present_size b') = Some (int (length (bulk_wire k @ bulk_wire v)))"
  using assms received_piece [OF assms(1,4)] received_piece [OF assms(2,4)]
  by (auto simp: piece_def length_bulk_wire received_def add.assoc int_sum_def)

lemma mset_push_all:
  assumes "laid_out m p bs (pair_keys kvs)" "length m < 2 ^ 64" "namespaces_ok (conf w)"
    and "\<forall>kv\<in>set kvs. located w (fst kv) \<noteq> None" "mset_inv d0 d p ps" "split_ok m w (mset_view d) ps"
    and "\<forall>kv\<in>set kvs. wire_len (fst kv) + wire_len (snd kv) < 2 ^ 31"
  shows "\<exists>d' w' q. mset_push_pairs m bs (d, w) = Some (d', w') \<and> same_setup w w'
    \<and> mset_inv d0 d' q (ps @ pair_pieces w kvs) \<and> split_ok m w' (mset_view d') (ps @ pair_pieces w kvs)"
  using assms
proof (induction kvs arbitrary: p bs d w ps)
  case Nil
  then have "bs = []" by (cases bs) auto
  with Nil show ?case by (auto simp: pair_pieces_def)
next
  case (Cons kv kvs)
  obtain k v where kv: "kv = (k, v)" by (cases kv)
  obtain b b' bs' where b: "bs = b # b' # bs'" "raw_data b = p" "received m b k" "raw_data b' = p + wire_len k"
      "received m b' v" "laid_out m (p + wire_len k + wire_len v) bs' (pair_keys kvs)"
    using Cons.prems(1) kv by (cases bs; cases "tl bs") auto
  obtain ep where ep: "located w k = Some ep" using Cons.prems(4) kv by auto
  have pc: "piece m p (bulk_wire k @ bulk_wire v)"
      "int_sum (present_size b) (present_size b') = Some (int (length (bulk_wire k @ bulk_wire v)))"
    using pair_piece [OF b(3,5) _ Cons.prems(2)] b(2,4) Cons.prems(7) kv by auto
  let ?ps = "ps @ [(ep, bulk_wire k @ bulk_wire v)]"
  obtain d1 w1 where d1: "mset_PushSubquery ep (Client_Buffer, p) (of_nat (length (bulk_wire k @ bulk_wire v))) (d, w) = Some (d1, w1)"
      "same_setup w w1" "mset_inv d0 d1 (p + length (bulk_wire k @ bulk_wire v)) ?ps" "split_ok m w1 (mset_view d1) ?ps"
    using mset.push_ok [OF Cons.prems(5) _ Cons.prems(6) pc(1), of ep] by blast
  have "\<exists>d' w' q. mset_push_pairs m bs' (d1, w1) = Some (d', w') \<and> same_setup w1 w'
      \<and> mset_inv d0 d' q (?ps @ pair_pieces w1 kvs) \<and> split_ok m w' (mset_view d') (?ps @ pair_pieces w1 kvs)"
    using Cons.prems(2,3,4,7) d1(2,3) b(6) conf_same located_same
    by (intro Cons.IH [OF b(6) _ _ _ _ d1(4)]) (auto simp: mset_inv_def)
  moreover have "mset_push_pairs m bs (d, w) = mset_push_pairs m bs' (d1, w1)"
    unfolding b(1) mset_push_pairs.simps pc(2)
    using d1(1) locate_received [OF b(3) Cons.prems(3)] ep b(2) by (simp del: of_nat_add length_append)
  ultimately show ?case
    using same_setup_trans [OF d1(2)] ep by (auto simp: kv pair_pieces_def located_same [OF d1(2)])
qed

section \<open>The headers of the subqueries\<close>

lemma SerializePrefix_nat: "SerializePrefix (int n) = CHR ''*'' # nat_dec n @ CRLF"
  by (simp add: SerializePrefix_def int_dec_def)

lemma int32_of_word: "n < 2 ^ 31 \<Longrightarrow> int32 (uint (of_nat n :: size_t)) = int n"
  by (simp add: uint_nat unat_of_nat_size_t int32_id)

lemma of_nat_Suc_word: "(of_nat n :: size_t) + 1 = of_nat (Suc n)"
  by simp

lemma digit_texts [simp]:
  "nat_dec 2 = ''2''" "nat_dec 3 = ''3''" "nat_dec 4 = ''4''" "nat_dec 5 = ''5''" "nat_dec 6 = ''6''" "nat_dec 7 = ''7''"
  "nat_dec 9 = ''9''" "nat_dec (Suc (Suc 0)) = ''2''" "nat_dec (Suc (Suc (Suc 0))) = ''3''" "nat_dec (Suc (Suc (Suc (Suc 0)))) = ''4''"
  by (simp_all add: nat_dec.simps digit_char_def char_of_def bit_Suc_0_iff)

lemma mget_header:
  assumes "Suc (length ks) < 2 ^ 31"
  shows "mget_query_prefix (of_nat (length ks)) @ concat (map bulk_wire ks) = array_wire (''mget'' # ks)"
  unfolding mget_query_prefix_def of_nat_Suc_word int32_of_word [OF assms] SerializePrefix_nat
  by (simp add: array_wire_def bulk_wire_def)

text \<open>The tables for up to four keys hold what is computed for more.\<close>

lemma small_cases:
  assumes "n < 2 ^ 31"
  shows "map_of [(1, a), (2, b), (3, c), (4, d)] (of_nat n :: size_t)
    = (if n = 1 then Some a else if n = 2 then Some b else if n = 3 then Some c else if n = 4 then Some d else None)"
proof -
  have "(of_nat n :: size_t) = of_nat j \<longleftrightarrow> n = j" if "j < 5" for j
    using that assms by (intro of_nat_size_t_inj) auto
  from this [of 1] this [of 2] this [of 3] this [of 4] show ?thesis by simp
qed

lemma mset_header:
  assumes "2 * length kvs + 1 < 2 ^ 31"
  shows "RedisMsetPrefix (of_nat (length kvs)) @ concat (map bulk_wire (pair_keys kvs)) = array_wire (''mset'' # pair_keys kvs)"
proof -
  let ?n = "length kvs"
  have "(of_nat ?n :: size_t) * 2 + 1 = of_nat (2 * ?n + 1)" by simp
  moreover have "unat (of_nat (2 * ?n + 1) :: size_t) = 2 * ?n + 1"
    using assms by (intro unat_of_nat_size_t) auto
  ultimately have u: "unat ((of_nat ?n :: size_t) * 2 + 1) = 2 * ?n + 1" by metis
  have l: "length (pair_keys kvs) = 2 * ?n" by (induction kvs) auto
  have w: "array_wire (''mset'' # pair_keys kvs)
      = CHR ''*'' # nat_dec (2 * ?n + 1) @ CRLF @ ''$4'' @ CRLF @ ''mset'' @ CRLF @ concat (map bulk_wire (pair_keys kvs))"
    unfolding array_wire_def length_Cons l by (simp add: bulk_wire_def)
  have "RedisMsetPrefix (of_nat ?n) = CHR ''*'' # nat_dec (2 * ?n + 1) @ CRLF @ ''$4'' @ CRLF @ ''mset'' @ CRLF"
  proof -
    have "?n < 2 ^ 31" using assms by simp
    then show ?thesis
      unfolding RedisMsetPrefix_def u small_cases [OF \<open>?n < 2 ^ 31\<close>] by simp
  qed
  then show ?thesis unfolding w by simp
qed

lemma del_header:
  assumes "name \<in> {''del'', ''exists'', ''touch''}" "Suc (length ks) < 2 ^ 31"
  shows "\<exists>pre. RedisDelPrefix name (of_nat (length ks)) = Some pre \<and> pre @ concat (map bulk_wire ks) = array_wire (name # ks)"
proof -
  have n: "length ks < 2 ^ 31" using assms(2) by simp
  have "unat ((of_nat (length ks) :: size_t) + 1) = Suc (length ks)"
    unfolding of_nat_Suc_word using assms(2) by (intro unat_of_nat_size_t) auto
  then have "RedisDelPrefix name (of_nat (length ks)) = Some (CHR ''*'' # nat_dec (Suc (length ks)) @ CRLF @ bulk_wire name)"
    using assms(1) unfolding RedisDelPrefix_def small_cases [OF n] bulk_wire_def by auto
  then show ?thesis by (simp add: array_wire_def)
qed

lemma parts_keys:
  "\<forall>k\<in>set keys. located w k \<noteq> None \<Longrightarrow>
     parts ep (key_pieces w keys) = map bulk_wire (filter (\<lambda>k. located w k = Some ep) keys)"
  by (induction keys) (auto simp: parts_def)

lemma parts_pairs:
  "\<forall>kv\<in>set kvs. located w (fst kv) \<noteq> None \<Longrightarrow>
     parts ep (pair_pieces w kvs) = map (\<lambda>(k, v). bulk_wire k @ bulk_wire v) (filter (\<lambda>kv. located w (fst kv) = Some ep) kvs)"
  by (induction kvs) (auto simp: parts_def pair_pieces_def)

lemma concat_pairs: "concat (map (\<lambda>(k, v). bulk_wire k @ bulk_wire v) kvs) = concat (map bulk_wire (pair_keys kvs))"
  by (induction kvs) auto

section \<open>A complete command\<close>

text \<open>
  A complete redis array has been received at \<open>off\<close>, in a worker in good order.  The numbers in it are read with
  \<^verbatim>\<open>std::stoi\<close>, which ends at a byte that is no digit; behind the received bytes there is such a byte.
\<close>

definition arrived :: "World \<Rightarrow> nat \<Rightarrow> size_t \<Rightarrow> bytes list \<Rightarrow> bool" where
  "arrived w off n ss \<longleftrightarrow>
     (\<exists>rest. on_wire (data (client_buffer w)) off (unat n) (array_wire ss @ rest))
     \<and> length (array_wire ss) \<le> unat n \<and> length (array_wire ss) < 2 ^ 31
     \<and> NUL \<in> set (drop (off + unat n) (data (client_buffer w))) \<and> length (data (client_buffer w)) < 2 ^ 64
     \<and> worker_ok w \<and> namespaces_ok (conf w)"

lemma arrived_create:
  assumes "arrived w off n (name # args)"
  defines "m \<equiv> data (client_buffer w)"
  shows "\<exists>ba b bs. BulkArray m off (unat n) = Some ba \<and> items ba = b # bs \<and> received m b name
    \<and> total_bulks m ba = Some (of_nat (Suc (length args))) \<and> array_completed m ba = Some True
    \<and> array_total_size m ba = Some (of_nat (length (array_wire (name # args))))
    \<and> parsed_size ba = int (length (array_wire (name # args)))
    \<and> laid_out m (off + array_head_len (name # args)) (items ba) (name # args)
    \<and> CreateCommand off n w = create_redis m off (unat n) w \<and> length args < 2 ^ 31 - 1"
proof -
  obtain rest where w: "on_wire m off (unat n) (array_wire (name # args) @ rest)"
    using assms by (auto simp: arrived_def)
  have len: "length (array_wire (name # args)) \<le> unat n" "length (array_wire (name # args)) < 2 ^ 31"
    using assms by (auto simp: arrived_def)
  obtain ba where ba: "BulkArray m off (unat n) = Some ba" "parsed_size ba = int (length (array_wire (name # args)))"
      "total_bulks m ba = Some (of_nat (length (name # args)))" "array_completed m ba = Some True"
      "array_total_size m ba = Some (of_nat (length (array_wire (name # args))))"
      "laid_out m (off + array_head_len (name # args)) (items ba) (name # args)"
    using array_received [OF w len(2) _ len(1)] assms by (auto simp: arrived_def)
  obtain b bs where b: "items ba = b # bs" "received m b name" using ba(6) by (cases "items ba") auto
  have mem: "drop off m = array_wire (name # args) @ drop (off + length (array_wire (name # args))) m"
    using on_wire_split(1) [OF w len(1)] .
  have "LF \<in> set (array_wire (name # args))" by (simp add: array_wire_def)
  then have "LF \<in> set (take (unat n) (drop off m))"
    using len(1) by (subst mem) simp
  then obtain q where q: "memchr (drop off m) LF (unat n) = Some q"
    using memchr_None [of "drop off m" LF "unat n"] by (cases "memchr (drop off m) LF (unat n)") auto
  have "rd m off = Some (CHR ''*'')"
    using on_wire_rd [OF w, of 0] len(1) by (simp add: array_wire_def)
  then have "CreateCommand off n w = create_redis m off (unat n) w"
    using q by (simp add: CreateCommand_def m_def)
  moreover have "length args < 2 ^ 31 - 1"
    using length_le_wire [of "name # args"] len(2) by (simp add: length_array_wire)
  ultimately show ?thesis using ba b by (intro exI [where x = ba]) auto
qed

lemma split_keys:
  assumes "split_ok m w' V (key_pieces w keys)" "\<forall>k\<in>set keys. located w k \<noteq> None" "V ep = Some (k, n, segs)"
  defines "ks \<equiv> filter (\<lambda>k. located w k = Some ep) keys"
  shows "active (pool w') k = Some ep" "n = of_nat (length ks)" "segs_bytes m segs = concat (map bulk_wire ks)"
proof -
  have "part_ok m w' (key_pieces w keys) ep (k, n, segs)"
    using assms(1,3) by (simp add: split_ok_def)
  with parts_keys [OF assms(2), of ep]
  show "active (pool w') k = Some ep" "n = of_nat (length ks)" "segs_bytes m segs = concat (map bulk_wire ks)"
    by (simp_all add: part_ok_def ks_def)
qed

lemma few_keys: "length keys < 2 ^ 31 - 1 \<Longrightarrow> Suc (length (filter P keys)) < 2 ^ 31"
  using length_filter_le [of P keys] by linarith

lemma split_dom: "split_ok m w' V (key_pieces w keys) \<Longrightarrow> dom V = (\<lambda>k. the (located w k)) ` set keys"
  by (simp add: split_ok_def key_pieces_def image_image)

lemma array_at_0 [simp]: "items ba = b # bs \<Longrightarrow> array_at ba 0 = Some b"
  by (simp add: array_at_def)

lemma command_type:
  "received m b name \<Longrightarrow> GetRedisCommandType m b
     = Some (case map_of redis_command_names (map tolower name) of Some t \<Rightarrow> t | None \<Rightarrow> RCT_UNSUPPORTED)"
  by (simp add: GetRedisCommandType_def received_payload)

lemma bulk_counts:
  assumes "length (items ba) = n" "n < 2 ^ 31"
  shows "present_bulks ba = of_nat n" "j \<le> n \<Longrightarrow> \<not> present_bulks ba < of_nat j"
    "(of_nat n :: size_t) = 0 \<longleftrightarrow> n = 0"
  using assms of_nat_size_t_inj [of n 0] by (auto simp: present_bulks_def not_less of_nat_size_t_le)

lemma mget_made:
  assumes "arrived w off n (name # keys)" "map tolower name = ''mget''"
    and "\<forall>k\<in>set keys. \<exists>ep. located w k = Some ep \<and> ep \<noteq> Endpoint0"
  shows "\<exists>subs waiting le w' p. length keys < 2 ^ 31 - 1 \<and> same_setup w w'
    \<and> CreateCommand off n w = Some (made (of_nat (length (array_wire (name # keys))))
        (Command (RedisMget \<lparr>reply_prefix = SerializePrefix (int (length keys)), mget_subqueries = subs, mget_waiting = waiting\<rparr>) REDIS None, w'))
    \<and> mget_inv (subs, waiting, le) p (key_pieces w keys)
    \<and> split_ok (data (client_buffer w)) w' (mget_view (subs, waiting, le)) (key_pieces w keys)"
proof -
  let ?m = "data (client_buffer w)"
  obtain ba b bs where ba: "BulkArray ?m off (unat n) = Some ba" "items ba = b # bs" "received ?m b name"
      "total_bulks ?m ba = Some (of_nat (Suc (length keys)))" "array_completed ?m ba = Some True"
      "array_total_size ?m ba = Some (of_nat (length (array_wire (name # keys))))"
      "laid_out ?m (off + array_head_len (name # keys)) (items ba) (name # keys)"
      "CreateCommand off n w = create_redis ?m off (unat n) w" "length keys < 2 ^ 31 - 1"
    using arrived_create [OF assms(1)] by blast
  have ok: "length ?m < 2 ^ 64" "namespaces_ok (conf w)" "worker_ok w" using assms(1) by (auto simp: arrived_def)
  obtain subs waiting le w' p where s: "foldM (mget_push_key ?m ba) [1..<Suc (length keys)] (([], [], Endpoint0), w) = Some ((subs, waiting, le), w')"
      "same_setup w w'" "mget_inv (subs, waiting, le) p (key_pieces w keys)"
      "split_ok ?m w' (mget_view (subs, waiting, le)) (key_pieces w keys)"
    using mget_push_all [OF ba(7) ok assms(3), of "length keys"] by (auto simp del: upt_Suc)
  let ?g = "\<lparr>reply_prefix = SerializePrefix (int (length keys)), mget_subqueries = subs, mget_waiting = waiting\<rparr>"
  have tot: "unat (of_nat (Suc (length keys)) :: size_t) = Suc (length keys)"
    using ba(9) by (intro unat_of_nat_size_t) auto
  have "of_nat (Suc (length keys)) - 1 = (of_nat (length keys) :: size_t)" by simp
  moreover have "int32 (uint (of_nat (length keys) :: size_t)) = int (length keys)"
    using ba(9) by (intro int32_of_word) simp
  ultimately have "RedisMgetCommand ?m ba w = Some (Command (RedisMget ?g) REDIS None, w')"
    using s(1) unfolding RedisMgetCommand_def ba(4) by (simp add: tot del: upt_Suc of_nat_Suc)
  moreover have "GetRedisCommandType ?m b = Some RCT_MGET"
    using command_type [OF ba(3)] assms(2) by (simp add: redis_command_names_def)
  moreover note bulk_counts [OF laid_out_length [OF ba(7)]] received_complete(1) [OF ba(3)]
  ultimately have "CreateCommand off n w = Some (made (of_nat (length (array_wire (name # keys)))) (Command (RedisMget ?g) REDIS None, w'))"
    using ba(9) unfolding ba(8) create_redis_def by (simp add: ba(1,2,4,5,6) del: of_nat_Suc)
  with s ba(9) show ?thesis by blast
qed

text \<open>
  C3. MGET is split correctly: from a complete MGET, for whose keys there are backends, the constructor makes
  one subquery for each backend that has keys of it, on a connection of its own. What is sent there, the header
  and the segments of the client's buffer, is a well-formed MGET of exactly the keys of that backend in the
  client's order; the queue of replies lists the backend of every key in the client's order, and exactly the
  bytes of the command are consumed. The command is shorter than \<open>2\<^sup>3\<^sup>1\<close> bytes, and a
  NUL byte stands somewhere after the received bytes in the buffer.
\<close>

theorem mget_split:
  assumes "arrived w off n (name # keys)" "map tolower name = ''mget''"
    and "\<forall>k\<in>set keys. \<exists>ep. located w k = Some ep \<and> ep \<noteq> Endpoint0"
  shows "\<exists>g w'. CreateCommand off n w = Some (of_nat (length (array_wire (name # keys))), Some (next_cmd w), w')
    \<and> cmds w' (next_cmd w) = Some (Command (RedisMget g) REDIS None)
    \<and> reply_prefix g = SerializePrefix (int (length keys))
    \<and> map Some (expand (mget_waiting g)) = map (\<lambda>k. map_option mget_backend (map_of (mget_subqueries g) (the (located w k)))) keys
    \<and> distinct (map fst (mget_subqueries g)) \<and> fst ` set (mget_subqueries g) = (\<lambda>k. the (located w k)) ` set keys
    \<and> (\<forall>(ep, q)\<in>set (mget_subqueries g). active (pool w') (mget_backend q) = Some ep
        \<and> mget_query_prefix (key_count q) @ segs_bytes (data (client_buffer w)) (mget_segments q)
            = array_wire (''mget'' # filter (\<lambda>k. located w k = Some ep) keys))"
proof -
  let ?m = "data (client_buffer w)"
  obtain subs waiting le w' p where s: "length keys < 2 ^ 31 - 1" "same_setup w w'"
      "CreateCommand off n w = Some (made (of_nat (length (array_wire (name # keys))))
         (Command (RedisMget \<lparr>reply_prefix = SerializePrefix (int (length keys)), mget_subqueries = subs, mget_waiting = waiting\<rparr>) REDIS None, w'))"
      "mget_inv (subs, waiting, le) p (key_pieces w keys)" "split_ok ?m w' (mget_view (subs, waiting, le)) (key_pieces w keys)"
    using mget_made [OF assms] by blast
  have loc: "\<forall>k\<in>set keys. located w k \<noteq> None" using assms(3) by auto
  have d: "distinct (map fst subs)" using s(4) by (auto simp: mget_inv_def)
  have "active (pool w') (mget_backend q) = Some ep \<and> mget_query_prefix (key_count q) @ segs_bytes ?m (mget_segments q)
            = array_wire (''mget'' # filter (\<lambda>k. located w k = Some ep) keys)" if "(ep, q) \<in> set subs" for ep q
  proof -
    have "mget_view (subs, waiting, le) ep = Some (mget_backend q, key_count q, mget_segments q)"
      using that d by (simp add: mget_view_def mget_part_def)
    from split_keys [OF s(5) loc this] show ?thesis
      using mget_header [OF few_keys [OF s(1)]] by simp
  qed
  moreover have "fst ` set subs = (\<lambda>k. the (located w k)) ` set keys"
    using split_dom [OF s(5)] by (simp add: mget_view_def dom_def flip: dom_map_of_conv_image_fst)
  ultimately show ?thesis
    using s(2-4) d unfolding made_def new_command_def
    by (intro exI [where x = "\<lparr>reply_prefix = SerializePrefix (int (length keys)), mget_subqueries = subs, mget_waiting = waiting\<rparr>"]) (auto simp: mget_inv_def same_setup_def key_pieces_def comp_def)
qed

lemma del_made:
  assumes "arrived w off n (name # keys)" "map tolower name \<in> {''del'', ''exists'', ''touch''}" "keys \<noteq> []"
    and "\<forall>k\<in>set keys. located w k \<noteq> None"
  shows "\<exists>d w'. length keys < 2 ^ 31 - 1 \<and> same_setup w w'
    \<and> CreateCommand off n w = Some (made (of_nat (length (array_wire (name # keys)))) (Command (RedisDel d) REDIS None, w'))
    \<and> cmd_name d = map tolower name \<and> del_unparsed_bulks d = 0
    \<and> split_ok (data (client_buffer w)) w' (del_view d) (key_pieces w keys)"
proof -
  let ?m = "data (client_buffer w)"
  obtain ba b bs where ba: "BulkArray ?m off (unat n) = Some ba" "items ba = b # bs" "received ?m b name"
      "total_bulks ?m ba = Some (of_nat (Suc (length keys)))" "parsed_size ba = int (length (array_wire (name # keys)))"
      "laid_out ?m (off + array_head_len (name # keys)) (items ba) (name # keys)"
      "CreateCommand off n w = create_redis ?m off (unat n) w" "length keys < 2 ^ 31 - 1"
    using arrived_create [OF assms(1)] by blast
  have ok: "length ?m < 2 ^ 64" "namespaces_ok (conf w)" "worker_ok w" using assms(1) by (auto simp: arrived_def)
  let ?d0 = "\<lparr>cmd_name = map tolower name, del_unparsed_bulks = 0, del_waiting = [], del_pending = [], total_del_count = 0\<rparr>"
  have lo: "laid_out ?m (off + array_head_len (name # keys) + wire_len name) bs keys" using ba(6) unfolding ba(2) by simp
  have i0: "del_inv ?d0 ?d0 p []" "split_ok ?m w (del_view ?d0) []" for p
    using ok(3) by (simp_all add: del_inv_def split_ok_def del_view_def dom_def)
  obtain d w' q where d: "del_push_keys ?m bs (?d0, w) = Some (d, w')" "same_setup w w'"
      "del_inv ?d0 d q (key_pieces w keys)" "split_ok ?m w' (del_view d) (key_pieces w keys)"
    using del_push_all [OF lo ok(1,2) assms(4) i0] by auto
  note cnt = bulk_counts [OF laid_out_length [OF ba(6)]]
  have "RedisDelCommand ?m ba w = Some (Command (RedisDel d) REDIS None, w')"
    using d(1) cnt(1) ba(8) received_payload [OF ba(3)]
    by (simp add: RedisDelCommand_def absent_bulks_def ba(2,4) del: of_nat_Suc)
  moreover have "GetRedisCommandType ?m b = Some RCT_DEL"
    using command_type [OF ba(3)] assms(2) by (auto simp: redis_command_names_def)
  moreover obtain b1 where "array_at ba 1 = Some b1" "bulk_completed ?m b1 = Some True"
    using lo assms(3) by (cases bs; cases keys) (auto simp: array_at_def ba(2) received_complete)
  moreover have "array_back ba = Some (last bs)" "bulk_completed ?m (last bs) = Some True"
    using laid_out_last [OF lo assms(3)] by (auto simp: array_back_def ba(2))
  moreover have "\<not> present_bulks ba < 2" using cnt(2) [of 2] ba(8) assms(3) by (cases keys) auto
  moreover note cnt received_complete(1) [OF ba(3)]
  ultimately have "CreateCommand off n w = Some (made (of_nat (length (array_wire (name # keys)))) (Command (RedisDel d) REDIS None, w'))"
    using ba(8) unfolding ba(7) create_redis_def by (simp add: ba(1,2,4,5) del: of_nat_Suc)
  moreover have "cmd_name d = map tolower name" "del_unparsed_bulks d = 0"
    using d(3) by (cases d; simp add: del_inv_def)+
  ultimately show ?thesis using d ba(8) by blast
qed

text \<open>
  C5. DEL, EXISTS and TOUCH are split correctly: every backend that has keys of a complete command gets, on a
  connection of its own, a well-formed command of the same name with exactly its keys in the client's order; the
  bytes of the command are consumed and no part of it is left to wait for. There is at least one key, and every
  key has a backend. The command is shorter than \<open>2\<^sup>3\<^sup>1\<close> bytes, and a NUL byte stands
  somewhere after the received bytes in the buffer.
\<close>

theorem del_split:
  assumes "arrived w off n (name # keys)" "map tolower name \<in> {''del'', ''exists'', ''touch''}" "keys \<noteq> []"
    and "\<forall>k\<in>set keys. located w k \<noteq> None"
  shows "\<exists>d w'. CreateCommand off n w = Some (of_nat (length (array_wire (name # keys))), Some (next_cmd w), w')
    \<and> cmds w' (next_cmd w) = Some (Command (RedisDel d) REDIS None) \<and> del_unparsed_bulks d = 0
    \<and> fst ` set (del_waiting d) = (\<lambda>k. the (located w k)) ` set keys
    \<and> (\<forall>ep q. map_of (del_waiting d) ep = Some q \<longrightarrow> active (pool w') (sub_backend q) = Some ep
        \<and> (\<exists>pre. RedisDelPrefix (cmd_name d) (keys_count q) = Some pre
             \<and> pre @ segs_bytes (data (client_buffer w)) (sub_segments q)
                 = array_wire (map tolower name # filter (\<lambda>k. located w k = Some ep) keys)))"
proof -
  let ?m = "data (client_buffer w)"
  obtain d w' where d: "length keys < 2 ^ 31 - 1" "same_setup w w'"
      "CreateCommand off n w = Some (made (of_nat (length (array_wire (name # keys)))) (Command (RedisDel d) REDIS None, w'))"
      "cmd_name d = map tolower name" "del_unparsed_bulks d = 0" "split_ok ?m w' (del_view d) (key_pieces w keys)"
    using del_made [OF assms] by blast
  have "active (pool w') (sub_backend q) = Some ep \<and> (\<exists>pre. RedisDelPrefix (cmd_name d) (keys_count q) = Some pre
      \<and> pre @ segs_bytes ?m (sub_segments q) = array_wire (map tolower name # filter (\<lambda>k. located w k = Some ep) keys))"
    if "map_of (del_waiting d) ep = Some q" for ep q
  proof -
    have "del_view d ep = Some (sub_backend q, keys_count q, sub_segments q)"
      using that by (simp add: del_view_def sub_part_def)
    from split_keys [OF d(6) assms(4) this] show ?thesis
      using del_header [OF assms(2) few_keys [OF d(1)]] d(4) by simp
  qed
  moreover have "fst ` set (del_waiting d) = (\<lambda>k. the (located w k)) ` set keys"
    using split_dom [OF d(6)] by (simp add: del_view_def dom_def flip: dom_map_of_conv_image_fst)
  ultimately show ?thesis
    using d(2,3,5) unfolding made_def new_command_def
    by (intro exI [where x = d]) (auto simp: same_setup_def)
qed

lemma length_pair_keys: "length (pair_keys kvs) = 2 * length kvs"
  by (induction kvs) auto

lemma odd_word: "2 * n + 1 < 2 ^ 31 \<Longrightarrow> (of_nat (Suc (2 * n)) :: size_t) mod 2 \<noteq> 0"
proof -
  assume "2 * n + 1 < 2 ^ 31"
  then have "unat ((of_nat (Suc (2 * n)) :: size_t) mod 2) = 1"
    unfolding unat_mod by (subst unat_of_nat_size_t) auto
  then show ?thesis by (metis unat_0 zero_neq_one)
qed

lemma pair_short:
  assumes "arrived w off n (name # pair_keys kvs)"
  shows "\<forall>kv\<in>set kvs. wire_len (fst kv) + wire_len (snd kv) < 2 ^ 31"
proof -
  have "(\<Sum>kv\<leftarrow>kvs. wire_len (fst kv) + wire_len (snd kv)) = (\<Sum>s\<leftarrow>pair_keys kvs. wire_len s)"
    by (induction kvs) auto
  moreover have "(\<Sum>s\<leftarrow>pair_keys kvs. wire_len s) < 2 ^ 31"
    using assms length_array_wire [of "name # pair_keys kvs"] by (simp add: arrived_def)
  ultimately show ?thesis
    using member_le_sum_list [of _ "map (\<lambda>kv. wire_len (fst kv) + wire_len (snd kv)) kvs"] by fastforce
qed

lemma mset_made:
  assumes "arrived w off n (name # pair_keys kvs)" "map tolower name = ''mset''" "kvs \<noteq> []"
    and "\<forall>kv\<in>set kvs. located w (fst kv) \<noteq> None"
  shows "\<exists>d w'. 2 * length kvs < 2 ^ 31 - 1 \<and> same_setup w w'
    \<and> CreateCommand off n w = Some (made (of_nat (length (array_wire (name # pair_keys kvs)))) (Command (RedisMset d) REDIS None, w'))
    \<and> mset_unparsed_bulks d = 0 \<and> mset_inv d d 0 []
    \<and> split_ok (data (client_buffer w)) w' (mset_view d) (pair_pieces w kvs)"
proof -
  let ?m = "data (client_buffer w)" and ?args = "pair_keys kvs"
  obtain ba b bs where ba: "BulkArray ?m off (unat n) = Some ba" "items ba = b # bs" "received ?m b name"
      "total_bulks ?m ba = Some (of_nat (Suc (length ?args)))" "parsed_size ba = int (length (array_wire (name # ?args)))"
      "laid_out ?m (off + array_head_len (name # ?args)) (items ba) (name # ?args)"
      "CreateCommand off n w = create_redis ?m off (unat n) w" "length ?args < 2 ^ 31 - 1"
    using arrived_create [OF assms(1)] by blast
  have ok: "length ?m < 2 ^ 64" "namespaces_ok (conf w)" "worker_ok w" using assms(1) by (auto simp: arrived_def)
  let ?d0 = "\<lparr>mset_unparsed_bulks = 0, mset_store = Map.empty, mset_next = 0, mset_waiting = [], mset_pending = [], tail_query = None\<rparr>"
  have lo: "laid_out ?m (off + array_head_len (name # ?args) + wire_len name) bs ?args" using ba(6) unfolding ba(2) by simp
  have i0: "mset_inv ?d0 ?d0 p []" "split_ok ?m w (mset_view ?d0) []" for p
    using ok(3) by (simp_all add: mset_inv_def split_ok_def mset_view_def dom_def)
  obtain d w' q where d: "mset_push_pairs ?m bs (?d0, w) = Some (d, w')" "same_setup w w'"
      "mset_inv ?d0 d q (pair_pieces w kvs)" "split_ok ?m w' (mset_view d) (pair_pieces w kvs)"
    using mset_push_all [OF lo ok(1,2) assms(4) i0 pair_short [OF assms(1)]] by auto
  note cnt = bulk_counts [OF laid_out_length [OF ba(6)]]
  have "RedisMsetCommand ?m ba w = Some (Command (RedisMset d) REDIS None, w')"
    using d(1) cnt(1) ba(8) by (simp add: RedisMsetCommand_def absent_bulks_def ba(2,4) del: of_nat_Suc)
  moreover have "GetRedisCommandType ?m b = Some RCT_MSET"
    using command_type [OF ba(3)] assms(2) by (simp add: redis_command_names_def)
  moreover have len: "length (items ba) = Suc (2 * length kvs)" "Suc (2 * length kvs) < 2 ^ 31"
    using laid_out_length [OF ba(6)] ba(8) by (simp_all add: length_pair_keys [simplified])
  have "3 \<le> Suc (2 * length kvs)" using assms(3) by (cases kvs) auto
  from bulk_counts(2) [OF len this] have "\<not> present_bulks ba < 3" by simp
  moreover have "present_bulks ba mod 2 \<noteq> 0"
    unfolding bulk_counts(1) [OF len] using len(2) by (intro odd_word) simp
  moreover note cnt received_complete(1) [OF ba(3)]
  ultimately have "CreateCommand off n w = Some (made (of_nat (length (array_wire (name # ?args)))) (Command (RedisMset d) REDIS None, w'))"
    using ba(8) unfolding ba(7) create_redis_def by (simp add: ba(1,2,4,5) array_back_def del: of_nat_Suc)
  moreover have "mset_unparsed_bulks d = 0" "mset_inv d d 0 []" using d(3) by (auto simp: mset_inv_def)
  ultimately show ?thesis using d ba(8) length_pair_keys [of kvs] by auto
qed

lemma split_pairs:
  assumes "split_ok m w' V (pair_pieces w kvs)" "\<forall>kv\<in>set kvs. located w (fst kv) \<noteq> None" "V ep = Some (k, n, segs)"
  defines "ks \<equiv> filter (\<lambda>kv. located w (fst kv) = Some ep) kvs"
  shows "active (pool w') k = Some ep" "n = of_nat (length ks)" "segs_bytes m segs = concat (map bulk_wire (pair_keys ks))"
proof -
  have "part_ok m w' (pair_pieces w kvs) ep (k, n, segs)"
    using assms(1,3) by (simp add: split_ok_def)
  with parts_pairs [OF assms(2), of ep] concat_pairs [of ks]
  show "active (pool w') k = Some ep" "n = of_nat (length ks)" "segs_bytes m segs = concat (map bulk_wire (pair_keys ks))"
    by (simp_all add: part_ok_def ks_def)
qed

text \<open>
  C4. MSET is split correctly: every backend that has keys of a complete MSET gets, on a connection of its own,
  a well-formed MSET of exactly its pairs of a key and a value in the client's order; the bytes of the command
  are consumed and no part of it is left to wait for. There is at least one pair, and every key has a backend.
  The command is shorter than \<open>2\<^sup>3\<^sup>1\<close> bytes, and a NUL byte stands somewhere after the
  received bytes in the buffer.
\<close>

theorem mset_split:
  assumes "arrived w off n (name # pair_keys kvs)" "map tolower name = ''mset''" "kvs \<noteq> []"
    and "\<forall>kv\<in>set kvs. located w (fst kv) \<noteq> None"
  shows "\<exists>d w'. CreateCommand off n w = Some (of_nat (length (array_wire (name # pair_keys kvs))), Some (next_cmd w), w')
    \<and> cmds w' (next_cmd w) = Some (Command (RedisMset d) REDIS None) \<and> mset_unparsed_bulks d = 0
    \<and> fst ` set (mset_waiting d) = (\<lambda>kv. the (located w (fst kv))) ` set kvs
    \<and> (\<forall>ep s. map_of (mset_waiting d) ep = Some s \<longrightarrow> (\<exists>q. mset_store d s = Some q \<and> active (pool w') (sub_backend q) = Some ep
        \<and> RedisMsetPrefix (keys_count q) @ segs_bytes (data (client_buffer w)) (sub_segments q)
            = array_wire (''mset'' # pair_keys (filter (\<lambda>kv. located w (fst kv) = Some ep) kvs))))"
proof -
  let ?m = "data (client_buffer w)"
  obtain d w' where d: "2 * length kvs < 2 ^ 31 - 1" "same_setup w w'"
      "CreateCommand off n w = Some (made (of_nat (length (array_wire (name # pair_keys kvs)))) (Command (RedisMset d) REDIS None, w'))"
      "mset_unparsed_bulks d = 0" "mset_inv d d 0 []" "split_ok ?m w' (mset_view d) (pair_pieces w kvs)"
    using mset_made [OF assms] by blast
  have "\<exists>q. mset_store d s = Some q \<and> active (pool w') (sub_backend q) = Some ep
      \<and> RedisMsetPrefix (keys_count q) @ segs_bytes ?m (sub_segments q)
          = array_wire (''mset'' # pair_keys (filter (\<lambda>kv. located w (fst kv) = Some ep) kvs))"
    if s: "map_of (mset_waiting d) ep = Some s" for ep s
  proof -
    obtain q where q: "mset_store d s = Some q" using mset_invD [OF d(5) s] by blast
    have "mset_view d ep = Some (sub_backend q, keys_count q, sub_segments q)"
      using s q by (simp add: mset_view_def sub_part_def)
    note p = split_pairs [OF d(6) assms(4) this]
    have few: "2 * length (filter (\<lambda>kv. located w (fst kv) = Some ep) kvs) + 1 < 2 ^ 31"
      using d(1) length_filter_le [of "\<lambda>kv. located w (fst kv) = Some ep" kvs] by linarith
    show ?thesis
      by (intro exI [where x = q] conjI q p(1)) (simp only: p(2,3) mset_header [OF few])
  qed
  moreover have "mset_view d ep = None \<longleftrightarrow> map_of (mset_waiting d) ep = None" for ep
    by (cases "map_of (mset_waiting d) ep") (auto simp: mset_view_def sub_part_def dest!: mset_invD [OF d(5)])
  then have "dom (mset_view d) = dom (map_of (mset_waiting d))" by (auto simp only: dom_def)
  then have "fst ` set (mset_waiting d) = (\<lambda>kv. the (located w (fst kv))) ` set kvs"
    using d(6) by (simp add: split_ok_def pair_pieces_def image_image case_prod_beta flip: dom_map_of_conv_image_fst)
  ultimately show ?thesis
    using d(2-4) unfolding made_def new_command_def
    by (intro exI [where x = d]) (auto simp: same_setup_def)
qed

section \<open>Commands with one key\<close>

text \<open>
  The first \<open>n\<close> bytes of the array have arrived at \<open>off\<close>, or more. The buffer, of which half may hold a line that
  is not ended, has room for its first line, as with every configuration that is accepted.
\<close>

definition arriving :: "World \<Rightarrow> nat \<Rightarrow> size_t \<Rightarrow> bytes list \<Rightarrow> bool" where
  "arriving w off n ss \<longleftrightarrow>
     (\<exists>rest. on_wire (data (client_buffer w)) off (unat n) (array_wire ss @ rest))
     \<and> array_head_len ss \<le> unat (conf_buffer_size (conf w) div 2) \<and> length (array_wire ss) < 2 ^ 31
     \<and> NUL \<in> set (drop (off + unat n) (data (client_buffer w))) \<and> length (data (client_buffer w)) < 2 ^ 64
     \<and> worker_ok w \<and> namespaces_ok (conf w)"

lemma head_waits:
  assumes "on_wire (data (client_buffer w)) off (unat n) (array_wire ss @ rest)" "unat n < array_head_len ss"
    and "array_head_len ss \<le> unat (conf_buffer_size (conf w) div 2)"
  shows "CreateCommand off n w = need_more w"
proof -
  let ?l = "CHR ''*'' # nat_dec (length ss) @ [CR]"
  have "unat n \<le> length ?l" using assms(2) by (simp add: array_head_len_def)
  then have "take (unat n) (drop off (data (client_buffer w))) = take (unat n) ?l"
    using assms(1) take_append [of "unat n" ?l "LF # concat (map bulk_wire ss) @ rest"]
    by (simp add: on_wire_def array_wire_def)
  moreover have "LF \<notin> set ?l" using nat_dec_avoids [of LF "length ss"] by (simp add: isdigit_def)
  ultimately have "memchr (drop off (data (client_buffer w))) LF (unat n) = None"
    unfolding memchr_None by (metis in_set_takeD)
  moreover have "\<not> n > conf_buffer_size (conf w) div 2" using assms(2,3) by (simp add: word_less_nat_alt)
  ultimately show ?thesis by (simp add: CreateCommand_def)
qed

lemma arriving_redis:
  assumes "on_wire (data (client_buffer w)) off (unat n) (array_wire ss @ rest)" "array_head_len ss \<le> unat n"
  shows "CreateCommand off n w = create_redis (data (client_buffer w)) off (unat n) w"
proof -
  let ?m = "data (client_buffer w)" and ?h = "CHR ''*'' # nat_dec (length ss) @ CRLF"
  have w: "on_wire ?m off (unat n) (?h @ concat (map bulk_wire ss) @ rest)"
    using assms(1) by (simp add: array_wire_def)
  have len: "length ?h \<le> unat n" using assms(2) by (simp add: array_head_len_def)
  have "take (unat n) (drop off ?m) = ?h @ take (unat n - length ?h) (drop (off + length ?h) ?m)"
    using len by (subst on_wire_split(1) [OF w len]) (simp only: take_append take_all)
  then have "LF \<in> set (take (unat n) (drop off ?m))" by simp
  then obtain q where "memchr (drop off ?m) LF (unat n) = Some q"
    using memchr_None [of "drop off ?m" LF "unat n"] by (cases "memchr (drop off ?m) LF (unat n)") auto
  moreover have "rd ?m off = Some (CHR ''*'')"
    using on_wire_rd [OF w, of 0] len by simp
  ultimately show ?thesis by (simp add: CreateCommand_def)
qed

lemma basic_waits:
  assumes "on_wire (data (client_buffer w)) off (unat n) (array_wire (name # args) @ rest)" "array_head_len (name # args) \<le> unat n"
    and "length (array_wire (name # args)) < 2 ^ 31" "NUL \<in> set (drop (off + unat n) (data (client_buffer w)))"
    and "map_of redis_command_names (map tolower name) = Some RCT_BASIC" "unat n < length (array_wire (name # args))"
  shows "create_redis (data (client_buffer w)) off (unat n) w = need_more w"
proof -
  let ?m = "data (client_buffer w)" and ?ss = "name # args"
  let ?h = "array_head_len ?ss"
  let ?p = "off + ?h" and ?a = "unat n - ?h"
  let ?ba = "\<lparr>array_data = off, parsed_size_field = of_nat (?h + claimed ?p ?a ?ss), items = expected_bulks ?p ?a ?ss\<rparr>"
  have L: "length (array_wire ?ss) = ?h + sum_list (map wire_len ?ss)" by (rule length_array_wire)
  have small: "length ?ss < 2 ^ 31" using length_le_wire [of ?ss] assms(3) L by simp
  have ba: "BulkArray ?m off (unat n) = Some ?ba" by (rule BulkArray_on_wire [OF assms(1-3)])
  have tb: "total_bulks ?m ?ba = Some (of_nat (length ?ss))"
    using total_bulks_on_wire [OF assms(1,2) small assms(4)] by simp
  have tot: "(of_nat (length ?ss) :: size_t) \<noteq> 0" using of_nat_size_t_inj [of "length ?ss" 0] small by simp
  have comp: "array_completed ?m ?ba = Some False"
    using array_completed_on_wire [OF assms(1-4), of ?ba] assms(6) by simp
  show ?thesis
  proof (cases "?a < head_len name")
    case True
    then show ?thesis
      using tb tot by (simp add: create_redis_def ba present_bulks_def del: of_nat_Suc)
  next
    case False
    let ?b = "\<lparr>raw_data = ?p, present_size = int (min ?a (wire_len name))\<rparr>"
    have items: "items ?ba = ?b # expected_bulks (?p + wire_len name) (?a - wire_len name) args" using False by simp
    have at: "array_at ?ba 0 = Some ?b" using items by (simp add: array_at_def)
    have "length (items ?ba) < 2 ^ 31" using length_expected_le [of ?p ?a ?ss] small by simp
    then have pres: "present_bulks ?ba \<noteq> 0"
      using of_nat_size_t_inj [of "length (items ?ba)" 0] items by (simp add: present_bulks_def del: expected_bulks.simps)
    have "on_wire ?m ?p ?a (concat (map bulk_wire ?ss) @ rest)"
      using on_wire_split(2) [of ?m off "unat n" "CHR ''*'' # nat_dec (length ?ss) @ CRLF" "concat (map bulk_wire ?ss) @ rest"]
        assms(1,2) by (simp add: array_wire_def array_head_len_def numeral_eq_Suc)
    note I = bulk_items_on_wire [OF this, of 0]
    have wl: "wire_len name < 2 ^ 31" using L assms(3) by simp
    have t: "total_size ?m ?b = Some (of_nat (wire_len name))" using I(1) False wl by simp
    have ab: "absent_size ?m ?b = Some (of_nat (wire_len name - min ?a (wire_len name)))"
      using absent_size_word [OF t] wl by simp
    show ?thesis
    proof (cases "wire_len name \<le> ?a")
      case True
      have nul: "NUL \<in> set (drop (?p + ?a) ?m)" using assms(2,4) by simp
      have "length name < 2 ^ 31" using wl by (simp add: wire_len_def)
      then have "payload ?m ?b = Some name"
        using I(2-4) False True wl nul by (simp add: payload_def unat_of_nat_size_t)
      then have "GetRedisCommandType ?m ?b = Some RCT_BASIC" using assms(5) by (simp add: GetRedisCommandType_def)
      then show ?thesis
        using ab True tb tot comp at pres by (simp add: create_redis_def ba del: of_nat_Suc expected_bulks.simps)
    next
      case short: False
      then have "(of_nat (wire_len name - min ?a (wire_len name)) :: size_t) \<noteq> 0"
        using of_nat_size_t_inj [of "wire_len name - min ?a (wire_len name)" 0] wl by simp
      then show ?thesis
        using ab tb tot at pres by (simp add: create_redis_def ba word_gt_0 del: of_nat_Suc expected_bulks.simps of_nat_diff)
    qed
  qed
qed

text \<open>
  C7. A command of the basic kind (GET, INCR and whatever else the table gives \<^verbatim>\<open>RCT_BASIC\<close>; not SET, MSET, MGET
  and DEL, which have commands of their own) is created exactly when it is complete: before the last byte nothing
  happens; then the command is created with a connection of its own to the backend where its key is, exactly its
  bytes are consumed, and the client's buffer is untouched. The array is shorter than \<open>2\<^sup>3\<^sup>1\<close> bytes, and as
  wherever the numbers are read with \<^verbatim>\<open>atoi\<close>, a NUL byte stands somewhere in the buffer after what was received.
\<close>

theorem basic_command:
  assumes "arriving w off n (name # key # args)" "map_of redis_command_names (map tolower name) = Some RCT_BASIC"
    and "located w key = Some ep"
  shows "if unat n < length (array_wire (name # key # args)) then CreateCommand off n w = Some (0, None, w)
    else \<exists>k w'. CreateCommand off n w = Some (of_nat (length (array_wire (name # key # args))), Some (next_cmd w), w')
      \<and> cmds w' = (cmds w)(next_cmd w \<mapsto> Command RedisBasic REDIS (Some k)) \<and> client_buffer w' = client_buffer w
      \<and> active (pool w) k = None \<and> active (pool w') k = Some ep"
proof (cases "unat n < length (array_wire (name # key # args))")
  case True
  obtain rest where "on_wire (data (client_buffer w)) off (unat n) (array_wire (name # key # args) @ rest)"
    using assms(1) by (auto simp: arriving_def)
  with basic_waits [OF this] arriving_redis [OF this] head_waits [OF this] True assms(1,2) show ?thesis
    by (cases "unat n < array_head_len (name # key # args)") (simp_all add: arriving_def need_more_def)
next
  case False
  let ?m = "data (client_buffer w)" and ?len = "length (array_wire (name # key # args))"
  have "arrived w off n (name # key # args)" using assms(1) False by (auto simp: arriving_def arrived_def)
  from arrived_create [OF this] obtain ba b bs where ba: "BulkArray ?m off (unat n) = Some ba" "items ba = b # bs"
      "received ?m b name" "total_bulks ?m ba = Some (of_nat (Suc (length (key # args))))" "array_completed ?m ba = Some True"
      "array_total_size ?m ba = Some (of_nat ?len)"
      "laid_out ?m (off + array_head_len (name # key # args)) (items ba) (name # key # args)"
      "CreateCommand off n w = create_redis ?m off (unat n) w" "length (key # args) < 2 ^ 31 - 1"
    by blast
  obtain b1 where b1: "array_at ba 1 = Some b1" "received ?m b1 key"
    using ba(7) by (cases bs) (auto simp: array_at_def ba(2))
  obtain k w' where k: "pool_allocate ep w = Some (k, w')" "same_setup w w'" "client_buffer w' = client_buffer w"
      "active (pool w) k = None" "active (pool w') k = Some ep"
    using allocate_fresh [of w ep] assms(1) by (auto simp: arriving_def)
  have "RedisBasicCommand ?m ba w = Some (Command RedisBasic REDIS (Some k), w')"
    using b1 k(1) locate_received [OF b1(2)] assms(1,3) by (simp add: RedisBasicCommand_def arriving_def)
  moreover have "GetRedisCommandType ?m b = Some RCT_BASIC" using command_type [OF ba(3)] assms(2) by simp
  moreover note bulk_counts [OF laid_out_length [OF ba(7)]] received_complete(1) [OF ba(3)]
  ultimately have "CreateCommand off n w = Some (made (of_nat ?len) (Command RedisBasic REDIS (Some k), w'))"
    using ba(9) unfolding ba(8) create_redis_def by (simp add: ba(1,2,4,5,6) del: of_nat_Suc)
  then show ?thesis
    using False k(2-5) by (auto simp: made_def new_command_def same_setup_def)
qed

section \<open>Sample commands\<close>

definition sample_split :: "bytes list \<Rightarrow> World" where
  "sample_split ss = sample_world\<lparr>client_buffer := ReadBuffer (array_wire ss @ replicate 20 NUL) 0\<rparr>"

lemma sample_arrived:
  assumes "length (array_wire ss) < 2 ^ 30"
  shows "arrived (sample_split ss) 0 (of_nat (length (array_wire ss))) ss"
  using assms sample_worker
  by (auto simp: arrived_def sample_split_def ReadBuffer_def on_wire_def unat_of_nat_size_t namespaces_ok_def
      sample_world_def Config0_def worker_ok_def intro!: exI [where x = "[]"])

lemma sample_located:
  "located (sample_split ss) ''a'' = Some (Endpoint 0x0A000001 80)"
  "located (sample_split ss) ''e'' = Some (Endpoint 0x0A000002 80)"
proof -
  have "located (sample_split ss) k = Locate Config0 [''r/'' \<mapsto> sample_ring, ''m/'' \<mapsto> sample_ring] k (of_nat (length k)) REDIS" for k
    by (simp add: located_def sample_split_def sample_world_def)
  moreover have "map (\<lambda>k. Locate Config0 [''r/'' \<mapsto> sample_ring, ''m/'' \<mapsto> sample_ring] k 1 REDIS) [''a'', ''e'']
      = [Some (Endpoint 0x0A000001 80), Some (Endpoint 0x0A000002 80)]"
    by code_simp
  ultimately show "located (sample_split ss) ''a'' = Some (Endpoint 0x0A000001 80)"
    "located (sample_split ss) ''e'' = Some (Endpoint 0x0A000002 80)" by simp_all
qed

lemma sample_names:
  "map tolower ''MGET'' = ''mget''" "map tolower ''Del'' = ''del''" "map tolower ''mset'' = ''mset''" "map tolower ''get'' = ''get''"
  by (simp_all add: tolower_def char_of_def bit_Suc_0_iff)

lemma sample_next [simp]: "next_cmd (sample_split ss) = 0"
  by (simp add: sample_split_def sample_world_def)

theorem mget_split_witness:
  "\<exists>g w'. CreateCommand 0 35 (sample_split [''MGET'', ''a'', ''e'', ''a'']) = Some (35, Some 0, w')
    \<and> cmds w' 0 = Some (Command (RedisMget g) REDIS None)
    \<and> fst ` set (mget_subqueries g) = {Endpoint 0x0A000001 80, Endpoint 0x0A000002 80}
    \<and> length (expand (mget_waiting g)) = 3"
proof -
  let ?ks = "[''a'', ''e'', ''a'']"
  let ?ss = "''MGET'' # ?ks"
  let ?w = "sample_split ?ss"
  have len: "length (array_wire ?ss) = 35" by (simp add: wire_eval)
  have arr: "arrived ?w 0 35 ?ss" using sample_arrived [of ?ss] unfolding len by simp
  have loc: "\<forall>k\<in>set ?ks. \<exists>ep. located ?w k = Some ep \<and> ep \<noteq> Endpoint0"
    by (simp add: sample_located Endpoint0_def)
  obtain g w' where g: "CreateCommand 0 35 ?w = Some (of_nat (length (array_wire ?ss)), Some (next_cmd ?w), w')"
      "cmds w' (next_cmd ?w) = Some (Command (RedisMget g) REDIS None)"
      "map Some (expand (mget_waiting g)) = map (\<lambda>k. map_option mget_backend (map_of (mget_subqueries g) (the (located ?w k)))) ?ks"
      "fst ` set (mget_subqueries g) = (\<lambda>k. the (located ?w k)) ` set ?ks"
    using mget_split [OF arr sample_names(1) loc] by blast
  have "length (expand (mget_waiting g)) = 3" using arg_cong [OF g(3), of length] by simp
  moreover have "fst ` set (mget_subqueries g) = {Endpoint 0x0A000001 80, Endpoint 0x0A000002 80}"
    unfolding g(4) by (auto simp: sample_located)
  ultimately show ?thesis using g(1,2) unfolding len by auto
qed

theorem del_split_witness:
  "\<exists>d w'. CreateCommand 0 27 (sample_split [''Del'', ''a'', ''e'']) = Some (27, Some 0, w')
    \<and> cmds w' 0 = Some (Command (RedisDel d) REDIS None) \<and> del_unparsed_bulks d = 0
    \<and> fst ` set (del_waiting d) = {Endpoint 0x0A000001 80, Endpoint 0x0A000002 80}"
proof -
  let ?ks = "[''a'', ''e'']"
  let ?ss = "''Del'' # ?ks"
  let ?w = "sample_split ?ss"
  have len: "length (array_wire ?ss) = 27" by (simp add: wire_eval)
  have arr: "arrived ?w 0 27 ?ss" using sample_arrived [of ?ss] unfolding len by simp
  have nm: "map tolower ''Del'' \<in> {''del'', ''exists'', ''touch''}" by (simp only: sample_names) simp
  have loc: "\<forall>k\<in>set ?ks. located ?w k \<noteq> None" by (simp add: sample_located)
  obtain d w' where d: "CreateCommand 0 27 ?w = Some (of_nat (length (array_wire ?ss)), Some (next_cmd ?w), w')"
      "cmds w' (next_cmd ?w) = Some (Command (RedisDel d) REDIS None)" "del_unparsed_bulks d = 0"
      "fst ` set (del_waiting d) = (\<lambda>k. the (located ?w k)) ` set ?ks"
    using del_split [OF arr nm _ loc] by blast
  have "fst ` set (del_waiting d) = {Endpoint 0x0A000001 80, Endpoint 0x0A000002 80}"
    unfolding d(4) by (auto simp: sample_located)
  then show ?thesis using d(1-3) unfolding len by auto
qed

theorem mset_split_witness:
  "\<exists>d w'. CreateCommand 0 42 (sample_split [''mset'', ''a'', ''1'', ''e'', ''2'']) = Some (42, Some 0, w')
    \<and> cmds w' 0 = Some (Command (RedisMset d) REDIS None) \<and> mset_unparsed_bulks d = 0
    \<and> fst ` set (mset_waiting d) = {Endpoint 0x0A000001 80, Endpoint 0x0A000002 80}"
proof -
  let ?kvs = "[(''a'', ''1''), (''e'', ''2'')]"
  let ?ss = "''mset'' # pair_keys ?kvs"
  let ?w = "sample_split ?ss"
  have len: "length (array_wire ?ss) = 42" by (simp add: wire_eval)
  have arr: "arrived ?w 0 42 ?ss" using sample_arrived [of ?ss] unfolding len by simp
  have loc: "\<forall>kv\<in>set ?kvs. located ?w (fst kv) \<noteq> None" by (simp add: sample_located)
  obtain d w' where d: "CreateCommand 0 42 ?w = Some (of_nat (length (array_wire ?ss)), Some (next_cmd ?w), w')"
      "cmds w' (next_cmd ?w) = Some (Command (RedisMset d) REDIS None)" "mset_unparsed_bulks d = 0"
      "fst ` set (mset_waiting d) = (\<lambda>kv. the (located ?w (fst kv))) ` set ?kvs"
    using mset_split [OF arr sample_names(3) _ loc] by blast
  have "fst ` set (mset_waiting d) = {Endpoint 0x0A000001 80, Endpoint 0x0A000002 80}"
    unfolding d(4) by (auto simp: sample_located)
  then show ?thesis using d(1-3) unfolding len by auto
qed

theorem basic_command_witness:
  "\<exists>k w'. CreateCommand 0 20 (sample_split [''get'', ''a'']) = Some (20, Some 0, w') \<and> active (pool w') k = Some (Endpoint 0x0A000001 80)
    \<and> CreateCommand 0 19 (sample_split [''get'', ''a'']) = Some (0, None, sample_split [''get'', ''a''])
    \<and> CreateCommand 0 3 (sample_split [''get'', ''a'']) = Some (0, None, sample_split [''get'', ''a''])"
proof -
  let ?ss = "[''get'', ''a'']"
  let ?w = "sample_split ?ss"
  have len: "length (array_wire ?ss) = 20" by (simp add: wire_eval)
  have arr: "arriving ?w 0 n ?ss" if "n \<in> {3, 19, 20}" for n
  proof -
    have "arrived ?w 0 20 ?ss" using sample_arrived [of ?ss] unfolding len by simp
    moreover have "array_head_len ?ss \<le> unat (conf_buffer_size (conf ?w) div 2)"
      by (simp add: wire_eval sample_split_def sample_world_def Config0_def)
    moreover have "on_wire (data (client_buffer ?w)) 0 k (array_wire ?ss @ rest)" if "k \<le> 19" for rest k
      using that by (simp add: on_wire_def sample_split_def ReadBuffer_def len)
    ultimately show ?thesis
      using that by (auto simp: arriving_def arrived_def sample_split_def ReadBuffer_def len)
  qed
  have name: "map_of redis_command_names (map tolower ''get'') = Some RCT_BASIC"
    unfolding sample_names by (simp add: redis_command_names_def)
  show ?thesis
    using basic_command [OF arr [of 20] name sample_located(1)] basic_command [OF arr [of 19] name sample_located(1)]
      basic_command [OF arr [of 3] name sample_located(1)]
    by (auto simp: len)
qed

end
