(* ===== verification/Client_Live.thy ===== *)
theory Client_Live
  imports Client_Run
begin

text \<open>
  Progress: a client is answered when its backend fails.  Whatever goes wrong with the backend of the command at the
  front of the queue, the handler of the failure starts the write of an error message to the client.
\<close>

section \<open>Failures of a backend\<close>

text \<open>The completions of an operation of the connection \<open>b\<close> that report a failure, with the code the command gets.\<close>

fun failure :: "BackendConn \<Rightarrow> conn_act \<Rightarrow> event \<Rightarrow> ErrorCode option" where
  "failure b (Async_Connect p n) (Connected ce oe) = (if ce \<or> oe then Some E_CONNECT else None)"
| "failure b (Async_Write p n) (Query_Written err t) = (if err then Some E_WRITE_QUERY else None)"
| "failure b (Async_Read off n) (Reply_Read err xs) = (if err then Some E_READ_REPLY else None)"
| "failure b (Arm t code) (Timer_Fired oa) =
     (if oa then None
      else if code \<in> {E_BACKEND_CONNECT_TIMEOUT, E_BACKEND_WRITE_TIMEOUT} \<and> \<not> write_timer_canceled b then Some code
      else if code = E_BACKEND_READ_TIMEOUT \<and> \<not> read_timer_canceled b then Some code
      else None)"
| "failure b _ _ = None"

text \<open>The commands that have one backend, with the query received completely: always so for the basic ones.\<close>

fun single_received :: "CommandData \<Rightarrow> bool" where
  "single_received RedisBasic = True"
| "single_received MemcBasic = True"
| "single_received (RedisSet _ all) = all"
| "single_received (MemcSet all) = all"
| "single_received _ = False"

text \<open>
  The command \<open>i\<close> is such a command, is at the front of the queue and works with the connection \<open>k\<close>, which is not
  aborted and has memory for a message; nothing of a reply has been written or is being written.  The query holds a
  lock on the client's buffer until it is sent.
\<close>

definition awaits :: "cmd_id \<Rightarrow> conn_id \<Rightarrow> BackendConn \<Rightarrow> Command \<Rightarrow> World \<Rightarrow> bool" where
  "awaits i k b c w \<longleftrightarrow>
     conns (pool w) k = Some b \<and> \<not> aborted b \<and> callback_cmd b = Some i \<and> 64 \<le> length (data (buffer b))
     \<and> cmds w i = Some c \<and> single_received (cmd_data c)
     \<and> \<not> has_written_some_reply c \<and> \<not> cmd_writing_reply c
     \<and> active_cmd_queue w \<noteq> [] \<and> hd (active_cmd_queue w) = i \<and> \<not> is_writing_reply w"

definition query_locked :: "World \<Rightarrow> bool" where
  "query_locked w \<longleftrightarrow> rb_inv (client_buffer w) \<and> recycle_lock_count (client_buffer w) \<noteq> 0"

text \<open>The message is in the memory of the connection and its write to the client has been started.\<close>

definition answered :: "cmd_id \<Rightarrow> conn_id \<Rightarrow> bytes \<Rightarrow> World \<Rightarrow> bool" where
  "answered i k msg w \<longleftrightarrow>
     Client_Write (Backend_Buffer k, 0) (of_nat (length msg)) i (Some k) \<in> set (ops w) \<and> is_writing_reply w
     \<and> (\<exists>b. conns (pool w) k = Some b \<and> take (length msg) (data (buffer b)) = msg)"

lemma ErrorReply_length: "0 < length (ErrorReply p ec)" "length (ErrorReply p ec) < 64"
  by (cases p; cases ec; simp)+

lemma put_conn_conns [simp]: "conns (put_conn k b pl) k = Some b"
  by (simp add: put_conn_def)

lemma put_conn_twice [simp]: "put_conn k b (put_conn k b' pl) = put_conn k b pl"
  by (simp add: put_conn_def)

section \<open>The reply\<close>

lemma reply_started:
  assumes "cmds w i = Some c" "\<not> cmd_writing_reply c" "conns (pool w) k = Some b" "\<not> is_writing_reply w"
    and "unprocessed_bytes (buffer b) = n" "0 < n" "update_processed_bytes n (inc_recycle_lock (buffer b)) = Some buf"
  shows "\<exists>w'. TryWriteReply i k w = Some w' \<and> Client_Write (Backend_Buffer k, unprocessed_data (buffer b)) n i (Some k) \<in> set (ops w')
    \<and> is_writing_reply w' \<and> conns (pool w') k = Some (b\<lparr>buffer := buf\<rparr>) \<and> active_cmd_queue w' = active_cmd_queue w
    \<and> held w' = held w"
  using assms
  by (simp add: TryWriteReply_def cmd_upd_def conn_buf_def conn_upd_def WriteReply_def UpdateTimer_def log_ops_def)

lemma error_replied:
  assumes "conns (pool w) k = Some b" "64 \<le> length (data (buffer b))" "cmds w i = Some c"
    and "single_received (cmd_data c)" "\<not> has_written_some_reply c" "\<not> cmd_writing_reply c"
    and "active_cmd_queue w = i # rest" "\<not> is_writing_reply w"
  shows "\<exists>w' b'. base_OnBackendRecoverableError i k ec w = Some w' \<and> answered i k (ErrorReply (cmd_protocol c) ec) w'
    \<and> conns (pool w') k = Some b' \<and> aborted b' = aborted b \<and> active_cmd_queue w' = i # rest \<and> held w' = held w"
proof -
  let ?msg = "ErrorReply (cmd_protocol c) ec"
  note len = ErrorReply_length [of "cmd_protocol c" ec]
  let ?n = "of_nat (length ?msg) :: size_t"
  have n: "0 < ?n" "unat ?n = length ?msg"
    using len by (simp_all add: unat_of_nat_size_t word_less_nat_alt)
  let ?buf = "(buffer b)\<lparr>data := ?msg @ drop (length ?msg) (data (buffer b)), processed_offset := 0,
      received_offset := ?n, parsed_offset := ?n, recycle_lock_count := 0\<rparr>"
  let ?b1 = "b\<lparr>buffer := ?buf\<rparr>"
  let ?b2 = "?b1\<lparr>reply_recv_complete := True, no_recycle := True\<rparr>"
  let ?w2 = "w\<lparr>pool := put_conn k ?b2 (pool w)\<rparr>"
  have rec: "BackendErrorRecoverable i k w = Some True"
    using assms by (cases "cmd_data c") (simp_all add: BackendErrorRecoverable_def)
  have "SetReplyData ?msg True b = Some ?b1"
    using assms(2) len by (simp add: SetReplyData_def push_reply_data_def buffer_Reset_def)
  then have "set_reply_data k ?msg True w = Some (w\<lparr>pool := put_conn k ?b1 (pool w)\<rparr>)"
    using assms(1) by (simp add: set_reply_data_def conn_upd_def)
  moreover have "mark_failed k (w\<lparr>pool := put_conn k ?b1 (pool w)\<rparr>) = Some ?w2"
    by (simp add: mark_failed_def conn_upd_def set_no_recycle_def set_reply_recv_complete_def)
  moreover have "query_recv_complete i ?w2 = Some True" "IsFirstCommand i ?w2 = Some True"
    using assms by (cases "cmd_data c"; simp add: query_recv_complete_def IsFirstCommand_def)+
  ultimately have e: "base_OnBackendRecoverableError i k ec w = TryWriteReply i k ?w2"
    using assms(3) rec by (simp add: base_OnBackendRecoverableError_def)
  have u: "unprocessed_bytes (buffer ?b2) = ?n" "unprocessed_data (buffer ?b2) = 0"
    by (simp_all add: unprocessed_bytes_def unprocessed_data_def)
  have p: "update_processed_bytes ?n (inc_recycle_lock (buffer ?b2)) = Some ((inc_recycle_lock (buffer ?b2))\<lparr>processed_offset := ?n\<rparr>)"
    by (simp add: update_processed_bytes_def try_recycle_buffer_def inc_recycle_lock_def)
  have "cmds ?w2 i = Some c" "conns (pool ?w2) k = Some ?b2" "\<not> is_writing_reply ?w2" using assms(3,8) by simp_all
  from reply_started [OF this(1) assms(6) this(2,3) u(1) n(1) p]
  obtain w' where w': "TryWriteReply i k ?w2 = Some w'" "Client_Write (Backend_Buffer k, 0) ?n i (Some k) \<in> set (ops w')"
      "is_writing_reply w'" "conns (pool w') k = Some (?b2\<lparr>buffer := (inc_recycle_lock (buffer ?b2))\<lparr>processed_offset := ?n\<rparr>\<rparr>)"
      "active_cmd_queue w' = i # rest" "held w' = held w"
    unfolding u(2) using assms(7) by auto
  show ?thesis
    unfolding e using w' by (intro exI [where x = w']) (simp add: answered_def inc_recycle_lock_def)
qed

definition ready :: "cmd_id \<Rightarrow> conn_id \<Rightarrow> Command \<Rightarrow> World \<Rightarrow> bool" where
  "ready i k c w \<longleftrightarrow> (\<exists>b. awaits i k b c w)"

lemma ready_queue: "ready i k c w \<Longrightarrow> active_cmd_queue w = i # tl (active_cmd_queue w)"
  by (cases "active_cmd_queue w") (auto simp: ready_def awaits_def)

lemma ready_other:
  "pool w' = pool w \<Longrightarrow> cmds w' = cmds w \<Longrightarrow> active_cmd_queue w' = active_cmd_queue w
     \<Longrightarrow> is_writing_reply w' = is_writing_reply w \<Longrightarrow> ready i k c w \<Longrightarrow> ready i k c w'"
  by (simp add: ready_def awaits_def)

lemma recoverable_answers:
  assumes "ready i k c w"
  shows "\<exists>w'. base_OnBackendRecoverableError i k ec (hold i w) = Some w' \<and> answered i k (ErrorReply (cmd_protocol c) ec) w'
    \<and> active_cmd_queue w' = active_cmd_queue w"
proof -
  obtain b where a: "awaits i k b c w" using assms by (auto simp: ready_def)
  have q: "active_cmd_queue (hold i w) = i # tl (active_cmd_queue w)" using ready_queue [OF assms] by (simp add: hold_def)
  have "\<exists>w' b'. base_OnBackendRecoverableError i k ec (hold i w) = Some w' \<and> answered i k (ErrorReply (cmd_protocol c) ec) w'
    \<and> conns (pool w') k = Some b' \<and> aborted b' = aborted b \<and> active_cmd_queue w' = i # tl (active_cmd_queue w) \<and> held w' = held (hold i w)"
    using a q by (intro error_replied) (auto simp: awaits_def hold_def)
  then show ?thesis using ready_queue [OF assms] by auto
qed

lemma base_callbacks:
  assumes "ready i k c w"
  shows "OnWriteQueryFinished i k ec (hold i w) = base_OnWriteQueryFinished i k ec (hold i w)"
    "OnBackendReplyReceived i k ec (hold i w) = base_OnBackendReplyReceived i k ec (hold i w)"
    "BackendErrorRecoverable i k (hold i w) = Some True" "cmds (hold i w) i = Some c" "cmds w i = Some c"
  using assms
  by (cases "cmd_data c"; auto simp: ready_def awaits_def OnWriteQueryFinished_def OnBackendReplyReceived_def
      BackendErrorRecoverable_def hold_def)+

lemma unlock_query:
  assumes "ready i k c w" "query_locked w"
  shows "\<exists>w'. dec_client_lock (hold i w) = Some (hold i w') \<and> ready i k c w' \<and> active_cmd_queue w' = active_cmd_queue w"
proof -
  obtain buf where "dec_recycle_lock (client_buffer w) = Some buf"
    using dec_lock_ok [of "client_buffer w"] assms(2) by (auto simp: query_locked_def)
  then have "dec_client_lock (hold i w) = Some (hold i (w\<lparr>client_buffer := buf\<rparr>))"
    by (simp add: dec_client_lock_def client_buf_def hold_def)
  moreover have "ready i k c (w\<lparr>client_buffer := buf\<rparr>)" using assms(1) by (simp add: ready_other)
  ultimately show ?thesis by auto
qed

lemma unhold_answered:
  assumes "answered i k msg w" "active_cmd_queue w = i # rest"
  shows "\<exists>w'. unhold i w = Some w' \<and> answered i k msg w'"
  using assms by (simp add: unhold_def drop_ref_def answered_def)

lemma callback_conn: "ready i k c w \<Longrightarrow> \<exists>b. conns (pool w) k = Some b \<and> callback_cmd b = Some i"
  by (auto simp: ready_def awaits_def)

lemma query_sent_answers:
  assumes "ready i k c w" "query_locked w" "ec \<noteq> E_SUCCESS"
  shows "\<exists>w'. query_sent k ec w = Some w' \<and> answered i k (ErrorReply (cmd_protocol c) ec) w'"
proof -
  obtain w1 where w1: "dec_client_lock (hold i w) = Some (hold i w1)" "ready i k c w1" using unlock_query [OF assms(1,2)] by blast
  obtain w2 where w2: "base_OnBackendRecoverableError i k ec (hold i w1) = Some w2"
      "answered i k (ErrorReply (cmd_protocol c) ec) w2" "active_cmd_queue w2 = active_cmd_queue w1"
    using recoverable_answers [OF w1(2)] by blast
  have "OnWriteQueryFinished i k ec (hold i w) = Some w2"
    using base_callbacks [OF assms(1)] assms(3) w1(1) w2(1) by (simp add: base_OnWriteQueryFinished_def)
  then show ?thesis
    using callback_conn [OF assms(1)] base_callbacks(5) [OF assms(1)] unhold_answered [OF w2(2)] ready_queue [OF w1(2)] w2(3)
    by (auto simp: query_sent_def run_callback_def)
qed

lemma reply_received_answers:
  assumes "ready i k c w" "ec \<noteq> E_SUCCESS"
  shows "\<exists>w'. reply_received k ec w = Some w' \<and> answered i k (ErrorReply (cmd_protocol c) ec) w'"
proof -
  obtain w2 where w2: "base_OnBackendRecoverableError i k ec (hold i w) = Some w2"
      "answered i k (ErrorReply (cmd_protocol c) ec) w2" "active_cmd_queue w2 = active_cmd_queue w"
    using recoverable_answers [OF assms(1)] by blast
  have "OnBackendReplyReceived i k ec (hold i w) = Some w2"
    using base_callbacks [OF assms(1)] assms(2) w2(1) by (simp add: base_OnBackendReplyReceived_def)
  then show ?thesis
    using callback_conn [OF assms(1)] base_callbacks(5) [OF assms(1)] unhold_answered [OF w2(2)] ready_queue [OF assms(1)] w2(3)
    by (auto simp: reply_received_def run_callback_def)
qed

lemma abort_answered:
  assumes "answered i k msg w"
  shows "\<exists>w'. run_act k (ThenAbort ec) w = Some w' \<and> answered i k msg w'"
  using assms by (auto simp: answered_def conn_call_def conn_Abort_def emit_def log_ops_def count_up_def put_conn_def)

lemma emit_ready [simp]: "ready i k c (emit k' acts w) = ready i k c w" "query_locked (emit k' acts w) = query_locked w"
proof -
  obtain s where "emit k' acts w = w\<lparr>ops := ops w @ map (Conn_Op k') acts, stats := s\<rparr>" using emit_fields by blast
  then show "ready i k c (emit k' acts w) = ready i k c w" "query_locked (emit k' acts w) = query_locked w"
    by (simp_all add: ready_def awaits_def query_locked_def)
qed

lemma foldM_Nil [simp]: "foldM f [] = Some"
  by (rule ext) simp

text \<open>The connection after the handler of the failure, before the callback runs.\<close>

lemma ready_put:
  assumes "awaits i k b c w" "aborted b' = aborted b" "callback_cmd b' = callback_cmd b" "data (buffer b') = data (buffer b)"
  shows "ready i k c (w\<lparr>pool := put_conn k b' (pool w)\<rparr>)" "query_locked (w\<lparr>pool := put_conn k b' (pool w)\<rparr>) = query_locked w"
  using assms by (auto simp: ready_def awaits_def query_locked_def)

lemma sent_then_abort:
  assumes "\<exists>w'. run_act k a w = Some w' \<and> answered i k msg w'"
  shows "\<exists>w'. foldM (run_act k) [a, ThenAbort ec] w = Some w' \<and> answered i k msg w'"
proof -
  obtain w1 where w1: "run_act k a w = Some w1" "answered i k msg w1" using assms by blast
  obtain w2 where "run_act k (ThenAbort ec) w1 = Some w2" "answered i k msg w2" using abort_answered [OF w1(2)] by blast
  with w1(1) show ?thesis by (simp del: run_act.simps)
qed

lemma failure_handled:
  assumes "awaits i k b c w" "allowed (Conn_Op k act) e" "failure b act e = Some ec"
    and "ec \<in> {E_READ_REPLY, E_BACKEND_READ_TIMEOUT} \<or> query_locked w"
  shows "\<exists>w'. conn_handle k act e w = Some w' \<and> answered i k (ErrorReply (cmd_protocol c) ec) w'"
proof -
  have b: "conns (pool w) k = Some b" "\<not> aborted b" using assms(1) by (auto simp: awaits_def)
  show ?thesis
  proof (cases act)
    case (Async_Connect p n)
    then obtain ce oe where e: "e = Connected ce oe" "ce \<or> oe" "ec = E_CONNECT"
      using assms(3) by (cases e) (auto split: if_split_asm)
    let ?b = "b\<lparr>write_timer_canceled := True, socket_open := False\<rparr>"
    note r = ready_put [OF assms(1), of ?b]
    show ?thesis
      using query_sent_answers [of i k c _ E_CONNECT] r assms(4) b e
      by (simp add: Async_Connect conn_handle_def conn_event_def HandleConnect_def)
  next
    case (Async_Write p n)
    then obtain t where e: "e = Query_Written True t" "ec = E_WRITE_QUERY"
      using assms(3) by (cases e) (auto split: if_split_asm)
    let ?b = "b\<lparr>write_timer_canceled := True, socket_open := False\<rparr>"
    note r = ready_put [OF assms(1), of ?b]
    show ?thesis
      using query_sent_answers [of i k c _ E_WRITE_QUERY] r assms(4) b e
      by (simp add: Async_Write conn_handle_def conn_event_def HandleWrite_def)
  next
    case (Async_Read off n)
    then obtain xs where e: "e = Reply_Read True xs" "ec = E_READ_REPLY"
      using assms(3) by (cases e) (auto split: if_split_asm)
    with assms(2) Async_Read have xs: "xs = []" by (simp add: allowed_def conn_allowed_def)
    let ?b = "b\<lparr>buffer := mem_fill off [] (buffer b), read_timer_canceled := True, is_reading_reply := False, socket_open := False\<rparr>"
    have "data (mem_fill off [] (buffer b)) = data (buffer b)" by (simp add: mem_fill_def)
    then have r: "ready i k c (w\<lparr>pool := put_conn k ?b (pool w)\<rparr>)" by (intro ready_put [OF assms(1)]) simp_all
    show ?thesis
      using reply_received_answers [of i k c _ E_READ_REPLY] r b e xs
      by (simp add: Async_Read conn_handle_def conn_event_def conn_HandleRead_def)
  next
    case (Arm t code)
    then have e: "e = Timer_Fired False" "ec = code"
        "code \<in> {E_BACKEND_CONNECT_TIMEOUT, E_BACKEND_WRITE_TIMEOUT} \<and> \<not> write_timer_canceled b
         \<or> code = E_BACKEND_READ_TIMEOUT \<and> \<not> read_timer_canceled b"
      using assms(3) by (cases e; auto split: if_split_asm)+
    note r = ready_put [OF assms(1), of b]
    have "\<exists>w'. foldM (run_act k) [if code = E_BACKEND_READ_TIMEOUT then ReplyReceived code else QuerySent code, ThenAbort code] v = Some w'
        \<and> answered i k (ErrorReply (cmd_protocol c) ec) w'" if "ready i k c v" "query_locked v = query_locked w" for v
      using that e assms(4) query_sent_answers [of i k c v code] reply_received_answers [of i k c v code]
      by (intro sent_then_abort) auto
    from this [of "emit k [Count Backend_Connect_Timeouts 1] (w\<lparr>pool := put_conn k b (pool w)\<rparr>)"]
      this [of "emit k [Count Backend_Write_Timeouts 1] (w\<lparr>pool := put_conn k b (pool w)\<rparr>)"]
      this [of "emit k [Count Backend_Read_Timeouts 1] (w\<lparr>pool := put_conn k b (pool w)\<rparr>)"]
    show ?thesis
      using r b e by (auto simp: Arm conn_handle_def conn_event_def OnTimeout_def simp del: run_act.simps(3))
  qed (use assms(3) in simp_all)
qed

text \<open>
  C6. The client is answered when the backend fails: when an operation on the connection of the first command, a basic
  one or a SET, completes with a failure (connect, write or read error, any of the three timeouts), then that turn of
  the event loop returns, and it starts the write of the error message for this failure, in the client's protocol, from
  the memory of the connection.  This is when the query has been received completely, nothing of a reply has been
  written or is being written, by this command or to the client, the connection is not aborted yet and has 64 bytes of
  memory; for a failure before the query is sent the client's buffer is well-formed and still locked for it.  Nothing is
  said of a SET whose query is still being received, nor of the commands with several backends.
\<close>

theorem backend_failure_answered:
  assumes "awaits i k b c w" "Conn_Op k act \<in> set (ops w)" "allowed (Conn_Op k act) e" "failure b act e = Some ec"
    and "ec \<in> {E_READ_REPLY, E_BACKEND_READ_TIMEOUT} \<or> query_locked w"
  shows "\<exists>w'. handle (Conn_Op k act) e (w\<lparr>ops := remove1 (Conn_Op k act) (ops w)\<rparr>) = Some w' \<and> loop_step w w'
    \<and> answered i k (ErrorReply (cmd_protocol c) ec) w'"
proof -
  let ?w = "w\<lparr>ops := remove1 (Conn_Op k act) (ops w)\<rparr>"
  have "awaits i k b c ?w" "query_locked ?w = query_locked w"
    using assms(1) by (simp_all add: awaits_def query_locked_def)
  then obtain w' where "handle (Conn_Op k act) e ?w = Some w'" "answered i k (ErrorReply (cmd_protocol c) ec) w'"
    using failure_handled [of i k b c ?w act e ec] assms(3-5) by (auto simp: handle_def)
  with loop_step.step [OF assms(2,3)] show ?thesis by blast
qed

section \<open>A sample\<close>

text \<open>The client of the sample has sent \<^verbatim>\<open>GET a\<close>; the connection to the backend is being opened.\<close>

definition sample_waiting :: World where
  "sample_waiting = the (complete (1, Client_Data (Received (get_query (CHR ''a'')))) sample_start)"

abbreviation sample_connect :: conn_act where
  "sample_connect \<equiv> Async_Connect (Client_Buffer, 0) 20"

lemma sample_waiting_run:
  "map_option (\<lambda>w.
     (map_option (\<lambda>b. (aborted b, callback_cmd b, length (data (buffer b)))) (conns (pool w) 0),
      map_option (\<lambda>c. (case cmd_data c of RedisBasic \<Rightarrow> True | _ \<Rightarrow> False, cmd_protocol c, has_written_some_reply c, cmd_writing_reply c)) (cmds w 0),
      active_cmd_queue w, is_writing_reply w, rb_inv (client_buffer w), recycle_lock_count (client_buffer w) = 0,
      Conn_Op 0 sample_connect \<in> set (ops w)))
     (complete (1, Client_Data (Received (get_query (CHR ''a'')))) sample_start)
   = Some (Some (False, Some 0, 80), Some (True, REDIS, False, False), [0], False, True, False, True)"
  by code_simp

lemma sample_awaits:
  "\<exists>b c. awaits 0 0 b c sample_waiting \<and> cmd_protocol c = REDIS"
  "Conn_Op 0 sample_connect \<in> set (ops sample_waiting)" "query_locked sample_waiting" "reachable sample_waiting"
proof -
  let ?ke = "(1 :: nat, Client_Data (Received (get_query (CHR ''a''))))"
  obtain w where w: "complete ?ke sample_start = Some w"
    using sample_waiting_run by (cases "complete ?ke sample_start") auto
  then have "sample_waiting = w" by (simp add: sample_waiting_def)
  with sample_waiting_run w
  have f: "map_option (\<lambda>b. (aborted b, callback_cmd b, length (data (buffer b)))) (conns (pool sample_waiting) 0) = Some (False, Some 0, 80)"
      "map_option (\<lambda>c. (case cmd_data c of RedisBasic \<Rightarrow> True | _ \<Rightarrow> False, cmd_protocol c, has_written_some_reply c, cmd_writing_reply c))
         (cmds sample_waiting 0) = Some (True, REDIS, False, False)"
      "active_cmd_queue sample_waiting = [0]" "\<not> is_writing_reply sample_waiting" "query_locked sample_waiting"
      "Conn_Op 0 sample_connect \<in> set (ops sample_waiting)"
    by (simp_all add: query_locked_def)
  show "\<exists>b c. awaits 0 0 b c sample_waiting \<and> cmd_protocol c = REDIS"
  proof -
    obtain b where b: "conns (pool sample_waiting) 0 = Some b" "\<not> aborted b" "callback_cmd b = Some 0" "length (data (buffer b)) = 80"
      using f(1) by auto
    obtain c where c: "cmds sample_waiting 0 = Some c" "case cmd_data c of RedisBasic \<Rightarrow> True | _ \<Rightarrow> False" "cmd_protocol c = REDIS"
        "\<not> has_written_some_reply c" "\<not> cmd_writing_reply c"
      using f(2) by auto
    from c(2) have "cmd_data c = RedisBasic" by (cases "cmd_data c") simp_all
    with b c f(3,4) show ?thesis by (auto simp: awaits_def)
  qed
  show "Conn_Op 0 sample_connect \<in> set (ops sample_waiting)" "query_locked sample_waiting" by (fact f)+
  show "reachable sample_waiting"
    using reachable.turn [OF sample_start_reachable complete_step [OF w]] \<open>sample_waiting = w\<close> by simp
qed

theorem backend_failure_answered_witness:
  "\<exists>w'. loop_step sample_waiting w' \<and> answered 0 0 (''-Backend Connect Error'' @ CRLF) w'"
proof -
  obtain b c where b: "awaits 0 0 b c sample_waiting" "cmd_protocol c = REDIS" using sample_awaits(1) by blast
  have "allowed (Conn_Op 0 sample_connect) (Connected True False)" "failure b sample_connect (Connected True False) = Some E_CONNECT"
    by (simp_all add: allowed_def conn_allowed_def)
  from backend_failure_answered [OF b(1) sample_awaits(2) this] show ?thesis
    using sample_awaits(3) b(2) by auto
qed

end
