(* ===== verification/Proxy_Server.thy ===== *)
theory Proxy_Server
  imports Key_Locator
begin

text \<open>
  The server around the connections: the workers (\<^verbatim>\<open>worker_pool.h\<close>, \<^verbatim>\<open>worker_pool.cc\<close>), accepting and
  signals (\<^verbatim>\<open>proxy_server.cc\<close>, \<^verbatim>\<open>signal_watcher.cc\<close>), and from \<^verbatim>\<open>utils.cc\<close> and \<^verbatim>\<open>logging.cc\<close> the limit of
  open files and the log levels.  Threads, sockets and the kernel are not modelled; a function that
  posts work to another thread returns what it posts.
\<close>

section \<open>Workers\<close>

record WorkerPool =
  concurrency :: size_t
  next_worker :: size_t
  pool_stopped :: bool

definition WorkerPool :: "size_t \<Rightarrow> WorkerPool" where
  "WorkerPool n = \<lparr>concurrency = n, next_worker = 0, pool_stopped = False\<rparr>"

text \<open>\<^verbatim>\<open>workers_[next_worker_++ % concurrency_]\<close>; the remainder by 0 is undefined.\<close>

definition NextWorker :: "WorkerPool \<Rightarrow> (size_t \<times> WorkerPool) option" where
  "NextWorker p =
     (if concurrency p = 0 then None
      else Some (next_worker p mod concurrency p, p\<lparr>next_worker := next_worker p + 1\<rparr>))"

text \<open>
  \<^verbatim>\<open>OnLocatorUpdated\<close> posts the new locator to every worker; each of them installs it when its event loop
  runs the handler.
\<close>

definition OnLocatorUpdated :: "KeyLocator \<Rightarrow> WorkerPool \<Rightarrow> (nat \<times> KeyLocator) list" where
  "OnLocatorUpdated loc p = map (\<lambda>i. (i, loc)) [0..<unat (concurrency p)]"

definition run_post :: "nat \<times> KeyLocator \<Rightarrow> KeyLocator option list \<Rightarrow> KeyLocator option list" where
  "run_post x workers = workers[fst x := Some (snd x)]"

definition DefaultConcurrency :: "size_t \<Rightarrow> size_t" where
  "DefaultConcurrency hardware = (if hardware = 0 then 4 else hardware)"

text \<open>
  \<^verbatim>\<open>ParseEndpoint\<close>: without a colon \<^verbatim>\<open>pos + 1\<close> wraps to 0, so the whole text is the host and the port.
  The exceptions of \<^verbatim>\<open>std::stoi\<close> and \<^verbatim>\<open>from_string\<close> leave the function; the port is cut to 16 bits.
\<close>

definition ParseEndpoint :: "addr_parser \<Rightarrow> string \<Rightarrow> Endpoint option" where
  "ParseEndpoint addr ep =
     (let (host, rest) = (case memchr ep (CHR '':'') (length ep) of
            None \<Rightarrow> (ep, ep) | Some pos \<Rightarrow> (take pos ep, drop (pos + 1) ep))
      in do {
        p \<leftarrow> stoi rest;
        a \<leftarrow> addr host;
        Some (Endpoint a (word_of_int p))
      })"

section \<open>The server\<close>

record ProxyServer =
  listen_addr :: string
  server_stopped :: bool
  worker_pool :: WorkerPool

definition ProxyServer :: "size_t \<Rightarrow> string \<Rightarrow> size_t \<Rightarrow> ProxyServer" where
  "ProxyServer hardware a threads =
     \<lparr>listen_addr = a, server_stopped = False,
      worker_pool = WorkerPool (if threads > 0 then threads else DefaultConcurrency hardware)\<rparr>"

definition StopDispatching :: "WorkerPool \<Rightarrow> WorkerPool" where
  "StopDispatching p = p\<lparr>pool_stopped := True\<rparr>"

definition server_Stop :: "ProxyServer \<Rightarrow> ProxyServer" where
  "server_Stop s = s\<lparr>server_stopped := True, worker_pool := StopDispatching (worker_pool s)\<rparr>"

text \<open>\<^verbatim>\<open>StartAccept\<close> chooses the worker of the next client, \<^verbatim>\<open>HandleAccept\<close> goes on unless accepting failed.\<close>

definition StartAccept :: "ProxyServer \<Rightarrow> (size_t \<times> ProxyServer) option" where
  "StartAccept s = do {
     (i, p) \<leftarrow> NextWorker (worker_pool s);
     Some (i, s\<lparr>worker_pool := p\<rparr>)
   }"

definition HandleAccept :: "bool \<Rightarrow> ProxyServer \<Rightarrow> (size_t option \<times> ProxyServer) option" where
  "HandleAccept err s =
     (if err then Some (None, s)
      else do { (i, s) \<leftarrow> StartAccept s; Some (Some i, s) })"

text \<open>
  The handler of SIGHUP: the configuration is the global object, which a failed reload leaves without
  its clusters.
\<close>

definition reload ::
  "addr_parser \<Rightarrow> point_sort \<Rightarrow> (string \<Rightarrow> string option) \<Rightarrow> ProxyServer \<Rightarrow> Config
   \<Rightarrow> ((nat \<times> KeyLocator) list \<times> Config) option" where
  "reload addr srt fs s c = do {
     (ok, c) \<leftarrow> ReloadCulsters addr fs c;
     if \<not> ok then Some ([], c)
     else do {
       (ok, loc) \<leftarrow> locator_Initialize addr srt c Map.empty;
       Some (if ok then OnLocatorUpdated loc (worker_pool s) else [], c)
     }
   }"

text \<open>
  \<^verbatim>\<open>Run\<close> up to the event loop: the locator is posted and the address parsed; \<open>listen_err\<close> is the error of
  \<^verbatim>\<open>listen\<close>.  The result says whether the loop is entered, and with which posted work.
\<close>

definition server_Run ::
  "addr_parser \<Rightarrow> point_sort \<Rightarrow> Config \<Rightarrow> bool \<Rightarrow> ProxyServer \<Rightarrow> (bool \<times> (nat \<times> KeyLocator) list \<times> ProxyServer) option" where
  "server_Run addr srt c listen_err s = do {
     (ok, loc) \<leftarrow> locator_Initialize addr srt c Map.empty;
     if \<not> ok then Some (False, [], s)
     else do {
       ep \<leftarrow> ParseEndpoint addr (listen_addr s);
       let posts = OnLocatorUpdated loc (worker_pool s);
       if listen_err then Some (False, posts, s)
       else do {
         (i, s) \<leftarrow> StartAccept s;
         Some (True, posts, s)
       }
     }
   }"

section \<open>Signals\<close>

text \<open>The handlers of each signal in the order of registration; the flag says that \<^verbatim>\<open>sigaction\<close> is called.\<close>

type_synonym 'h signal_handlers = "int \<rightharpoonup> 'h list"

definition RegisterHandler :: "int \<Rightarrow> 'h \<Rightarrow> 'h signal_handlers \<Rightarrow> bool \<times> 'h signal_handlers" where
  "RegisterHandler sig h m =
     (case m sig of
        None \<Rightarrow> (True, m(sig \<mapsto> [h]))
      | Some hs \<Rightarrow> (False, m(sig \<mapsto> hs @ [h])))"

definition OnSignal :: "int \<Rightarrow> 'h signal_handlers \<Rightarrow> 'h list" where
  "OnSignal sig m = (case m sig of None \<Rightarrow> [] | Some hs \<Rightarrow> hs)"

section \<open>The limit of open files\<close>

text \<open>
  The loop of \<^verbatim>\<open>MaximizeFdLimit\<close>.  \<open>ok\<close> tells whether \<^verbatim>\<open>setrlimit\<close> accepts a value; the list holds the
  values that were set.  The loop need not end for bounds in the wrong order.
\<close>

partial_function (option) fd_search ::
  "(size_t \<Rightarrow> bool) \<Rightarrow> size_t \<Rightarrow> size_t \<Rightarrow> size_t list \<Rightarrow> size_t list option" where
  "fd_search ok lo hi sets =
     (let cur = lo + (hi - lo) div 2;
          lo' = (if ok cur then cur else lo);
          hi' = (if ok cur then hi else cur);
          sets' = (if ok cur then sets @ [cur] else sets)
      in if lo' + 1 < hi' then fd_search ok lo' hi' sets' else Some sets')"

declare fd_search.simps [code]

text \<open>\<open>soft\<close> and \<open>hard\<close> are the limits that \<^verbatim>\<open>getrlimit\<close> returned; an unlimited hard limit is the greatest word.\<close>

text \<open>\<open>lim\<close> is what \<^verbatim>\<open>getrlimit\<close> reports, the present and the hard limit, or \<open>None\<close> when it fails.\<close>

definition MaximizeFdLimit :: "(size_t \<Rightarrow> bool) \<Rightarrow> (size_t \<times> size_t) option \<Rightarrow> size_t list option" where
  "MaximizeFdLimit ok lim =
     (case lim of
        None \<Rightarrow> Some []
      | Some (soft, hard) \<Rightarrow>
          if soft = hard then Some []
          else if hard \<noteq> - 1 then fd_search ok hard hard []
          else fd_search ok soft (2 ^ 20) [])"

section \<open>Log levels\<close>

definition LevelVerbosity :: "string \<Rightarrow> int" where
  "LevelVerbosity level =
     (case map_of [(''TRACE'', 4), (''DEBUG'', 2), (''INFO'', 0), (''WARN'', - 1), (''ERROR'', - 2),
                   (''FATAL'', - 3), (''OFF'', - 9)] level of
        Some v \<Rightarrow> v | None \<Rightarrow> 0)"

section \<open>The search for the limit ends\<close>

lemma unat_add_1:
  fixes x :: size_t
  assumes "x \<noteq> - 1"
  shows "unat (x + 1) = unat x + 1"
proof -
  have "unat x \<noteq> unat (- 1 :: size_t)" using assms word_unat_eq_iff [of x "- 1"] by blast
  moreover have "unat (- 1 :: size_t) = 2 ^ 64 - 1" by (simp add: unsigned_minus_1_eq_mask mask_eq_exp_minus_1)
  ultimately have "unat x + 1 < 2 ^ 64" using unat_size_t [of x] by linarith
  then show ?thesis using unat_add_size_t [of x 1] by simp
qed

lemma unat_add_1_less: "x < (y :: size_t) \<Longrightarrow> unat (x + 1) = unat x + 1"
  by (rule unat_add_1) (auto simp: word_order.extremum_strict)

lemma distance_ge_2:
  fixes lo hi :: size_t
  assumes "lo + 1 < hi" and "\<not> (lo = - 1 \<and> hi = - 1)"
  shows "2 \<le> unat (hi - lo)"
proof (cases "lo = - 1")
  case True
  with assms have "0 < hi" "hi \<noteq> - 1" by auto
  then have "unat (hi + 1) = unat hi + 1" "0 < unat hi" by (simp_all add: unat_add_1 unat_gt_0)
  with True show ?thesis by simp
next
  case False
  then have "unat (lo + 1) = unat lo + 1" by (rule unat_add_1)
  with assms(1) have "unat lo + 2 \<le> unat hi" by (simp add: word_less_nat_alt)
  then show ?thesis by (simp add: unat_sub word_le_nat_alt)
qed

text \<open>\<open>d = hi - lo\<close>, also when it wraps; both halves are smaller than \<open>d\<close>.\<close>

lemma halves:
  fixes d :: size_t
  assumes "2 \<le> unat d"
  shows "unat (d div 2) < unat d" "unat (d - d div 2) < unat d" "d div 2 \<noteq> 0" "d - d div 2 \<noteq> 0"
proof -
  have h: "unat (d div 2) = unat d div 2" by (simp add: unat_div)
  then have "d div 2 \<le> d" by (simp add: word_le_nat_alt)
  then have s: "unat (d - d div 2) = unat d - unat d div 2" by (simp add: unat_sub h)
  show "unat (d div 2) < unat d" "unat (d - d div 2) < unat d" using assms h s by auto
  have "0 < unat (d div 2)" "0 < unat (d - d div 2)" using assms h s by auto
  then show "d div 2 \<noteq> 0" "d - d div 2 \<noteq> 0" by auto
qed

lemma fd_search_returns:
  "lo + 1 < hi \<Longrightarrow> \<not> (lo = - 1 \<and> hi = - 1) \<Longrightarrow> \<exists>r. fd_search ok lo hi sets = Some r"
proof (induction "unat (hi - lo)" arbitrary: lo hi sets rule: less_induct)
  case less
  let ?d = "hi - lo"
  let ?cur = "lo + ?d div 2"
  have d: "2 \<le> unat ?d" using less(2,3) by (rule distance_ge_2)
  have lo: "hi - ?cur = ?d - ?d div 2" and hi: "?cur - lo = ?d div 2" by simp_all
  have n: "?cur \<noteq> hi" "?cur \<noteq> lo" using halves(3,4) [OF d] lo hi by (metis diff_self)+
  have "unat (hi - ?cur) < unat ?d" unfolding lo by (rule halves(2) [OF d])
  then have "\<exists>r. fd_search ok ?cur hi (sets @ [?cur]) = Some r" if "?cur + 1 < hi"
    using n(1) by (intro less(1) [OF _ that]) auto
  moreover have "unat (?cur - lo) < unat ?d" unfolding hi by (rule halves(1) [OF d])
  then have "\<exists>r. fd_search ok lo ?cur sets = Some r" if "lo + 1 < ?cur"
    using n(2) by (intro less(1) [OF _ that]) auto
  ultimately show ?case by (subst fd_search.simps) (simp add: Let_def)
qed

text \<open>The first round is run in any case.\<close>

lemma fd_search_first:
  assumes "lo \<noteq> - 1" and "hi \<noteq> - 1"
  shows "\<exists>r. fd_search ok lo hi sets = Some r"
  using fd_search_returns [of "lo + (hi - lo) div 2" hi ok] fd_search_returns [of lo "lo + (hi - lo) div 2" ok] assms
  by (subst fd_search.simps) (auto simp: Let_def)

lemma fd_search_max:
  assumes "lo < hi" and "ok lo" and down: "\<And>x y. ok y \<Longrightarrow> x \<le> y \<Longrightarrow> ok x" and "fd_search ok lo hi sets = Some r"
  shows "\<exists>new. r = sets @ new \<and> ok (last (lo # new)) \<and> (\<forall>x. x < hi \<and> ok x \<longrightarrow> x \<le> last (lo # new))"
  using assms(1,2,4)
proof (induction "unat (hi - lo)" arbitrary: lo hi sets rule: less_induct)
  case less
  let ?d = "hi - lo"
  let ?cur = "lo + ?d div 2"
  have le: "lo \<le> hi" "unat lo < unat hi" using less(2) by (simp_all add: word_less_nat_alt word_le_nat_alt)
  have d: "unat ?d = unat hi - unat lo" using le(1) by (simp add: unat_sub)
  have "unat lo + unat (?d div 2) < 2 ^ 64"
  proof -
    have "(unat hi - unat lo) div 2 \<le> unat hi - unat lo" by simp
    then show ?thesis using d le(2) unat_size_t [of hi] by (simp add: unat_div)
  qed
  then have cur: "unat ?cur = unat lo + (unat hi - unat lo) div 2"
    using d by (simp add: unat_add_size_t unat_div)
  have c: "?cur < hi" "lo \<le> ?cur" using cur le(2) by (simp_all add: word_less_nat_alt word_le_nat_alt)
  show ?case
  proof (cases "ok ?cur")
    case True
    show ?thesis
    proof (cases "?cur + 1 < hi")
      case go: True
      have "unat (hi - ?cur) < unat ?d"
      proof -
        have "unat (hi - ?cur) = unat hi - unat ?cur" using c(1) by (simp add: unat_sub)
        moreover have "unat ?cur + 1 < unat hi"
          using go unat_add_1_less [OF c(1)] by (simp add: word_less_nat_alt)
        ultimately show ?thesis using cur d le(2) by linarith
      qed
      moreover have "fd_search ok ?cur hi (sets @ [?cur]) = Some r"
        using less(4) True go by (subst (asm) fd_search.simps) (simp add: Let_def)
      ultimately obtain new where "r = (sets @ [?cur]) @ new" "ok (last (?cur # new))"
          "\<forall>x. x < hi \<and> ok x \<longrightarrow> x \<le> last (?cur # new)"
        using less(1) [of hi ?cur] c(1) True by blast
      then show ?thesis by (intro exI [of _ "?cur # new"]) auto
    next
      case False
      then have "r = sets @ [?cur]" using less(4) True by (subst (asm) fd_search.simps) (simp add: Let_def)
      moreover have "x \<le> ?cur" if "x < hi" for x
        using False unat_add_1_less [OF c(1)] that by (simp add: word_less_nat_alt word_le_nat_alt)
      ultimately show ?thesis using True by auto
    qed
  next
    case False
    then have ne: "?cur \<noteq> lo" using less(3) by metis
    have bound: "x < ?cur" if "ok x" for x using False down that by (metis leI)
    show ?thesis
    proof (cases "lo + 1 < ?cur")
      case True
      have "unat (?cur - lo) < unat ?d" using d le(2) by (simp add: unat_div)
      moreover have "lo < ?cur" using c(2) ne [symmetric] by (rule order_le_neq_trans)
      moreover have "fd_search ok lo ?cur sets = Some r"
        using less(4) False True by (subst (asm) fd_search.simps) (simp add: Let_def)
      ultimately obtain new where "r = sets @ new" "ok (last (lo # new))"
          "\<forall>x. x < ?cur \<and> ok x \<longrightarrow> x \<le> last (lo # new)"
        using less(1) [OF _ _ less(3)] by blast
      then show ?thesis using bound by blast
    next
      case end_: False
      then have "r = sets" using less(4) False by (subst (asm) fd_search.simps) (simp add: Let_def)
      moreover have "x \<le> lo" if "ok x" for x
        using bound [OF that] end_ unat_add_1_less [OF less(2)] by (simp add: word_less_nat_alt word_le_nat_alt)
      ultimately show ?thesis using less(3) by auto
    qed
  qed
qed



section \<open>Distribution over the workers\<close>

text \<open>
  The workers of the first \<open>m\<close> clients that are accepted without an error.  \<^verbatim>\<open>Run\<close> calls \<^verbatim>\<open>StartAccept\<close>, which creates the first
  client; \<^verbatim>\<open>HandleAccept\<close> starts the client that was accepted, whose worker is \<open>w\<close>, and creates the next one.
\<close>

fun accept_next :: "nat \<Rightarrow> size_t \<Rightarrow> ProxyServer \<Rightarrow> (size_t list \<times> ProxyServer) option" where
  "accept_next 0 w s = Some ([], s)"
| "accept_next (Suc m) w s = do {
     (i, s) \<leftarrow> HandleAccept False s;
     w' \<leftarrow> i;
     (ws, s) \<leftarrow> accept_next m w' s;
     Some (w # ws, s)
   }"

definition accepted :: "nat \<Rightarrow> ProxyServer \<Rightarrow> (size_t list \<times> ProxyServer) option" where
  "accepted m s = do {
     (w, s) \<leftarrow> StartAccept s;
     accept_next m w s
   }"

lemma next_worker_suc:
  fixes x :: size_t
  shows "(unat (x + 1) + i) mod 2 ^ 64 = (unat x + Suc i) mod 2 ^ 64"
  by (simp add: unat_word_ariths take_bit_eq_mod mod_simps)

lemma upt_0_Suc: "[0..<Suc m] = 0 # map Suc [0..<m]"
  by (simp add: map_Suc_upt upt_conv_Cons del: upt_Suc)

lemma accept_next_run:
  assumes "concurrency (worker_pool s) \<noteq> 0"
  shows "\<exists>ws s'. accept_next m w s = Some (ws, s')
    \<and> map unat ws = take m (unat w # map (\<lambda>i. (unat (next_worker (worker_pool s)) + i) mod 2 ^ 64 mod unat (concurrency (worker_pool s))) [0..<m])"
  using assms
proof (induction m arbitrary: w s)
  case (Suc m)
  let ?p = "worker_pool s"
  let ?s = "s\<lparr>worker_pool := ?p\<lparr>next_worker := next_worker ?p + 1\<rparr>\<rparr>" and ?w = "next_worker ?p mod concurrency ?p"
  have h: "HandleAccept False s = Some (Some ?w, ?s)"
    using Suc(2) by (simp add: HandleAccept_def StartAccept_def NextWorker_def)
  obtain ws s' where r: "accept_next m ?w ?s = Some (ws, s')"
      "map unat ws = take m (unat ?w # map (\<lambda>i. (unat (next_worker ?p + 1) + i) mod 2 ^ 64 mod unat (concurrency ?p)) [0..<m])"
    using Suc(1) [of ?s ?w] Suc(2) by auto
  have "unat (next_worker ?p) mod 2 ^ 64 = unat (next_worker ?p)" using unat_size_t [of "next_worker ?p"] by simp
  then show ?case using h r unfolding next_worker_suc upt_0_Suc by (simp add: unat_mod o_def)
qed simp

lemma accepted_run:
  assumes "concurrency (worker_pool s) \<noteq> 0"
  shows "\<exists>ws s'. accepted m s = Some (ws, s')
    \<and> map unat ws = map (\<lambda>i. (unat (next_worker (worker_pool s)) + i) mod 2 ^ 64 mod unat (concurrency (worker_pool s))) [0..<m]"
proof -
  let ?p = "worker_pool s"
  let ?s = "s\<lparr>worker_pool := ?p\<lparr>next_worker := next_worker ?p + 1\<rparr>\<rparr>" and ?w = "next_worker ?p mod concurrency ?p"
  let ?f = "\<lambda>i. (unat (next_worker ?p) + i) mod 2 ^ 64 mod unat (concurrency ?p)"
  have st: "StartAccept s = Some (?w, ?s)" using assms by (simp add: StartAccept_def NextWorker_def)
  obtain ws s' where r: "accept_next m ?w ?s = Some (ws, s')"
      "map unat ws = take m (unat ?w # map (\<lambda>i. (unat (next_worker ?p + 1) + i) mod 2 ^ 64 mod unat (concurrency ?p)) [0..<m])"
    using accept_next_run [of ?s m ?w] assms by auto
  have "unat (next_worker ?p) mod 2 ^ 64 = unat (next_worker ?p)" using unat_size_t [of "next_worker ?p"] by simp
  then have "unat ?w # map (\<lambda>i. (unat (next_worker ?p + 1) + i) mod 2 ^ 64 mod unat (concurrency ?p)) [0..<m] = map ?f [0..<Suc m]"
    unfolding next_worker_suc upt_0_Suc by (simp add: unat_mod o_def)
  then have "map unat ws = map ?f [0..<m]" unfolding r(2) by (simp add: take_map del: upt_Suc)
  with st r(1) show ?thesis by (simp add: accepted_def)
qed

text \<open>
  C36. Clients are spread over the workers in turn: the worker of the \<open>i\<close>-th client is \<open>i\<close> modulo the number of
  workers, which is positive, so the array of workers is never left; the counter starts again at
  \<open>2 ^ 64\<close>.
\<close>

theorem round_robin:
  "\<exists>ws s. accepted m (ProxyServer hardware a threads) = Some (ws, s)
     \<and> 0 < unat (concurrency (worker_pool (ProxyServer hardware a threads)))
     \<and> map unat ws = map (\<lambda>i. i mod 2 ^ 64 mod unat (concurrency (worker_pool (ProxyServer hardware a threads)))) [0..<m]"
proof -
  let ?s = "ProxyServer hardware a threads"
  have "concurrency (worker_pool ?s) \<noteq> 0"
    by (auto simp: ProxyServer_def WorkerPool_def DefaultConcurrency_def)
  moreover have "next_worker (worker_pool ?s) = 0" by (simp add: ProxyServer_def WorkerPool_def)
  ultimately show ?thesis using accepted_run [of ?s m] by (simp add: unat_gt_0)
qed

section \<open>Reloading\<close>

lemma run_posts:
  assumes "\<forall>x\<in>set posts. snd x = loc"
  shows "length (fold run_post posts ws) = length ws
    \<and> (i < length ws \<longrightarrow> fold run_post posts ws ! i = (if i \<in> fst ` set posts then Some loc else ws ! i))"
  using assms by (induction posts arbitrary: ws) (auto simp: run_post_def nth_list_update)

text \<open>
  C35. A reload reaches every worker or none.  When the new file is accepted and has a cluster, so that a locator is built
  from it, a post is made to every worker, and once the workers have run what was posted, in whatever order, all of them
  have that locator; in every other case in which the handler returns nothing is posted.
\<close>

theorem reload_reaches_all:
  assumes "length workers = unat (concurrency (worker_pool s))"
  shows "(\<forall>loc. ReloadCulsters addr fs c = Some (True, c') \<and> locator_Initialize addr srt c' Map.empty = Some (True, loc) \<longrightarrow>
      (\<exists>posts. reload addr srt fs s c = Some (posts, c')
        \<and> (\<forall>posts'. set posts' = set posts \<longrightarrow> fold run_post posts' workers = replicate (length workers) (Some loc))))
    \<and> (\<forall>posts. reload addr srt fs s c = Some (posts, c') \<and> posts \<noteq> [] \<longrightarrow>
      ReloadCulsters addr fs c = Some (True, c') \<and> (\<exists>loc. locator_Initialize addr srt c' Map.empty = Some (True, loc)))"
proof -
  have "fold run_post posts' workers = replicate (length workers) (Some loc)"
    if "set posts' = set (OnLocatorUpdated loc (worker_pool s))" for posts' loc
  proof -
    have p: "\<forall>x\<in>set posts'. snd x = loc" "fst ` set posts' = {0..<length workers}"
      using that assms by (auto simp: OnLocatorUpdated_def image_iff)
    show ?thesis using run_posts [OF p(1), of workers] p(2) by (intro nth_equalityI) auto
  qed
  note install = this
  show ?thesis
  proof (intro conjI allI impI)
    fix loc
    assume "ReloadCulsters addr fs c = Some (True, c') \<and> locator_Initialize addr srt c' Map.empty = Some (True, loc)"
    then have "reload addr srt fs s c = Some (OnLocatorUpdated loc (worker_pool s), c')" by (simp add: reload_def)
    with install [of _ loc] show "\<exists>posts. reload addr srt fs s c = Some (posts, c')
        \<and> (\<forall>posts'. set posts' = set posts \<longrightarrow> fold run_post posts' workers = replicate (length workers) (Some loc))"
      by blast
  next
    fix posts
    assume "reload addr srt fs s c = Some (posts, c') \<and> posts \<noteq> []"
    then show "ReloadCulsters addr fs c = Some (True, c')" "\<exists>loc. locator_Initialize addr srt c' Map.empty = Some (True, loc)"
      by (auto simp: reload_def bind_eq_Some_conv split: if_split_asm)
  qed
qed

lemma sample_reload: "ReloadCulsters sample_addr sample_file sample_config = Some (True, sample_config)"
proof -
  have "traverse_lines (reload_handler sample_addr) (getlines [] (the (sample_file ''y.conf'')))
      (sample_config\<lparr>clusters := []\<rparr>) = Some (True, sample_config)"
    unfolding sample_lines
    by (simp add: reload_handler_def config_eval Config0_def sample_config_def Let_def)
  then show ?thesis
    by (simp add: ReloadCulsters_def TraverseConfFile_def sample_file_def sample_config_def Config0_def)
qed

theorem reload_reaches_all_witness:
  "\<exists>posts loc. reload sample_addr (sort_key hash_point) sample_file (ProxyServer 2 ''0:1'' 0) sample_config = Some (posts, sample_config)
     \<and> fold run_post (rev posts) [None, None] = [Some loc, Some loc]"
proof -
  let ?s = "ProxyServer 2 ''0:1'' 0"
  have n: "unat (concurrency (worker_pool ?s)) = 2" by (simp add: ProxyServer_def WorkerPool_def DefaultConcurrency_def)
  let ?ws = "[None, None] :: KeyLocator option list"
  have "length ?ws = unat (concurrency (worker_pool ?s))" using n by simp
  from spec [OF conjunct1 [OF reload_reaches_all [OF this]], THEN mp, OF conjI [OF sample_reload sample_locator_init]]
  obtain posts where r: "reload sample_addr (sort_key hash_point) sample_file ?s sample_config = Some (posts, sample_config)"
      "\<forall>posts'. set posts' = set posts \<longrightarrow> fold run_post posts' ?ws = replicate (length ?ws) (Some sample_locator)"
    by (elim exE conjE) (rule that; assumption)
  have "fold run_post (rev posts) ?ws = replicate (length ?ws) (Some sample_locator)"
    by (rule r(2) [rule_format]) (rule set_rev)
  also have "\<dots> = [Some sample_locator, Some sample_locator]" by simp
  finally show ?thesis by (intro exI conjI) (rule r(1))
qed

end
