(* ===== verification/Program_Start.thy ===== *)
theory Program_Start
  imports Proxy_Server
begin

text \<open>
  The start of the program, \<^verbatim>\<open>main.cc\<close>, with what it calls from \<^verbatim>\<open>utils.cc\<close>: becoming a daemon and the file with the
  process id.  The results of the system calls are a record; a function returns its result and the calls that
  change something, in order.
\<close>

section \<open>System calls\<close>

text \<open>
  \<open>fork_result\<close> is what \<^verbatim>\<open>fork\<close> returns in the process that is followed; \<open>own_pid\<close> is \<^verbatim>\<open>getpid\<close> after it.  \<open>dup2_result\<close> takes the
  target, \<open>pid_writable\<close> says whether \<^verbatim>\<open>fopen\<close> succeeds.
\<close>

record kernel =
  fork_result :: int
  setsid_result :: int
  open_null :: int
  dup2_result :: "int \<Rightarrow> int"
  close_result :: int
  own_pid :: nat
  pid_writable :: "string \<Rightarrow> bool"

datatype sys_call =
    Fork
  | Setsid
  | Dup2 int int
  | Close_Fd int
  | Write_File string string
  | Remove_File string
  | Init_Log string string
  | Set_Limits "size_t list"
  | Serve ProxyServer bool

datatype 'a outcome = Exits nat | Returns 'a

section \<open>Daemonize\<close>

text \<open>\<^verbatim>\<open>if (dup2(fd, target) < 0) return -1;\<close> for the three standard streams.\<close>

fun redirect :: "kernel \<Rightarrow> int \<Rightarrow> int list \<Rightarrow> bool \<times> sys_call list" where
  "redirect sys fd [] = (True, [])"
| "redirect sys fd (t # ts) =
     (if dup2_result sys t < 0 then (False, [Dup2 fd t])
      else let (ok, calls) = redirect sys fd ts in (ok, Dup2 fd t # calls))"

definition Daemonize :: "kernel \<Rightarrow> int outcome \<times> sys_call list" where
  "Daemonize sys =
     (if fork_result sys = - 1 then (Returns (- 1), [Fork])
      else if fork_result sys \<noteq> 0 then (Exits 0, [Fork])
      else if setsid_result sys = - 1 then (Returns (- 1), [Fork, Setsid])
      else
        let fd = open_null sys in
        if fd = - 1 then (Returns 0, [Fork, Setsid])
        else
          let (ok, calls) = redirect sys fd [0, 1, 2] in
          if \<not> ok then (Returns (- 1), [Fork, Setsid] @ calls)
          else if fd > 2
          then (Returns (if close_result sys < 0 then - 1 else 0), [Fork, Setsid] @ calls @ [Close_Fd fd])
          else (Returns 0, [Fork, Setsid] @ calls))"

section \<open>The file with the process id\<close>

definition CreatePidFile :: "kernel \<Rightarrow> Config \<Rightarrow> int \<times> sys_call list" where
  "CreatePidFile sys c =
     (if \<not> pid_writable sys (pid_file c) then (- 1, [])
      else (0, [Write_File (pid_file c) (nat_dec (own_pid sys))]))"

definition CleanupPidFile :: "Config \<Rightarrow> int \<times> sys_call list" where
  "CleanupPidFile c = (0, [Remove_File (pid_file c)])"

section \<open>main\<close>

text \<open>
  \<open>arg\<close> is the first argument of the program, if there is one; \<open>ok\<close> and \<open>lim\<close> are the limits of open files, \<open>hardware\<close> the
  number of processors and \<open>listen_err\<close> the error of \<^verbatim>\<open>listen\<close>.  \<open>Serve\<close> says whether the event loop is entered; the calls after it
  happen when \<^verbatim>\<open>Run\<close> has returned.  \<open>None\<close>: undefined behaviour or an exception that leaves \<^verbatim>\<open>main\<close>, or the limit search does not
  end.  The results of \<^verbatim>\<open>Daemonize\<close>, \<^verbatim>\<open>CreatePidFile\<close> and \<^verbatim>\<open>CleanupPidFile\<close> are ignored, as in the source.
\<close>

definition program_main ::
  "addr_parser \<Rightarrow> point_sort \<Rightarrow> (string \<Rightarrow> string option) \<Rightarrow> kernel \<Rightarrow> (size_t \<Rightarrow> bool) \<Rightarrow> (size_t \<times> size_t) option \<Rightarrow> size_t
   \<Rightarrow> bool \<Rightarrow> string option \<Rightarrow> (nat \<times> sys_call list) option" where
  "program_main addr srt fs sys ok lim hardware listen_err arg = do {
     (init, c) \<leftarrow> config_Initialize addr fs (case arg of Some f \<Rightarrow> f | None \<Rightarrow> ''./yarmproxy.conf'') Config0;
     if \<not> init then Some (1, [])
     else
       let (r, calls) = (if daemonize c then Daemonize sys else (Returns 0, []));
           calls = Init_Log (log_file c) (log_level c) # calls
       in case r of
            Exits n \<Rightarrow> Some (n, calls)
          | Returns _ \<Rightarrow> do {
              sets \<leftarrow> MaximizeFdLimit ok lim;
              let s = ProxyServer hardware (listen c) (word_of_int (worker_threads c));
              (entered, posts, s) \<leftarrow> server_Run addr srt c listen_err s;
              Some (0, calls @ [Set_Limits sets] @ snd (CreatePidFile sys c) @ [Serve s entered]
                @ snd (CleanupPidFile c))
            }
   }"

section \<open>Properties of the start\<close>

lemma redirect_only: "x \<in> set (snd (redirect sys fd ts)) \<Longrightarrow> \<exists>t\<in>set ts. x = Dup2 fd t"
  by (induction ts) (auto simp: case_prod_beta split: if_split_asm)

lemma redirect_ok: "fst (redirect sys fd ts) \<Longrightarrow> snd (redirect sys fd ts) = map (Dup2 fd) ts"
  by (induction ts) (auto simp: case_prod_beta split: if_split_asm)

text \<open>A daemon that started without an error has its three streams on the null device and keeps no other descriptor to it.\<close>

lemma Daemonize_success:
  assumes "Daemonize sys = (Returns 0, calls)" "open_null sys \<noteq> - 1"
  shows "fork_result sys = 0 \<and> calls = [Fork, Setsid] @ map (Dup2 (open_null sys)) [0, 1, 2]
    @ (if 2 < open_null sys then [Close_Fd (open_null sys)] else [])"
proof -
  have "fst (redirect sys (open_null sys) [0, 1, 2])"
    using assms by (auto simp: Daemonize_def Let_def case_prod_beta simp del: redirect.simps split: if_split_asm)
  from redirect_ok [OF this] this show ?thesis
    using assms by (auto simp: Daemonize_def Let_def case_prod_beta simp del: redirect.simps split: if_split_asm)
qed

text \<open>\<^verbatim>\<open>Daemonize\<close> works on descriptors only; the process that forked the daemon ends at once.\<close>

lemma Daemonize_calls:
  assumes "x \<in> set (snd (Daemonize sys))"
  shows "x \<in> {Fork, Setsid} \<or> (\<exists>fd t. x = Dup2 fd t) \<or> (\<exists>fd. x = Close_Fd fd)"
  using assms redirect_only [of x sys "open_null sys" "[0, 1, 2]"]
  by (auto simp: Daemonize_def Let_def case_prod_beta simp del: redirect.simps split: if_split_asm)

lemma Daemonize_parent: "0 < fork_result sys \<Longrightarrow> Daemonize sys = (Exits 0, [Fork])"
  by (simp add: Daemonize_def)

text \<open>
  The id written is that of the process that serves, the file is written before serving, and a run that returns
  from serving removes it.
\<close>

lemma program_main_pid_file:
  assumes "program_main addr srt fs sys ok lim hardware listen_err arg = Some (code, calls)"
    and "Write_File f t \<in> set calls"
  shows "code = 0 \<and> t = nat_dec (own_pid sys)
    \<and> (\<exists>before s entered. calls = before @ [Write_File f t, Serve s entered, Remove_File f])"
proof -
  obtain init c where c: "config_Initialize addr fs (case arg of Some f \<Rightarrow> f | None \<Rightarrow> ''./yarmproxy.conf'') Config0 = Some (init, c)"
    using assms(1) by (auto simp: program_main_def bind_eq_Some_conv)
  have no: "Write_File f t \<notin> set (snd (Daemonize sys))"
    using Daemonize_calls [of "Write_File f t" sys] by blast
  show ?thesis
    using assms no
    by (auto simp: program_main_def c Let_def bind_eq_Some_conv CreatePidFile_def CleanupPidFile_def case_prod_beta
        split: if_split_asm outcome.split_asm)
qed

end
