(* ===== verification/Load_Generator.thy ===== *)
theory Load_Generator
  imports Key_Distributer "HOL-Library.Sublist"
begin

text \<open>
  The load generator under \<^verbatim>\<open>src/stress\<close>: connections that send one query over and over (\<^verbatim>\<open>redis_conn.h\<close>,
  \<^verbatim>\<open>redis_conn.cc\<close>), and the keeper that replaces those that were closed (\<^verbatim>\<open>conn_keeper.h\<close>, \<^verbatim>\<open>conn_keeper.cc\<close>).

  A method returns the new connection and the operations it starts; the event loop completes one outstanding
  operation at a time and calls its handler with the outcome.  \<^verbatim>\<open>std::default_random_engine\<close> is left open by the
  standard: \<open>rng\<close> gives the next number and the next state of the engine.
\<close>

section \<open>A connection\<close>

datatype stress_op =
    Connect Endpoint
  | Write nat nat
  | Read
  | Repeat_Timer nat
  | Cancel_Repeat
  | Close_Stream
  | Shutdown_Send

record RedisConnection =
  query_data :: bytes
  query_written_bytes :: size_t
  is_writing :: bool
  closed :: bool
  stream_open :: bool
  repeat :: int
  upstream_endpoint :: Endpoint
  rand_eng :: nat

type_synonym engine = "nat \<Rightarrow> nat \<times> nat"

definition RedisConnection :: "engine \<Rightarrow> nat \<Rightarrow> Endpoint \<Rightarrow> RedisConnection" where
  "RedisConnection rng seed ep =
     (let (r, seed') = rng seed
      in \<lparr>query_data =
            (if r mod 2 = 0
             then ''*3'' @ CRLF @ ''$4'' @ CRLF @ ''mget'' @ CRLF @ ''$4'' @ CRLF @ ''key1'' @ CRLF @ ''$4'' @ CRLF @ ''key2'' @ CRLF
             else ''get key1 key2'' @ CRLF),
          query_written_bytes = 0, is_writing = False, closed = False, stream_open = True, repeat = 32768,
          upstream_endpoint = ep, rand_eng = seed'\<rparr>)"

definition stress_Initialize :: "RedisConnection \<Rightarrow> RedisConnection \<times> stress_op list" where
  "stress_Initialize c = (c, [Connect (upstream_endpoint c)])"

definition stress_Create :: "engine \<Rightarrow> nat \<Rightarrow> Endpoint \<Rightarrow> RedisConnection \<times> stress_op list" where
  "stress_Create rng seed ep = stress_Initialize (RedisConnection rng seed ep)"

definition stress_AsyncRead :: "RedisConnection \<Rightarrow> RedisConnection \<times> stress_op list" where
  "stress_AsyncRead c = (c, [Read])"

definition stress_AsyncWrite :: "RedisConnection \<Rightarrow> RedisConnection \<times> stress_op list" where
  "stress_AsyncWrite c =
     (if is_writing c then (c, [])
      else let c = c\<lparr>is_writing := True\<rparr>
           in if stream_open c
              then (c, [Write (unat (query_written_bytes c))
                          (unat (of_nat (length (query_data c)) - query_written_bytes c))])
              else (c, []))"

definition stress_Close :: "RedisConnection \<Rightarrow> RedisConnection \<times> stress_op list" where
  "stress_Close c =
     (if closed c then (c, [])
      else (c\<lparr>closed := True, stream_open := False\<rparr>, [Cancel_Repeat, Close_Stream]))"

definition OnConnected :: "bool \<Rightarrow> RedisConnection \<Rightarrow> RedisConnection \<times> stress_op list" where
  "OnConnected error c =
     (if error then (c\<lparr>stream_open := False, closed := True\<rparr>, [Close_Stream])
      else let (c, w) = stress_AsyncWrite c; (c, r) = stress_AsyncRead c in (c, w @ r))"

definition OnRepeatTimer :: "bool \<Rightarrow> RedisConnection \<Rightarrow> RedisConnection \<times> stress_op list" where
  "OnRepeatTimer error c =
     (if error then stress_Close c
      else if closed c then (c, [])
      else stress_AsyncWrite (c\<lparr>query_written_bytes := 0\<rparr>))"

definition stress_HandleWrite :: "engine \<Rightarrow> bool \<Rightarrow> size_t \<Rightarrow> RedisConnection \<Rightarrow> RedisConnection \<times> stress_op list" where
  "stress_HandleWrite rng error n c =
     (if error then stress_Close c
      else
        let c = c\<lparr>is_writing := False, query_written_bytes := query_written_bytes c + n\<rparr>
        in if query_written_bytes c < of_nat (length (query_data c)) then stress_AsyncWrite c
           else
             let c = c\<lparr>repeat := repeat c - 1\<rparr>
             in if repeat c > 0
                then let (r, seed) = rng (rand_eng c) in (c\<lparr>rand_eng := seed\<rparr>, [Repeat_Timer (1 + r mod 512)])
                else (c, [Shutdown_Send]))"

definition stress_HandleRead :: "bool \<Rightarrow> RedisConnection \<Rightarrow> RedisConnection \<times> stress_op list" where
  "stress_HandleRead error c = (if error then stress_Close c else stress_AsyncRead c)"

section \<open>Runs of a connection\<close>

text \<open>
  The connection, the operations that have not completed and the bytes that have left.  A write completes with at most
  the bytes it was given, also when it fails; operations without a handler complete unnoticed.
\<close>

record stress_run =
  conn :: RedisConnection
  pending_ops :: "stress_op list"
  sent :: bytes

definition proceed :: "RedisConnection \<times> stress_op list \<Rightarrow> stress_run \<Rightarrow> stress_run" where
  "proceed x r = r\<lparr>conn := fst x, pending_ops := pending_ops r @ snd x\<rparr>"

definition completes :: "engine \<Rightarrow> stress_op \<Rightarrow> bool \<Rightarrow> nat \<Rightarrow> stress_run \<Rightarrow> stress_run" where
  "completes rng p error n r =
     (case p of
        Connect _ \<Rightarrow> proceed (OnConnected error (conn r)) r
      | Write off len \<Rightarrow>
          let n = min n len
          in proceed (stress_HandleWrite rng error (of_nat n) (conn r))
               (r\<lparr>sent := sent r @ take n (drop off (query_data (conn r)))\<rparr>)
      | Read \<Rightarrow> proceed (stress_HandleRead error (conn r)) r
      | Repeat_Timer _ \<Rightarrow> proceed (OnRepeatTimer error (conn r)) r
      | _ \<Rightarrow> r)"

definition stress_start :: "engine \<Rightarrow> nat \<Rightarrow> Endpoint \<Rightarrow> stress_run" where
  "stress_start rng seed ep =
     \<lparr>conn = fst (stress_Create rng seed ep), pending_ops = snd (stress_Create rng seed ep), sent = []\<rparr>"

inductive stress_reachable :: "engine \<Rightarrow> stress_run \<Rightarrow> bool" for rng where
  start: "stress_reachable rng (stress_start rng seed ep)"
| turn: "\<lbrakk>stress_reachable rng r; p \<in> set (pending_ops r)\<rbrakk>
    \<Longrightarrow> stress_reachable rng (completes rng p error n (r\<lparr>pending_ops := remove1 p (pending_ops r)\<rparr>))"

text \<open>The operations whose handlers write or lead to a write; at most one of them is outstanding.\<close>

definition drives :: "stress_op \<Rightarrow> bool" where
  "drives p \<longleftrightarrow> (case p of Connect _ \<Rightarrow> True | Write _ _ \<Rightarrow> True | Repeat_Timer _ \<Rightarrow> True | _ \<Rightarrow> False)"

lemma drives_simps [simp]:
  "drives (Connect ep)" "drives (Write i n)" "drives (Repeat_Timer t)" "\<not> drives Read" "\<not> drives Cancel_Repeat"
  "\<not> drives Close_Stream" "\<not> drives Shutdown_Send"
  by (simp_all add: drives_def)

definition full_text :: "RedisConnection \<Rightarrow> bytes" where
  "full_text c = concat (replicate 32768 (query_data c))"

definition rounds :: "RedisConnection \<Rightarrow> bytes" where
  "rounds c = concat (replicate (32768 - nat (repeat c)) (query_data c))"

text \<open>What has been sent, by the operation that is outstanding.\<close>

definition progress :: "RedisConnection \<Rightarrow> stress_op list \<Rightarrow> bytes \<Rightarrow> bool" where
  "progress c ps s \<longleftrightarrow>
     0 < length (query_data c) \<and> length (query_data c) < 2 ^ 16 \<and> 0 \<le> repeat c \<and> repeat c \<le> 32768 \<and> closed c = (\<not> stream_open c)
     \<and> (case ps of
          [] \<Rightarrow> prefix s (full_text c) \<and> (\<not> closed c \<longrightarrow> s = full_text c)
        | [Connect _] \<Rightarrow> s = [] \<and> query_written_bytes c = 0 \<and> repeat c = 32768 \<and> \<not> is_writing c
        | [Write i n] \<Rightarrow> 0 < repeat c \<and> s = rounds c @ take i (query_data c) \<and> i = unat (query_written_bytes c)
            \<and> i < length (query_data c) \<and> n = length (query_data c) - i
        | [Repeat_Timer _] \<Rightarrow> 0 < repeat c \<and> s = rounds c \<and> \<not> is_writing c
        | _ \<Rightarrow> False)"

abbreviation stress_inv :: "stress_run \<Rightarrow> bool" where
  "stress_inv r \<equiv> progress (conn r) (filter drives (pending_ops r)) (sent r)"

lemma rounds_prefix:
  assumes "0 < repeat c" "repeat c \<le> 32768"
  shows "prefix (rounds c @ take i (query_data c)) (full_text c)" "rounds (c\<lparr>repeat := repeat c - 1\<rparr>) = rounds c @ query_data c"
proof -
  obtain k where k: "nat (repeat c) = Suc k" using assms(1) by (cases "nat (repeat c)") auto
  then have n: "32768 = (32768 - nat (repeat c)) + Suc k" "nat (repeat c - 1) = k" using assms(2) by auto
  have "full_text c = rounds c @ query_data c @ concat (replicate k (query_data c))"
    unfolding full_text_def rounds_def by (subst n(1)) (simp only: replicate_add replicate_Suc concat_append concat.simps)
  moreover have "query_data c = take i (query_data c) @ drop i (query_data c)" by simp
  ultimately show "prefix (rounds c @ take i (query_data c)) (full_text c)"
    by (metis append.assoc prefixI)
  have "32768 - k = Suc (32768 - nat (repeat c))" using k assms by auto
  then show "rounds (c\<lparr>repeat := repeat c - 1\<rparr>) = rounds c @ query_data c"
    by (simp add: rounds_def n(2) replicate_append_same [symmetric] del: replicate_Suc) (simp add: replicate_Suc replicate_append_same [symmetric])
qed

lemma progress_cases:
  assumes "progress c ps s"
  obtains "ps = []" | ep where "ps = [Connect ep]" | i n where "ps = [Write i n]" | t where "ps = [Repeat_Timer t]"
  using assms by (cases ps; cases "hd ps"; cases "tl ps") (auto simp: progress_def)

lemma progress_prefix: "progress c ps s \<Longrightarrow> prefix s (full_text c)"
proof -
  assume p: "progress c ps s"
  then show ?thesis
    by (rule progress_cases) (use p rounds_prefix(1) [of c 0] in \<open>auto simp: progress_def rounds_prefix\<close>)
qed

lemma progress_Close: "progress c ps s \<Longrightarrow> progress (fst (stress_Close c)) ps s"
proof -
  assume p: "progress c ps s"
  then show ?thesis
    by (rule progress_cases) (use p in \<open>auto simp: progress_def stress_Close_def full_text_def rounds_def\<close>)
qed

lemma closed_done: "progress c ps s \<Longrightarrow> progress (fst (stress_Close c)) [] s"
  using progress_prefix [of c ps s] by (auto simp: progress_def stress_Close_def full_text_def)

lemma Close_ops [simp]: "filter drives (snd (stress_Close c)) = []"
  by (simp add: stress_Close_def)

lemma driven_alone:
  assumes "progress c (filter drives ps) s" "p \<in> set ps" "drives p"
  shows "filter drives ps = [p]" "filter drives (remove1 p ps) = []"
proof -
  have "p \<in> set (filter drives ps)" using assms(2,3) by simp
  then show one: "filter drives ps = [p]"
    by (rule_tac progress_cases [OF assms(1)]) auto
  show "filter drives (remove1 p ps) = []"
    using one assms(3) by (simp add: filter_remove1)
qed

text \<open>A new write, on a connection that is not writing.\<close>

lemma progress_write:
  assumes "\<not> is_writing c" "0 < length (query_data c)" "length (query_data c) < 2 ^ 16" "0 < repeat c" "repeat c \<le> 32768"
    and "closed c = (\<not> stream_open c)" "unat (query_written_bytes c) < length (query_data c)"
    and "s = rounds c @ take (unat (query_written_bytes c)) (query_data c)"
  shows "progress (fst (stress_AsyncWrite c)) (filter drives (snd (stress_AsyncWrite c))) s"
proof -
  have "query_written_bytes c \<le> of_nat (length (query_data c))"
    using assms(3,7) by (simp add: word_le_nat_alt unat_of_nat_size_t)
  then have "unat (of_nat (length (query_data c)) - query_written_bytes c) = length (query_data c) - unat (query_written_bytes c)"
    using assms(3) by (simp add: unat_sub unat_of_nat_size_t)
  moreover have "rounds (c\<lparr>is_writing := True\<rparr>) = rounds c" "full_text (c\<lparr>is_writing := True\<rparr>) = full_text c"
    by (simp_all add: rounds_def full_text_def)
  ultimately show ?thesis
    using assms rounds_prefix(1) [OF assms(4,5)] by (cases "stream_open c") (simp_all add: progress_def stress_AsyncWrite_def Let_def)
qed

lemma progress_written:
  fixes rng error
  assumes p: "progress c [Write i len] s" and n: "n \<le> len" "n < 2 ^ 64"
  defines "x \<equiv> stress_HandleWrite rng error (of_nat n) c"
  shows "progress (fst x) (filter drives (snd x)) (s @ take n (drop i (query_data c)))"
proof -
  let ?q = "query_data c"
  let ?s = "s @ take n (drop i ?q)"
  have a: "0 < repeat c" "repeat c \<le> 32768" "s = rounds c @ take i ?q" "i = unat (query_written_bytes c)" "i < length ?q"
      "len = length ?q - i" "length ?q < 2 ^ 16" "closed c = (\<not> stream_open c)"
    using p by (auto simp: progress_def)
  have s: "?s = rounds c @ take (i + n) ?q" using a(3) by (simp add: take_add)
  have u: "unat (query_written_bytes c + of_nat n) = i + n"
    using n a(4-7) unat_add_size_t [of "query_written_bytes c" "of_nat n"] by (simp add: unat_of_nat_size_t)
  let ?c = "c\<lparr>is_writing := False, query_written_bytes := query_written_bytes c + of_nat n\<rparr>"
  have r: "rounds ?c = rounds c" "full_text ?c = full_text c" by (simp_all add: rounds_def full_text_def)
  have less: "query_written_bytes ?c < of_nat (length ?q) \<longleftrightarrow> i + n < length ?q"
    using a(7) u by (simp add: word_less_nat_alt unat_of_nat_size_t)
  consider "error" | "\<not> error" "i + n < length ?q" | "\<not> error" "i + n = length ?q"
    using n(1) a(5,6) by linarith
  then show ?thesis
  proof cases
    case 1
    then have x: "x = stress_Close c" by (simp add: x_def stress_HandleWrite_def)
    have "prefix ?s (full_text c)" unfolding s by (rule rounds_prefix(1) [OF a(1,2)])
    with p show ?thesis unfolding x by (auto simp: progress_def stress_Close_def full_text_def)
  next
    case 2
    then have "x = stress_AsyncWrite ?c" using less by (simp add: x_def stress_HandleWrite_def)
    then show ?thesis
      using progress_write [of ?c "rounds c @ take (i + n) ?q"] a(1,2,5,7,8) 2(2) u r(1) unfolding s by force
  next
    case 3
    let ?d = "?c\<lparr>repeat := repeat c - 1\<rparr>"
    have full: "?s = rounds ?d"
      using s 3(2) rounds_prefix(2) [of ?c] a(1,2) by (simp add: r)
    have pre: "prefix ?s (full_text c)" unfolding s by (rule rounds_prefix(1) [OF a(1,2)])
    show ?thesis
    proof (cases "repeat c > 1")
      case True
      obtain k seed where rng: "rng (rand_eng ?d) = (k, seed)" by force
      have "x = (?d\<lparr>rand_eng := seed\<rparr>, [Repeat_Timer (1 + k mod 512)])"
        using less 3 True rng by (simp add: x_def stress_HandleWrite_def Let_def)
      then show ?thesis
        using a full True by (auto simp: progress_def rounds_def)
    next
      case False
      then have "x = (?d, [Shutdown_Send])"
        using less 3 by (simp add: x_def stress_HandleWrite_def Let_def)
      moreover have "rounds ?d = full_text c" using False a(1) by (simp add: rounds_def full_text_def)
      ultimately show ?thesis
        using a full pre by (auto simp: progress_def full_text_def)
    qed
  qed
qed

lemma stress_inv_step:
  assumes "stress_inv r" "p \<in> set (pending_ops r)"
  shows "stress_inv (completes rng p error n (r\<lparr>pending_ops := remove1 p (pending_ops r)\<rparr>))"
proof (cases "drives p")
  case False
  then have "filter drives (remove1 p (pending_ops r)) = filter drives (pending_ops r)"
    by (simp add: filter_remove1 remove1_idem)
  then show ?thesis
    using False assms(1) progress_Close [OF assms(1)]
    by (cases p) (auto simp: completes_def proceed_def stress_HandleRead_def stress_AsyncRead_def)
next
  case True
  note one = driven_alone [OF assms True]
  have p: "progress (conn r) [p] (sent r)" using assms(1) one(1) by simp
  show ?thesis
  proof (cases p)
    case (Connect ep)
    have a: "sent r = []" "repeat (conn r) = 32768" "query_written_bytes (conn r) = 0" "\<not> is_writing (conn r)"
      "0 < length (query_data (conn r))" "length (query_data (conn r)) < 2 ^ 16" "closed (conn r) = (\<not> stream_open (conn r))"
      using p by (auto simp: progress_def Connect)
    have "progress (fst (stress_AsyncWrite (conn r))) (filter drives (snd (stress_AsyncWrite (conn r)))) []"
      using a by (intro progress_write) (auto simp: rounds_def)
    moreover have "OnConnected error (conn r) = (if error then (conn r\<lparr>stream_open := False, closed := True\<rparr>, [Close_Stream])
        else (fst (stress_AsyncWrite (conn r)), snd (stress_AsyncWrite (conn r)) @ [Read]))"
      by (simp add: OnConnected_def stress_AsyncRead_def case_prod_beta)
    moreover have "progress (conn r\<lparr>stream_open := False, closed := True\<rparr>) [] []"
      using a by (simp add: progress_def)
    ultimately show ?thesis
      using a(1) one(2) Connect by (simp add: completes_def proceed_def)
  next
    case (Write i len)
    have "min n len \<le> len" "min n len < 2 ^ 64"
      using p by (auto simp: progress_def Write)
    from progress_written [OF p [unfolded Write] this, of rng error] show ?thesis
      using one(2) by (simp add: completes_def proceed_def Write Let_def)
  next
    case (Repeat_Timer t)
    have a: "sent r = rounds (conn r)" "0 < repeat (conn r)" "repeat (conn r) \<le> 32768" "\<not> is_writing (conn r)"
      "0 < length (query_data (conn r))" "length (query_data (conn r)) < 2 ^ 16" "closed (conn r) = (\<not> stream_open (conn r))"
      using p by (auto simp: progress_def Repeat_Timer)
    let ?c = "conn r\<lparr>query_written_bytes := 0\<rparr>"
    have "rounds ?c = rounds (conn r)" by (simp add: rounds_def)
    then have w: "progress (fst (stress_AsyncWrite ?c)) (filter drives (snd (stress_AsyncWrite ?c))) (sent r)"
      using a by (intro progress_write) auto
    have d: "progress (conn r) [] (sent r)" if "closed (conn r)"
      using p progress_prefix [OF p] that by (auto simp: progress_def Repeat_Timer)
    show ?thesis
      using w d one(2) closed_done [OF p]
      by (auto simp: completes_def proceed_def OnRepeatTimer_def Repeat_Timer)
  qed (use True in auto)
qed

lemma stress_inv_start: "stress_inv (stress_start rng seed ep)"
  by (auto simp: stress_start_def stress_Create_def stress_Initialize_def RedisConnection_def progress_def case_prod_beta)

lemma stress_inv_reachable: "stress_reachable rng r \<Longrightarrow> stress_inv r"
  by (induction rule: stress_reachable.induct) (auto intro: stress_inv_start stress_inv_step)

text \<open>
  C38. A connection of the load generator sends its query at most 32768 times, one after the other: over any run,
  however writes are split or fail and whenever the peer closes, what has left is a beginning of the query repeated
  32768 times, at most one write is in flight, and a connection that has nothing left to do and was not closed has sent
  all of it.
\<close>

theorem stress_sends:
  assumes "stress_reachable rng r"
  shows "prefix (sent r) (concat (replicate 32768 (query_data (conn r))))
    \<and> length (filter (\<lambda>p. case p of Write _ _ \<Rightarrow> True | _ \<Rightarrow> False) (pending_ops r)) \<le> 1
    \<and> (filter drives (pending_ops r) = [] \<and> \<not> closed (conn r) \<longrightarrow> sent r = concat (replicate 32768 (query_data (conn r))))"
proof -
  note inv = stress_inv_reachable [OF assms]
  let ?w = "\<lambda>p. case p of Write _ _ \<Rightarrow> True | _ \<Rightarrow> False"
  have "length (filter drives (pending_ops r)) \<le> 1"
    using inv by (rule progress_cases) simp_all
  moreover have "length (filter ?w (pending_ops r)) \<le> length (filter drives (pending_ops r))"
  proof -
    have "filter ?w (pending_ops r) = filter ?w (filter drives (pending_ops r))"
      by (auto simp: filter_filter drives_def intro!: filter_cong split: stress_op.splits)
    then show ?thesis by (metis length_filter_le)
  qed
  ultimately show ?thesis
    using progress_prefix [OF inv] inv by (auto simp: progress_def full_text_def)
qed

text \<open>A closed connection stays closed, so the keeper sees it when its turn comes.\<close>

lemma closed_stays:
  assumes "closed (conn r)"
  shows "closed (conn (completes rng p error n r))"
  using assms
  by (cases p) (auto simp: completes_def proceed_def OnConnected_def stress_HandleWrite_def stress_HandleRead_def
      OnRepeatTimer_def stress_Close_def stress_AsyncWrite_def stress_AsyncRead_def Let_def case_prod_beta)

section \<open>The keeper\<close>

text \<open>
  Connections are numbered in the order of their creation.  \<open>is_closed\<close> is \<^verbatim>\<open>IsClosed\<close> of a connection; it does not change
  while the handler of the timer runs.
\<close>

record ConnectionKeeper =
  keeper_concurrency :: size_t
  next_check :: size_t
  topic_conn :: "nat list"
  created_conns :: nat

definition ConnectionKeeper :: "size_t \<Rightarrow> ConnectionKeeper" where
  "ConnectionKeeper n = \<lparr>keeper_concurrency = n, next_check = 0, topic_conn = [], created_conns = 0\<rparr>"

definition keep_new :: "ConnectionKeeper \<Rightarrow> ConnectionKeeper" where
  "keep_new k = k\<lparr>topic_conn := topic_conn k @ [created_conns k], created_conns := Suc (created_conns k)\<rparr>"

definition keeper_Start :: "ConnectionKeeper \<Rightarrow> ConnectionKeeper" where
  "keeper_Start k = (keep_new ^^ unat (keeper_concurrency k)) k"

text \<open>An index beyond the vector and the remainder by 0 are undefined.\<close>

definition CheckNextConnection :: "(nat \<Rightarrow> bool) \<Rightarrow> ConnectionKeeper \<Rightarrow> ConnectionKeeper option" where
  "CheckNextConnection is_closed k =
     (let i = unat (next_check k) in
      if i < length (topic_conn k) then
        let k = (if is_closed (topic_conn k ! i)
                 then k\<lparr>topic_conn := (topic_conn k)[i := created_conns k], created_conns := Suc (created_conns k)\<rparr>
                 else k)
        in Some (k\<lparr>next_check := (next_check k + 1) mod of_nat (length (topic_conn k))\<rparr>)
      else None)"

fun check_loop :: "(nat \<Rightarrow> bool) list \<Rightarrow> ConnectionKeeper \<Rightarrow> ConnectionKeeper option" where
  "check_loop [] k = Some k"
| "check_loop (f # fs) k = Option.bind (CheckNextConnection f k) (check_loop fs)"

definition check_rounds :: "ConnectionKeeper \<Rightarrow> nat" where
  "check_rounds k = (let n = min 100 (keeper_concurrency k div 20) in if n \<le> 0 then 1 else unat n)"

text \<open>The timer's error is not looked at.\<close>

definition OnCheckTimer :: "(nat \<Rightarrow> bool) \<Rightarrow> ConnectionKeeper \<Rightarrow> ConnectionKeeper option" where
  "OnCheckTimer is_closed k = check_loop (replicate (check_rounds k) is_closed) k"

fun check_ticks :: "(nat \<Rightarrow> bool) list \<Rightarrow> ConnectionKeeper \<Rightarrow> ConnectionKeeper option" where
  "check_ticks [] k = Some k"
| "check_ticks (f # fs) k = Option.bind (OnCheckTimer f k) (check_ticks fs)"

definition keeper_ok :: "ConnectionKeeper \<Rightarrow> bool" where
  "keeper_ok k \<longleftrightarrow> unat (next_check k) < length (topic_conn k) \<and> length (topic_conn k) < 2 ^ 63"

lemma keep_new_power:
  "topic_conn ((keep_new ^^ n) k) = topic_conn k @ [created_conns k..<created_conns k + n]
   \<and> created_conns ((keep_new ^^ n) k) = created_conns k + n \<and> next_check ((keep_new ^^ n) k) = next_check k
   \<and> keeper_concurrency ((keep_new ^^ n) k) = keeper_concurrency k"
  by (induction n) (simp_all add: keep_new_def)

lemma check_next:
  assumes "keeper_ok k"
  defines "i \<equiv> unat (next_check k)"
  shows "\<exists>k'. CheckNextConnection f k = Some k' \<and> keeper_ok k' \<and> length (topic_conn k') = length (topic_conn k)
    \<and> unat (next_check k') = Suc i mod length (topic_conn k) \<and> created_conns k \<le> created_conns k'
    \<and> keeper_concurrency k' = keeper_concurrency k
    \<and> topic_conn k' = (if f (topic_conn k ! i) then (topic_conn k)[i := created_conns k] else topic_conn k)"
proof -
  let ?n = "length (topic_conn k)"
  have a: "i < ?n" "?n < 2 ^ 63" using assms by (auto simp: keeper_ok_def)
  have "unat (next_check k + 1) = Suc i"
    using a unat_add_size_t [of "next_check k" 1] by (simp add: i_def)
  then have n: "unat ((next_check k + 1) mod of_nat ?n) = Suc i mod ?n"
    using a(2) by (simp add: unat_mod unat_of_nat_size_t)
  moreover have "Suc i mod ?n < ?n" using a(1) by (intro mod_less_divisor) auto
  ultimately show ?thesis
    using a by (auto simp: CheckNextConnection_def keeper_ok_def Let_def simp flip: i_def)
qed

text \<open>What the connection \<open>c\<close> says of itself at all of the checks.\<close>

definition stays :: "bool \<Rightarrow> (nat \<Rightarrow> bool) list \<Rightarrow> nat \<Rightarrow> bool" where
  "stays b fs c \<longleftrightarrow> list_all (\<lambda>f. f c = b) fs"

lemma stays_simps [simp]: "stays b [] c" "stays b (f # fs) c \<longleftrightarrow> f c = b \<and> stays b fs c"
  by (simp_all add: stays_def)

lemma stays_append: "stays b (fs @ gs) c \<longleftrightarrow> stays b fs c \<and> stays b gs c"
  by (simp add: stays_def)

lemma stays_replicate: "f c = b \<Longrightarrow> stays b (replicate n f) c"
  by (induction n) simp_all

definition slot_spec :: "(nat \<Rightarrow> bool) list \<Rightarrow> nat \<Rightarrow> nat \<Rightarrow> nat \<Rightarrow> bool \<Rightarrow> bool" where
  "slot_spec fs fresh c c' visited \<longleftrightarrow>
     (c' = c \<or> fresh \<le> c') \<and> (stays False fs c \<longrightarrow> c' = c) \<and> (stays True fs c \<and> visited \<longrightarrow> fresh \<le> c')"

lemma check_loop_spec:
  assumes "keeper_ok k"
  shows "\<exists>k'. check_loop fs k = Some k' \<and> keeper_ok k' \<and> length (topic_conn k') = length (topic_conn k)
    \<and> unat (next_check k') = (unat (next_check k) + length fs) mod length (topic_conn k) \<and> created_conns k \<le> created_conns k'
    \<and> keeper_concurrency k' = keeper_concurrency k
    \<and> (\<forall>j < length (topic_conn k). slot_spec fs (created_conns k) (topic_conn k ! j) (topic_conn k' ! j)
        (\<exists>i < length fs. (unat (next_check k) + i) mod length (topic_conn k) = j))"
  using assms
proof (induction fs arbitrary: k)
  case Nil
  then show ?case by (auto simp: keeper_ok_def slot_spec_def)
next
  case (Cons f fs)
  let ?n = "length (topic_conn k)" and ?i = "unat (next_check k)"
  obtain k1 where k1: "CheckNextConnection f k = Some k1" "keeper_ok k1" "length (topic_conn k1) = ?n"
      "unat (next_check k1) = Suc ?i mod ?n" "created_conns k \<le> created_conns k1" "keeper_concurrency k1 = keeper_concurrency k"
      "topic_conn k1 = (if f (topic_conn k ! ?i) then (topic_conn k)[?i := created_conns k] else topic_conn k)"
    using check_next [OF Cons.prems, of f] by blast
  obtain k' where k': "check_loop fs k1 = Some k'" "keeper_ok k'" "length (topic_conn k') = ?n"
      "unat (next_check k') = (Suc ?i mod ?n + length fs) mod ?n" "created_conns k1 \<le> created_conns k'"
      "keeper_concurrency k' = keeper_concurrency k"
      and slot: "\<And>j. j < ?n \<Longrightarrow> slot_spec fs (created_conns k1) (topic_conn k1 ! j) (topic_conn k' ! j)
        (\<exists>i < length fs. (Suc ?i mod ?n + i) mod ?n = j)"
    using Cons.IH [OF k1(2)] unfolding k1(3,4,6) by blast
  have turn: "\<exists>i < length fs. (Suc ?i mod ?n + i) mod ?n = j" if "i < length (f # fs)" "(?i + i) mod ?n = j" "j \<noteq> ?i" "j < ?n" for i j
  proof (cases i)
    case 0
    with that Cons.prems show ?thesis by (simp add: keeper_ok_def)
  next
    case (Suc i')
    have "(Suc ?i mod ?n + i') mod ?n = (?i + i) mod ?n" by (simp add: Suc mod_add_left_eq)
    with that Suc show ?thesis by auto
  qed
  have "slot_spec (f # fs) (created_conns k) (topic_conn k ! j) (topic_conn k' ! j) (\<exists>i < length (f # fs). (?i + i) mod ?n = j)"
    if j: "j < ?n" for j
  proof (cases "j = ?i")
    case True
    then show ?thesis using slot [OF j] k1(5,7) j by (auto simp: slot_spec_def split: if_split_asm)
  next
    case False
    then have "topic_conn k1 ! j = topic_conn k ! j" using k1(7) by simp
    then show ?thesis
      using slot [OF j] k1(5) turn [OF _ _ False j] by (auto simp: slot_spec_def)
  qed
  moreover have "(Suc ?i mod ?n + length fs) mod ?n = (?i + length (f # fs)) mod ?n" by (simp add: mod_add_left_eq)
  ultimately show ?case
    using k1(1) k'(1-3,6) k'(4) order_trans [OF k1(5) k'(5)] by simp
qed

lemma check_loop_append: "check_loop (fs @ gs) k = Option.bind (check_loop fs k) (check_loop gs)"
  by (induction fs arbitrary: k) (auto split: Option.bind_split)

lemma check_ticks_eq:
  assumes "keeper_ok k"
  shows "check_ticks fs k = check_loop (concat (map (replicate (check_rounds k)) fs)) k"
  using assms
proof (induction fs arbitrary: k)
  case (Cons f fs)
  obtain k1 where k1: "check_loop (replicate (check_rounds k) f) k = Some k1" "keeper_ok k1" "keeper_concurrency k1 = keeper_concurrency k"
    using check_loop_spec [OF Cons.prems, of "replicate (check_rounds k) f"] by blast
  then have "check_rounds k1 = check_rounds k" by (simp add: check_rounds_def)
  with Cons.IH [OF k1(2)] k1(1) show ?case by (simp add: OnCheckTimer_def check_loop_append)
qed simp

lemma keeper_started:
  assumes "0 < unat n" "unat n < 2 ^ 63"
  shows "keeper_ok (keeper_Start (ConnectionKeeper n))" "topic_conn (keeper_Start (ConnectionKeeper n)) = [0..<unat n]"
    "created_conns (keeper_Start (ConnectionKeeper n)) = unat n" "keeper_concurrency (keeper_Start (ConnectionKeeper n)) = n"
  using assms keep_new_power [of "unat n" "ConnectionKeeper n"]
  by (simp_all add: keeper_Start_def ConnectionKeeper_def keeper_ok_def)

text \<open>
  C39. Every closed connection is replaced, and no other: after a keeper of at least one connection was started
  and its timer has fired any number of times, further firings that together make as many checks as there are
  connections replace each connection that is closed through all of them by a new one, and keep each that is
  open through all of them; no check leaves the vector.
\<close>

theorem keeper_replaces_closed:
  assumes "0 < unat n" "unat n < 2 ^ 63"
  shows "\<exists>k k'. check_ticks before (keeper_Start (ConnectionKeeper n)) = Some k \<and> check_ticks fs k = Some k'
    \<and> length (topic_conn k) = unat n \<and> length (topic_conn k') = unat n
    \<and> (\<forall>j < unat n. (stays False fs (topic_conn k ! j) \<longrightarrow> topic_conn k' ! j = topic_conn k ! j)
        \<and> (stays True fs (topic_conn k ! j) \<and> unat n \<le> length fs * check_rounds k \<longrightarrow> created_conns k \<le> topic_conn k' ! j))"
proof -
  let ?k0 = "keeper_Start (ConnectionKeeper n)"
  note ok0 = keeper_started [OF assms]
  obtain k where k0: "check_ticks before ?k0 = Some k" "keeper_ok k" "length (topic_conn k) = length (topic_conn ?k0)"
    using check_loop_spec [OF ok0(1), of "concat (map (replicate (check_rounds ?k0)) before)"]
    unfolding check_ticks_eq [OF ok0(1)] by blast
  then have k: "check_ticks before ?k0 = Some k" "keeper_ok k" "length (topic_conn k) = unat n" by (simp_all add: ok0(2))
  let ?gs = "concat (map (replicate (check_rounds k)) fs)"
  have len: "length ?gs = length fs * check_rounds k" by (induction fs) auto
  have stays: "stays b fs c \<Longrightarrow> stays b ?gs c" for b c
    by (induction fs) (simp_all add: stays_append stays_replicate)
  obtain k' where k': "check_loop ?gs k = Some k'" "length (topic_conn k') = unat n"
      and slot: "\<And>j. j < unat n \<Longrightarrow> slot_spec ?gs (created_conns k) (topic_conn k ! j) (topic_conn k' ! j)
        (\<exists>i < length ?gs. (unat (next_check k) + i) mod unat n = j)"
    using check_loop_spec [OF k(2), of ?gs] unfolding k(3) by blast
  have nc: "unat (next_check k) < unat n" using k(2,3) by (simp add: keeper_ok_def)
  have visited: "\<exists>i < length ?gs. (unat (next_check k) + i) mod unat n = j" if "j < unat n" "unat n \<le> length fs * check_rounds k" for j
    using that nc unfolding len
    by (intro exI [where x = "if unat (next_check k) \<le> j then j - unat (next_check k) else j + unat n - unat (next_check k)"]) auto
  have "(stays False fs (topic_conn k ! j) \<longrightarrow> topic_conn k' ! j = topic_conn k ! j)
        \<and> (stays True fs (topic_conn k ! j) \<and> unat n \<le> length fs * check_rounds k \<longrightarrow> created_conns k \<le> topic_conn k' ! j)"
    if "j < unat n" for j
    using slot [OF that] visited [OF that] stays unfolding slot_spec_def by blast
  moreover have "check_ticks fs k = Some k'" using k'(1) check_ticks_eq [OF k(2), of fs] by simp
  ultimately show ?thesis using k k'(2) by blast
qed

section \<open>Sample runs\<close>

text \<open>The engine of the samples counts; a connection made from 1 sends the memcached query.\<close>

definition sample_rng :: engine where
  "sample_rng s = (s, Suc s)"

definition sample_stress :: stress_run where
  "sample_stress = stress_start sample_rng 1 (Endpoint 0x7F000001 11311)"

definition sample_connected :: stress_run where
  "sample_connected = completes sample_rng (Connect (Endpoint 0x7F000001 11311)) False 0 (sample_stress\<lparr>pending_ops := []\<rparr>)"

definition sample_partial :: stress_run where
  "sample_partial = completes sample_rng (Write 0 15) False 4 (sample_connected\<lparr>pending_ops := [Read]\<rparr>)"

lemmas stress_eval =
  stress_start_def stress_Create_def stress_Initialize_def RedisConnection_def sample_rng_def completes_def proceed_def
  OnConnected_def stress_AsyncRead_def stress_AsyncWrite_def stress_HandleWrite_def

lemma sample_runs:
  "pending_ops sample_stress = [Connect (Endpoint 0x7F000001 11311)]"
  "pending_ops sample_connected = [Write 0 15, Read]"
  "sent sample_partial = ''get '' \<and> query_data (conn sample_partial) = ''get key1 key2'' @ CRLF"
  by (simp_all add: sample_stress_def sample_connected_def sample_partial_def stress_eval)

theorem stress_sends_witness:
  "sent sample_partial = ''get '' \<and> prefix ''get '' (concat (replicate 32768 (''get key1 key2'' @ CRLF)))"
proof -
  have "stress_reachable sample_rng sample_stress"
    unfolding sample_stress_def by (rule stress_reachable.start)
  from stress_reachable.turn [OF this, of "Connect (Endpoint 0x7F000001 11311)" False 0]
  have "stress_reachable sample_rng sample_connected"
    by (simp add: sample_runs sample_connected_def)
  from stress_reachable.turn [OF this, of "Write 0 15" False 4]
  have "stress_reachable sample_rng sample_partial"
    by (simp add: sample_runs sample_partial_def)
  from stress_sends [OF this] show ?thesis using sample_runs(3) by simp
qed

theorem keeper_replaces_closed_witness:
  "\<exists>k'. check_ticks [\<lambda>c. c = 1, \<lambda>c. c = 1] (keeper_Start (ConnectionKeeper 2)) = Some k'
    \<and> topic_conn k' ! 0 = 0 \<and> 2 \<le> topic_conn k' ! 1"
proof -
  let ?fs = "[\<lambda>c. c = 1, \<lambda>c. c = (1 :: nat)]" and ?k = "keeper_Start (ConnectionKeeper 2)"
  note k = keeper_started [of 2]
  have r: "check_rounds ?k = 1" using k(4) by (simp add: check_rounds_def Let_def word_le_nat_alt unat_div)
  from keeper_replaces_closed [of 2 "[]" ?fs]
  obtain k' where k': "check_ticks ?fs ?k = Some k'"
      "\<forall>j < 2. (stays False ?fs (topic_conn ?k ! j) \<longrightarrow> topic_conn k' ! j = topic_conn ?k ! j)
        \<and> (stays True ?fs (topic_conn ?k ! j) \<and> 2 \<le> length ?fs * check_rounds ?k \<longrightarrow> created_conns ?k \<le> topic_conn k' ! j)"
    by auto
  from k'(2) [rule_format, of 0] k'(2) [rule_format, of 1] k'(1) show ?thesis
    using k r by (simp add: upt_rec)
qed

end
