(* ===== verification/Spec2Isabelle.thy ===== *)
theory Spec2Isabelle
  imports Redis_Protocol Read_Buffer Key_Locator Slab_Allocator Backend_Pool Reply_Parse Command_Split Client_Live
    Program_Start Load_Generator
begin

text \<open>
  A verification of yarmproxy, a proxy for redis and memcached: \<^verbatim>\<open>src/proxy\<close>, and its load generator \<^verbatim>\<open>src/stress\<close>.

  \<^bold>\<open>The program.\<close>  Clients send pipelined commands.  The proxy finds the backend of every key by the namespace of the
  key and a consistent hash ring, cuts commands with several keys into one query per backend, and returns the replies in
  the order of the commands.  The accepting thread gives each client to a worker.  A worker is a single thread with an
  event loop: the completion handlers of client sockets, backend sockets and timers run one at a time, and they share the
  worker's pool of backend connections, its allocator and its key locator.  Data is not copied: queries are written to the
  backends from the client's receive buffer, and replies to the client from the buffers of the backend connections, so
  both buffers are compacted only while no lock is held on them.

  \<^bold>\<open>Conventions\<close> (\<open>Yarm_Prelude\<close>).  \<^verbatim>\<open>size_t\<close> is a 64-bit word and wraps; an \<^verbatim>\<open>int\<close> is an integer whose overflow is undefined;
  memory is a list of bytes and a pointer a position in it.  A function of type \<open>_ option\<close> has the value \<open>None\<close> where the C++
  function does not return normally: undefined behaviour, a failed \<^verbatim>\<open>assert\<close>, an exception that leaves it, or a loop that does
  not end.

  \<^bold>\<open>The theories\<close>, from the bottom.

  \<^item> \<open>Yarm_Prelude\<close>: machine types, memory, the functions of the C and C++ libraries that the sources call, and shared
    lemmas on words, options and lists.  \<open>Error_Code\<close>: \<^verbatim>\<open>error_code.h\<close>, \<^verbatim>\<open>error_code.cc\<close>, \<^verbatim>\<open>protocol_type.h\<close>.

  \<^item> \<open>Read_Buffer\<close>: the class of \<^verbatim>\<open>read_buffer.h\<close> and \<^verbatim>\<open>read_buffer.cc\<close>.  Under all its mutating calls it refines a
    queue of bytes (locale \<open>channel_refinement\<close>); bytes that are locked do not move; what the test for free space means.

  \<^item> \<open>Redis_Protocol\<close>: \<^verbatim>\<open>Bulk\<close> and \<^verbatim>\<open>BulkArray\<close> of \<^verbatim>\<open>redis_protocol.h\<close>.  Parsing inverts printing, for any split of the input; where
    exactly the parser reads outside of the buffer; every step of its loop advances.

  \<^item> \<open>Doobs_Hash\<close> (\<^verbatim>\<open>doobs_hash.cc\<close>), \<open>Key_Distributer\<close> (\<^verbatim>\<open>key_distributer.cc\<close>), \<open>Key_Locator\<close> (\<^verbatim>\<open>key_locator.cc\<close>): the mixing step is a
    bijection and the hash reads only the key; a key is on a configured backend, and a backend that is added anywhere takes keys only for
    itself; the lookup is a function of the configuration.  \<^verbatim>\<open>std::sort\<close> is an argument with the contract of the locale \<open>cache_sort\<close>.

  \<^item> \<open>Config_File\<close> (\<^verbatim>\<open>config.h\<close>, \<^verbatim>\<open>config.cc\<close>): tokenizer, directives, start and reload.  The values that an accepted file can give,
    that a reload reads the same clusters as a start, and that reading is defined.  The content of the file and the address
    parser are arguments.

  \<^item> \<open>Slab_Allocator\<close> (\<^verbatim>\<open>allocator.cc\<close>): no buffer is given out twice; when slabs stay inside of the reserved area.

  \<^item> \<open>Backend_Conn\<close>, \<open>Backend_Pool\<close> (\<^verbatim>\<open>backend_conn.cc\<close>, \<^verbatim>\<open>backend_pool.cc\<close>): methods and completion handlers return the actions they ask
    of the event loop.  Over every order of completions the result of a query is reported once and success means that it is
    written completely; the race of the read timer; a connection is in the hands of one owner at a time (locale \<open>exclusive_pool\<close>).

  \<^item> \<open>Reply_Parse\<close>: \<^verbatim>\<open>ParseReply\<close> of every command class, and the reply on which the loop of memcached GET does not end.

  \<^item> \<open>Command_World\<close>, \<open>Command_Create\<close>, \<open>Command_Query\<close>, \<open>Client_Queue\<close>, \<open>Command_Reply\<close>, \<open>Client_Conn\<close>: the command classes
    (\<^verbatim>\<open>command.cc\<close>, \<^verbatim>\<open>redis_*_command.cc\<close>, \<^verbatim>\<open>memc_*_command.cc\<close>) and \<^verbatim>\<open>client_conn.cc\<close> over the record \<open>World\<close>: one client, its
    worker, the objects the two refer to, and \<open>ops\<close>, the operations that have been started and have not completed.  Commands
    and connections are named by numbers; a virtual call is a case distinction on the class.  \<open>handle\<close> runs the handler of one
    operation with an outcome, \<open>loop_step\<close> lets the environment choose both, \<open>reachable\<close> are the states of all runs.

  \<^item> \<open>Command_Frame\<close>, \<open>Client_Order\<close>, \<open>World_Rel\<close>, \<open>World_Inv\<close>, \<open>Client_Run\<close>, \<open>Client_Live\<close>: what holds over all runs.  \<open>Command_Frame\<close> says
    what operations leave alone; \<open>World_Rel\<close> shows once, in the locale \<open>world_rel\<close>, that a transitive relation that contains the
    elementary changes contains every handler.  Replies leave in the order of the commands, one at a time, each for the first
    command of the queue or one that is gone; the pipeline is bounded; at most one read is in flight; the pool stays consistent; after an abort
    nothing more is sent and the outstanding operations run out; a failure of the backend of a basic
    command or a SET is answered.  \<open>Client_Run\<close> is the loop as a function, on which the samples are evaluated.

  \<^item> \<open>Command_Split\<close>: MGET, MSET, DEL, EXISTS and TOUCH become one well-formed query per backend with exactly its keys, in order
    (locale \<open>key_split\<close>, with one interpretation per class); a command of the basic table is created when its last byte is there.

  \<^item> \<open>Proxy_Server\<close> (\<^verbatim>\<open>proxy_server.cc\<close>, \<^verbatim>\<open>worker_pool.cc\<close>, \<^verbatim>\<open>signal_watcher.cc\<close>, parts of \<^verbatim>\<open>utils.cc\<close> and \<^verbatim>\<open>logging.cc\<close>): choice of the worker,
    start, reload, signals, the limit of open files.  \<open>Program_Start\<close> (\<^verbatim>\<open>main.cc\<close>, \<^verbatim>\<open>utils.cc\<close>): becoming a daemon, the pid file and
    the order of the start.

  \<^item> \<open>Load_Generator\<close> (\<^verbatim>\<open>src/stress\<close>): what a connection sends over any run, and that the keeper replaces closed connections.

  \<^bold>\<open>Loops.\<close>  No definition has fuel.  Loops over received bytes or lists are structural or have a termination proof.  Three
  loops of the source need not end and are partial functions with the value \<open>None\<close> for that: the search for the file limit (it is
  shown to end), the slabs of the allocator (shown to end for every accepted configuration), and the values of a memcached GET
  (shown not to end on a certain reply).

  \<^bold>\<open>Not modelled.\<close>

  \<^item> \<^verbatim>\<open>loguru.h\<close>, \<^verbatim>\<open>loguru.cc\<close>: a logging library of a third party that is copied into the tree.  Log statements are left out
    everywhere; they do not change the state of the proxy.

  \<^item> Threads.  The model is that of one worker; what is posted to a worker is the result of the function that posts it.  Data that
    threads share without a lock (the caches of prefixes, the counters) is modelled as if there were one thread.

  \<^item> One client at a time: other clients of the same worker act on a client only through the pool and the allocator, whose
    contracts (\<open>Backend_Pool\<close>, \<open>Slab_Allocator\<close>) hold for any sequence of calls.

  \<^item> Boost and the kernel: sockets, timers and the event loop are operations with outcomes that the environment chooses.  Opening
    and binding the listening socket are taken to succeed; socket options have no effect.  Pinning threads to processors
    (\<^verbatim>\<open>SetThreadCpuAffinity\<close>, never called), the banner, and \<^verbatim>\<open>main\<close> of the load generator are plain I/O.

  \<^item> Exceptions that a worker survives: \<^verbatim>\<open>WorkerPool::StartDispatching\<close> catches what a handler throws and runs the loop on; in
    the model a run ends at a handler that does not return normally.

  \<^item> The destructors of connections, which free memory and count down the statistics of open connections: shared pointers are
    not counted, and a connection without references stays.  The unit tests and test servers.
\<close>

end
